(* ===== verification/Prelude.thy ===== *)
theory Prelude
  imports Complex_Main "HOL-Library.Char_ord" "HOL-Library.Sublist"
begin

text \<open>
  Shared vocabulary of the development.

  A Go string is a sequence of bytes, so it is a \<^typ>\<open>string\<close> here: a list of
  \<^typ>\<open>char\<close>, which in Isabelle has exactly the 256 byte values. A byte index is a
  \<^typ>\<open>nat\<close>; where the source returns \<open>-1\<close> for "not found" the model returns an
  \<open>option\<close>. A half-open byte range of a line is the record \<open>Range\<close> of
  \<^verbatim>\<open>scanner.go\<close>. The loops "advance while the byte is a digit" are all one
  function, \<open>skip_while\<close>, whose arithmetic the collection \<open>skip\<close> carries.
\<close>

named_theorems skip "bounds and contents of index-advancing loops"
named_theorems range_law "ordering, disjointness and coverage of byte ranges"

subsection \<open>Errors\<close>

text \<open>
  A run-time panic is a value, and so is the exhaustion of the fuel that bounds a recursion.
\<close>

datatype go_error = Panic | OutOfFuel

type_synonym 'a go = "go_error + 'a"

definition andThen :: "'e + 'a \<Rightarrow> ('a \<Rightarrow> 'e + 'b) \<Rightarrow> 'e + 'b" where
  "andThen m f = (case m of Inl e \<Rightarrow> Inl e | Inr x \<Rightarrow> f x)"

lemma andThen_simps [simp]: "andThen (Inl e) f = Inl e" "andThen (Inr x) f = f x"
  by (simp_all add: andThen_def)

lemma andThen_Inr: "andThen m f = Inr y \<longleftrightarrow> (\<exists>x. m = Inr x \<and> f x = Inr y)"
  by (cases m) auto

lemma andThen_cong [fundef_cong]: "m = m' \<Longrightarrow> (\<And>x. m' = Inr x \<Longrightarrow> f x = f' x) \<Longrightarrow> andThen m f = andThen m' f'"
  by (cases m') auto

subsection \<open>Bytes\<close>

abbreviation byte :: "char \<Rightarrow> nat" where
  "byte c \<equiv> of_char c"

text \<open>Byte subtraction wraps, as \<^verbatim>\<open>line[idx] - '0'\<close> does on Go's uint8.\<close>

definition byteSub :: "char \<Rightarrow> char \<Rightarrow> nat" where
  "byteSub a b = (byte a + (256 - byte b)) mod 256"

definition isASCIILetter :: "char \<Rightarrow> bool" where
  "isASCIILetter c \<longleftrightarrow> (CHR ''a'' \<le> c \<and> c \<le> CHR ''z'') \<or> (CHR ''A'' \<le> c \<and> c \<le> CHR ''Z'')"

definition isASCIIDigit :: "char \<Rightarrow> bool" where
  "isASCIIDigit c \<longleftrightarrow> CHR ''0'' \<le> c \<and> c \<le> CHR ''9''"

definition isUpperASCII :: "char \<Rightarrow> bool" where
  "isUpperASCII c \<longleftrightarrow> CHR ''A'' \<le> c \<and> c \<le> CHR ''Z''"

definition isLowerASCII :: "char \<Rightarrow> bool" where
  "isLowerASCII c \<longleftrightarrow> CHR ''a'' \<le> c \<and> c \<le> CHR ''z''"

definition isAlnumByte :: "char \<Rightarrow> bool" where
  "isAlnumByte c \<longleftrightarrow> (CHR ''a'' \<le> c \<and> c \<le> CHR ''z'') \<or> (CHR ''A'' \<le> c \<and> c \<le> CHR ''Z'')
     \<or> (CHR ''0'' \<le> c \<and> c \<le> CHR ''9'')"

definition lowerASCIIByte :: "char \<Rightarrow> char" where
  "lowerASCIIByte b = (if CHR ''A'' \<le> b \<and> b \<le> CHR ''Z'' then char_of (byte b + 32) else b)"

lemma byte_less_256 [simp]: "byte c < 256"
  using of_char_mod_256 [of c, where ?'a = nat] mod_less_divisor [of 256 "byte c"] by simp

lemma byte_eq_iff [simp]: "byte c = byte d \<longleftrightarrow> c = d"
  by (metis char_of_char)

lemma isASCIIDigit_byte: "isASCIIDigit c \<longleftrightarrow> 48 \<le> byte c \<and> byte c \<le> 57"
  by (simp add: isASCIIDigit_def less_eq_char_def)

lemma isASCIILetter_byte:
  "isASCIILetter c \<longleftrightarrow> (97 \<le> byte c \<and> byte c \<le> 122) \<or> (65 \<le> byte c \<and> byte c \<le> 90)"
  by (simp add: isASCIILetter_def less_eq_char_def)

lemma isUpperASCII_byte: "isUpperASCII c \<longleftrightarrow> 65 \<le> byte c \<and> byte c \<le> 90"
  by (simp add: isUpperASCII_def less_eq_char_def)

lemma isLowerASCII_byte: "isLowerASCII c \<longleftrightarrow> 97 \<le> byte c \<and> byte c \<le> 122"
  by (simp add: isLowerASCII_def less_eq_char_def)

lemma isAlnumByte_iff: "isAlnumByte c \<longleftrightarrow> isASCIILetter c \<or> isASCIIDigit c"
  by (auto simp: isAlnumByte_def isASCIILetter_def isASCIIDigit_def)

lemma byteSub_digit: "isASCIIDigit c \<Longrightarrow> byteSub c CHR ''0'' = byte c - 48"
proof -
  assume "isASCIIDigit c"
  then have "byteSub c CHR ''0'' = (256 + (byte c - 48)) mod 256"
    by (auto simp: byteSub_def isASCIIDigit_byte add.commute)
  also have "\<dots> = byte c - 48"
    by (simp only: mod_add_self1) (rule mod_less, use byte_less_256 [of c] in linarith)
  finally show ?thesis .
qed

lemma byteSub_digit_le: "isASCIIDigit c \<Longrightarrow> byteSub c CHR ''0'' \<le> 9"
  by (auto simp: byteSub_digit isASCIIDigit_byte)

lemma lowerASCIIByte_byte:
  "byte (lowerASCIIByte c) = (if 65 \<le> byte c \<and> byte c \<le> 90 then byte c + 32 else byte c)"
  by (simp add: lowerASCIIByte_def less_eq_char_def)

lemma lowerASCIIByte_idem [simp]: "lowerASCIIByte (lowerASCIIByte c) = lowerASCIIByte c"
  by (simp add: lowerASCIIByte_def less_eq_char_def)

subsection \<open>Index-advancing loops\<close>

text \<open>
  \<^verbatim>\<open>for j < len(s) && p(s[j]) { j++ }\<close> ends at \<open>skip_while p s j\<close>; with an extra
  bound \<^verbatim>\<open>d < m\<close> on the number of steps it ends at \<open>skip_upto p m s j\<close>.
\<close>

definition skip_while :: "(char \<Rightarrow> bool) \<Rightarrow> string \<Rightarrow> nat \<Rightarrow> nat" where
  "skip_while p s j = j + length (takeWhile p (drop j s))"

definition skip_upto :: "(char \<Rightarrow> bool) \<Rightarrow> nat \<Rightarrow> string \<Rightarrow> nat \<Rightarrow> nat" where
  "skip_upto p m s j = j + length (takeWhile p (take m (drop j s)))"

lemma skip_while_step:
  "skip_while p s j = (if j < length s \<and> p (s ! j) then skip_while p s (Suc j) else j)"
proof (cases "j < length s")
  case True
  then have "drop j s = s ! j # drop (Suc j) s" by (rule Cons_nth_drop_Suc [symmetric])
  with True show ?thesis by (simp add: skip_while_def)
next
  case False
  then show ?thesis by (simp add: skip_while_def)
qed

lemma skip_upto_step:
  "skip_upto p m s j =
     (if j < length s \<and> p (s ! j) \<and> 0 < m then skip_upto p (m - 1) s (Suc j) else j)"
proof (cases "j < length s")
  case True
  then have "drop j s = s ! j # drop (Suc j) s" by (rule Cons_nth_drop_Suc [symmetric])
  with True show ?thesis by (cases m) (simp_all add: skip_upto_def)
next
  case False
  then show ?thesis by (simp add: skip_upto_def)
qed

lemma skip_while_ge [skip, simp]: "j \<le> skip_while p s j"
  by (simp add: skip_while_def)

lemma skip_upto_ge [skip, simp]: "j \<le> skip_upto p m s j"
  by (simp add: skip_upto_def)

lemma le_skip_while [skip, simp]: "k \<le> j \<Longrightarrow> k \<le> skip_while p s j"
  by (simp add: skip_while_def)

lemma le_skip_upto [skip, simp]: "k \<le> j \<Longrightarrow> k \<le> skip_upto p m s j"
  by (simp add: skip_upto_def)

lemma less_skip_while [skip, simp]: "k < j \<Longrightarrow> k < skip_while p s j"
  by (simp add: skip_while_def)

lemma less_skip_upto [skip, simp]: "k < j \<Longrightarrow> k < skip_upto p m s j"
  by (simp add: skip_upto_def)

lemma skip_while_le [skip]: "j \<le> length s \<Longrightarrow> skip_while p s j \<le> length s"
  using length_takeWhile_le [of p "drop j s"] by (simp add: skip_while_def)

lemma skip_upto_le [skip]: "j \<le> length s \<Longrightarrow> skip_upto p m s j \<le> length s"
proof -
  assume "j \<le> length s"
  moreover have "length (takeWhile p (take m (drop j s))) \<le> length (take m (drop j s))"
    by (rule length_takeWhile_le)
  ultimately have "length (takeWhile p (take m (drop j s))) \<le> length s - j" by simp
  then show ?thesis using \<open>j \<le> length s\<close> by (simp add: skip_upto_def)
qed

lemma skip_upto_bound [skip]: "skip_upto p m s j \<le> j + m"
proof -
  have "length (takeWhile p (take m (drop j s))) \<le> length (take m (drop j s))"
    by (rule length_takeWhile_le)
  then show ?thesis by (simp add: skip_upto_def)
qed

lemma skip_while_all [skip]:
  assumes "j \<le> k" and "k < skip_while p s j" and "j \<le> length s"
  shows "k < length s \<and> p (s ! k)"
proof -
  let ?t = "takeWhile p (drop j s)"
  have len: "k - j < length ?t" using assms by (auto simp: skip_while_def)
  then have "p (?t ! (k - j))" using set_takeWhileD nth_mem by metis
  moreover have "?t ! (k - j) = drop j s ! (k - j)" using len by (rule takeWhile_nth)
  moreover have "k < length s" using assms skip_while_le [OF assms(3), of p] by linarith
  ultimately show ?thesis using assms by simp
qed

lemma skip_upto_all [skip]:
  assumes "j \<le> k" and "k < skip_upto p m s j" and "j \<le> length s"
  shows "k < length s \<and> p (s ! k)"
proof -
  let ?t = "takeWhile p (take m (drop j s))"
  have len: "k - j < length ?t" using assms by (auto simp: skip_upto_def)
  then have "p (?t ! (k - j))" using set_takeWhileD nth_mem by metis
  moreover have "?t ! (k - j) = take m (drop j s) ! (k - j)" using len by (rule takeWhile_nth)
  moreover have "k - j < m"
    using len length_takeWhile_le [of p "take m (drop j s)"] by simp
  moreover have "k < length s" using assms skip_upto_le [OF assms(3), of p m] by linarith
  ultimately show ?thesis using assms by simp
qed

lemma skip_while_stop [skip]:
  assumes "skip_while p s j < length s" and "j \<le> length s"
  shows "\<not> p (s ! skip_while p s j)"
proof -
  let ?n = "length (takeWhile p (drop j s))"
  have "?n < length (drop j s)" using assms by (simp add: skip_while_def)
  then have "\<not> p (drop j s ! ?n)" by (rule nth_length_takeWhile)
  then show ?thesis using assms by (simp add: skip_while_def)
qed

subsection \<open>Byte ranges of a line\<close>

record Range =
  Start :: nat
  End :: nat

definition range_in :: "nat \<Rightarrow> 'a Range_scheme \<Rightarrow> bool" where
  "range_in n r \<longleftrightarrow> Start r < End r \<and> End r \<le> n"

definition range_bytes :: "'a Range_scheme \<Rightarrow> nat set" where
  "range_bytes r = {Start r ..< End r}"

definition ranges_bytes :: "'a Range_scheme list \<Rightarrow> nat set" where
  "ranges_bytes rs = (\<Union>r\<in>set rs. range_bytes r)"

text \<open>In line order and pairwise disjoint: each range ends before the next one starts.\<close>

definition ranges_ordered :: "'a Range_scheme list \<Rightarrow> bool" where
  "ranges_ordered rs \<longleftrightarrow> sorted_wrt (\<lambda>r s. End r \<le> Start s) rs"

definition ranges_ok :: "nat \<Rightarrow> 'a Range_scheme list \<Rightarrow> bool" where
  "ranges_ok n rs \<longleftrightarrow> ranges_ordered rs \<and> (\<forall>r\<in>set rs. range_in n r)"

lemma ranges_bytes_Nil [range_law, simp]: "ranges_bytes [] = {}"
  by (simp add: ranges_bytes_def)

lemma ranges_bytes_Cons [range_law, simp]:
  "ranges_bytes (r # rs) = range_bytes r \<union> ranges_bytes rs"
  by (simp add: ranges_bytes_def)

lemma ranges_bytes_append [range_law, simp]:
  "ranges_bytes (rs @ ss) = ranges_bytes rs \<union> ranges_bytes ss"
  by (auto simp: ranges_bytes_def)

lemma ranges_ok_Nil [range_law, simp]: "ranges_ok n []"
  by (simp add: ranges_ok_def ranges_ordered_def)

lemma ranges_ok_Cons [range_law]:
  "ranges_ok n (r # rs) \<longleftrightarrow>
     range_in n r \<and> (\<forall>s\<in>set rs. End r \<le> Start s) \<and> ranges_ok n rs"
  by (auto simp: ranges_ok_def ranges_ordered_def)

text \<open>
  The contract of a detector that reports byte ranges of a line: what it reports lies
  inside the line, in line order, without overlap. \<^verbatim>\<open>scanLine\<close> cuts a line at
  these ranges, and the cut is only meaningful under this contract.
\<close>

locale range_detector =
  fixes find :: "string \<Rightarrow> 'a Range_scheme list"
  assumes find_ok: "ranges_ok (length line) (find line)"
begin

lemma find_in_line: "r \<in> set (find line) \<Longrightarrow> Start r < End r \<and> End r \<le> length line"
  using find_ok [of line] by (auto simp: ranges_ok_def range_in_def)

lemma find_disjoint:
  assumes "i < j" and "j < length (find line)"
  shows "End (find line ! i) \<le> Start (find line ! j)"
  using find_ok [of line] assms
  by (auto simp: ranges_ok_def ranges_ordered_def sorted_wrt_iff_nth_less)

lemma find_bytes_bound: "ranges_bytes (find line) \<subseteq> {..< length line}"
  using find_in_line [of _ line] by (fastforce simp: ranges_bytes_def range_bytes_def)

end

end
