(* ===== verification/GoStrings.thy ===== *)
theory GoStrings
  imports Prelude
begin

text \<open>
  What the scanner uses of Go's \<^verbatim>\<open>strings\<close>, \<^verbatim>\<open>unicode\<close> and
  \<^verbatim>\<open>unicode/utf8\<close> packages, on byte strings.

  The Unicode character classes are fixed here for ASCII; for the other code points they
  are the fields of a \<open>unicode_tables\<close> record, a parameter of every function that
  asks for a class, so that no result depends on a particular edition of the Unicode
  tables.
\<close>

named_theorems runes "decoding and encoding of UTF-8"

subsection \<open>strings\<close>

fun IndexByte :: "string \<Rightarrow> char \<Rightarrow> nat option" where
  "IndexByte [] c = None"
| "IndexByte (x # s) c = (if x = c then Some 0 else map_option Suc (IndexByte s c))"

fun LastIndexByte :: "string \<Rightarrow> char \<Rightarrow> nat option" where
  "LastIndexByte [] c = None"
| "LastIndexByte (x # s) c =
     (case LastIndexByte s c of Some i \<Rightarrow> Some (Suc i) | None \<Rightarrow> if x = c then Some 0 else None)"

fun Index :: "string \<Rightarrow> string \<Rightarrow> nat option" where
  "Index [] t = (if t = [] then Some 0 else None)"
| "Index (x # s) t = (if prefix t (x # s) then Some 0 else map_option Suc (Index s t))"

definition Contains :: "string \<Rightarrow> string \<Rightarrow> bool" where
  "Contains s t \<longleftrightarrow> Index s t \<noteq> None"

definition ContainsAny :: "string \<Rightarrow> string \<Rightarrow> bool" where
  "ContainsAny s cs \<longleftrightarrow> list_ex (\<lambda>c. c \<in> set cs) s"

fun IndexAny :: "string \<Rightarrow> string \<Rightarrow> nat option" where
  "IndexAny [] cs = None"
| "IndexAny (x # s) cs = (if x \<in> set cs then Some 0 else map_option Suc (IndexAny s cs))"

fun LastIndexAny :: "string \<Rightarrow> string \<Rightarrow> nat option" where
  "LastIndexAny [] cs = None"
| "LastIndexAny (x # s) cs =
     (case LastIndexAny s cs of Some i \<Rightarrow> Some (Suc i) | None \<Rightarrow> if x \<in> set cs then Some 0 else None)"

definition HasPrefix :: "string \<Rightarrow> string \<Rightarrow> bool" where
  "HasPrefix s t \<longleftrightarrow> prefix t s"

definition HasSuffix :: "string \<Rightarrow> string \<Rightarrow> bool" where
  "HasSuffix s t \<longleftrightarrow> prefix (rev t) (rev s)"

definition TrimPrefix :: "string \<Rightarrow> string \<Rightarrow> string" where
  "TrimPrefix s t = (if HasPrefix s t then drop (length t) s else s)"

definition TrimSuffix :: "string \<Rightarrow> string \<Rightarrow> string" where
  "TrimSuffix s t = (if HasSuffix s t then take (length s - length t) s else s)"

definition TrimRight :: "string \<Rightarrow> string \<Rightarrow> string" where
  "TrimRight s cs = rev (dropWhile (\<lambda>c. c \<in> set cs) (rev s))"

definition CountByte :: "string \<Rightarrow> char \<Rightarrow> nat" where
  "CountByte s c = length (filter (\<lambda>x. x = c) s)"

fun Split :: "string \<Rightarrow> char \<Rightarrow> string list" where
  "Split [] c = [[]]"
| "Split (x # s) c = (if x = c then [] # Split s c
     else (case Split s c of [] \<Rightarrow> [[x]] | p # ps \<Rightarrow> (x # p) # ps))"

definition CutByte :: "string \<Rightarrow> char \<Rightarrow> (string \<times> string) option" where
  "CutByte s c = map_option (\<lambda>i. (take i s, drop (Suc i) s)) (IndexByte s c)"

definition Cut :: "string \<Rightarrow> string \<Rightarrow> (string \<times> string) option" where
  "Cut s t = map_option (\<lambda>i. (take i s, drop (i + length t) s)) (Index s t)"

text \<open>\<open>FieldsAny\<close> is \<^verbatim>\<open>strings.FieldsFunc\<close> for a predicate that holds of the ASCII bytes \<open>cs\<close> only.\<close>

fun SplitAny :: "string \<Rightarrow> string \<Rightarrow> string list" where
  "SplitAny [] cs = [[]]"
| "SplitAny (x # s) cs = (if x \<in> set cs then [] # SplitAny s cs
     else (case SplitAny s cs of [] \<Rightarrow> [[x]] | p # ps \<Rightarrow> (x # p) # ps))"

definition FieldsAny :: "string \<Rightarrow> string \<Rightarrow> string list" where
  "FieldsAny s cs = filter (\<lambda>p. p \<noteq> []) (SplitAny s cs)"

lemma IndexByte_None [simp]: "IndexByte s c = None \<longleftrightarrow> c \<notin> set s"
  by (induction s) auto

lemma IndexByte_Some:
  "IndexByte s c = Some i \<longleftrightarrow> i < length s \<and> s ! i = c \<and> c \<notin> set (take i s)"
proof (induction s arbitrary: i)
  case Nil
  then show ?case by simp
next
  case (Cons x s)
  then show ?case by (cases i) (auto split: if_splits)
qed

lemma IndexByte_split: "IndexByte s c = Some i \<Longrightarrow> s = take i s @ c # drop (Suc i) s"
  by (auto simp: IndexByte_Some id_take_nth_drop)

lemma Index_Some_prefix: "Index s t = Some i \<Longrightarrow> i \<le> length s \<and> prefix t (drop i s)"
  by (induction s arbitrary: i) (auto split: if_splits)

lemma Index_exists: "prefix t (drop i s) \<Longrightarrow> i \<le> length s \<Longrightarrow> Index s t \<noteq> None"
proof (induction s arbitrary: i)
  case Nil
  then show ?case by simp
next
  case (Cons x s)
  then show ?case by (cases i) auto
qed

lemma Contains_sublist: "Contains s t \<longleftrightarrow> sublist t s"
proof
  assume "Contains s t"
  then obtain i where i: "Index s t = Some i" by (auto simp: Contains_def)
  then obtain zs where "drop i s = t @ zs" by (metis Index_Some_prefix prefixE)
  then have "s = take i s @ t @ zs" by (metis append_take_drop_id)
  then show "sublist t s" by (auto simp: sublist_def)
next
  assume "sublist t s"
  then obtain ps ss where "s = ps @ t @ ss" by (auto simp: sublist_def)
  then have "prefix t (drop (length ps) s)" and "length ps \<le> length s" by auto
  then show "Contains s t" using Index_exists by (auto simp: Contains_def)
qed

lemma ContainsAny_iff: "ContainsAny s cs \<longleftrightarrow> (\<exists>c\<in>set s. c \<in> set cs)"
  by (auto simp: ContainsAny_def list_ex_iff)

lemma HasSuffix_iff: "HasSuffix s t \<longleftrightarrow> suffix t s"
  by (simp add: HasSuffix_def suffix_to_prefix)

lemma Split_nonempty [simp]: "Split s c \<noteq> []"
  by (induction s) (auto split: list.splits)

lemma Split_no_sep: "p \<in> set (Split s c) \<Longrightarrow> c \<notin> set p"
proof (induction s arbitrary: p)
  case Nil
  then show ?case by simp
next
  case (Cons x s)
  then show ?case by (cases "Split s c") (auto split: if_splits)
qed

text \<open>Joining what \<^const>\<open>Split\<close> returns gives the string back.\<close>

fun Join :: "string list \<Rightarrow> string \<Rightarrow> string" where
  "Join [] sep = []"
| "Join [p] sep = p"
| "Join (p # q # ps) sep = p @ sep @ Join (q # ps) sep"

lemma Join_Cons: "ps \<noteq> [] \<Longrightarrow> Join (p # ps) sep = p @ sep @ Join ps sep"
  by (cases ps) auto

lemma Join_Split: "Join (Split s c) [c] = s"
proof (induction s)
  case Nil
  then show ?case by simp
next
  case (Cons x s)
  obtain p ps where ps: "Split s c = p # ps" by (cases "Split s c") auto
  then show ?case using Cons by (cases ps) auto
qed

lemma Split_single: "c \<notin> set s \<Longrightarrow> Split s c = [s]"
  by (induction s) auto

lemma Split_line: "c \<notin> set l \<Longrightarrow> Split (l @ c # s) c = l # Split s c"
  by (induction l) auto

lemma Split_append: "Split (s @ t) c = butlast (Split s c) @ Split (last (Split s c) @ t) c"
proof (induction s)
  case (Cons x s)
  obtain p ps where p: "Split s c = p # ps" using Split_nonempty by (cases "Split s c") auto
  show ?case
  proof (cases "ps = []")
    case True
    then show ?thesis using Cons p by (auto split: list.splits)
  next
    case False
    then show ?thesis using Cons p by (auto split: list.splits)
  qed
qed simp

lemma Split_Join: "\<forall>p \<in> set ps. c \<notin> set p \<Longrightarrow> ps \<noteq> [] \<Longrightarrow> Split (Join ps [c]) c = ps"
proof (induction ps)
  case (Cons p ps)
  then show ?case using Split_single [of c p] Split_line [of c p "Join ps [c]"] by (cases "ps = []") (simp_all add: Join_Cons)
qed simp

subsection \<open>utf8\<close>

text \<open>
  \<open>DecodeRune\<close> is \<^verbatim>\<open>utf8.DecodeRuneInString\<close>: the first rune and its width, with
  \<open>RuneError\<close> of width 1 for a byte that does not start a well-formed sequence and
  width 0 on the empty string. Overlong forms, surrogates and values above
  \<^verbatim>\<open>U+10FFFF\<close> are rejected by the ranges of the second byte.
\<close>

definition RuneSelf :: nat where "RuneSelf = 128"
definition RuneError :: nat where "RuneError = 65533"

definition cont :: "nat \<Rightarrow> nat \<Rightarrow> nat \<Rightarrow> bool" where
  "cont lo hi b \<longleftrightarrow> lo \<le> b \<and> b \<le> hi"

definition decode2 :: "nat \<Rightarrow> nat list \<Rightarrow> (nat \<times> nat) option" where
  "decode2 a bs = (case bs of
     b # _ \<Rightarrow> if cont 128 191 b then Some ((a - 192) * 64 + (b - 128), 2) else None
   | [] \<Rightarrow> None)"

definition decode3 :: "nat \<Rightarrow> nat \<Rightarrow> nat \<Rightarrow> nat list \<Rightarrow> (nat \<times> nat) option" where
  "decode3 lo hi a bs = (case bs of
     b # c # _ \<Rightarrow> if cont lo hi b \<and> cont 128 191 c
       then Some ((a - 224) * 4096 + (b - 128) * 64 + (c - 128), 3) else None
   | _ \<Rightarrow> None)"

definition decode4 :: "nat \<Rightarrow> nat \<Rightarrow> nat \<Rightarrow> nat list \<Rightarrow> (nat \<times> nat) option" where
  "decode4 lo hi a bs = (case bs of
     b # c # d # _ \<Rightarrow> if cont lo hi b \<and> cont 128 191 c \<and> cont 128 191 d
       then Some ((a - 240) * 262144 + (b - 128) * 4096 + (c - 128) * 64 + (d - 128), 4) else None
   | _ \<Rightarrow> None)"

definition decode_lead :: "nat \<Rightarrow> nat list \<Rightarrow> (nat \<times> nat) option" where
  "decode_lead a bs =
     (if a < 128 then Some (a, 1)
      else if a < 194 then None
      else if a < 224 then decode2 a bs
      else if a = 224 then decode3 160 191 a bs
      else if a = 237 then decode3 128 159 a bs
      else if a < 240 then decode3 128 191 a bs
      else if a = 240 then decode4 144 191 a bs
      else if a < 244 then decode4 128 191 a bs
      else if a = 244 then decode4 128 143 a bs
      else None)"

definition DecodeRune :: "string \<Rightarrow> nat \<times> nat" where
  "DecodeRune s = (case s of
     [] \<Rightarrow> (RuneError, 0)
   | x # t \<Rightarrow> (case decode_lead (byte x) (map of_char (take 3 t)) of
                 Some rw \<Rightarrow> rw | None \<Rightarrow> (RuneError, 1)))"

definition EncodeRune :: "nat \<Rightarrow> string" where
  "EncodeRune r =
     (if r < 128 then [char_of r]
      else if r < 2048 then [char_of (192 + r div 64), char_of (128 + r mod 64)]
      else if (55296 \<le> r \<and> r \<le> 57343) \<or> 1114111 < r
        then [char_of (239::nat), char_of (191::nat), char_of (189::nat)]
      else if r < 65536 then
        [char_of (224 + r div 4096), char_of (128 + r div 64 mod 64), char_of (128 + r mod 64)]
      else [char_of (240 + r div 262144), char_of (128 + r div 4096 mod 64),
            char_of (128 + r div 64 mod 64), char_of (128 + r mod 64)])"

definition valid_rune :: "nat \<Rightarrow> bool" where
  "valid_rune r \<longleftrightarrow> r \<le> 1114111 \<and> \<not> (55296 \<le> r \<and> r \<le> 57343)"

lemmas decode_defs = DecodeRune_def decode_lead_def decode2_def decode3_def decode4_def cont_def

lemma DecodeRune_Nil [runes, simp]: "DecodeRune [] = (RuneError, 0)"
  by (simp add: DecodeRune_def)

lemma DecodeRune_ascii [runes]: "byte x < 128 \<Longrightarrow> DecodeRune (x # t) = (byte x, 1)"
  by (simp add: DecodeRune_def decode_lead_def)

lemma byte_char_of [runes, simp]: "n < 256 \<Longrightarrow> byte (char_of n) = n"
  by (simp add: of_char_of)

lemma decode_lead_width: "decode_lead a bs = Some (r, w) \<Longrightarrow> 1 \<le> w \<and> w \<le> Suc (length bs)"
  by (auto simp: decode_defs split: if_splits list.splits)

lemma DecodeRune_width [runes]:
  "s \<noteq> [] \<Longrightarrow> 1 \<le> snd (DecodeRune s) \<and> snd (DecodeRune s) \<le> length s"
proof (cases s)
  case (Cons x t)
  show ?thesis
  proof (cases "decode_lead (byte x) (map of_char (take 3 t))")
    case None
    then show ?thesis by (simp add: Cons DecodeRune_def)
  next
    case (Some rw)
    then obtain r w where "rw = (r, w)" by (cases rw)
    with Some show ?thesis
      using decode_lead_width [of "byte x" "map of_char (take 3 t)" r w]
      by (simp add: Cons DecodeRune_def) linarith
  qed
qed simp

lemma EncodeRune_length [runes]: "1 \<le> length (EncodeRune r) \<and> length (EncodeRune r) \<le> 4"
  by (simp add: EncodeRune_def)

lemma Decode_Encode2:
  assumes "128 \<le> r" and "r < 2048"
  shows "DecodeRune (EncodeRune r @ t) = (r, 2)"
proof -
  have "r div 64 < 32" and "2 \<le> r div 64" using assms by auto
  then show ?thesis using assms by (simp add: EncodeRune_def decode_defs)
qed

text \<open>A multi-byte rune is written by its 6-bit groups, which its value determines.\<close>

lemma sextets3: "(r::nat) div 4096 * 4096 + r div 64 mod 64 * 64 + r mod 64 = r"
proof -
  have "r div 64 = r div 64 div 64 * 64 + r div 64 mod 64" by simp
  moreover have "r div 64 div 64 = r div 4096" by (simp add: div_mult2_eq [symmetric])
  moreover have "r = r div 64 * 64 + r mod 64" by simp
  ultimately show ?thesis by linarith
qed

lemma sextets4:
  "(r::nat) div 262144 * 262144 + r div 4096 mod 64 * 4096 + r div 64 mod 64 * 64 + r mod 64 = r"
proof -
  have "r div 4096 = r div 4096 div 64 * 64 + r div 4096 mod 64" by simp
  moreover have "r div 4096 div 64 = r div 262144" by (simp add: div_mult2_eq [symmetric])
  ultimately show ?thesis using sextets3 [of r] by linarith
qed

lemma Decode_Encode3:
  assumes "2048 \<le> r" and "r < 65536" and "valid_rune r"
  shows "DecodeRune (EncodeRune r @ t) = (r, 3)"
proof -
  define a b c where "a = r div 4096" and "b = r div 64 mod 64" and "c = r mod 64"
  have a: "a < 16" and b: "b < 64" and c: "c < 64" using assms by (auto simp: a_def b_def c_def)
  have r: "r = a * 4096 + b * 64 + c" using sextets3 [of r] by (simp add: a_def b_def c_def)
  have lo: "a \<noteq> 0 \<or> 32 \<le> b" using assms(1) r c by linarith
  have hi: "a \<noteq> 13 \<or> b < 32" using assms(3) r b c unfolding valid_rune_def by linarith
  have enc: "EncodeRune r = [char_of (224 + a), char_of (128 + b), char_of (128 + c)]"
    using assms by (auto simp: EncodeRune_def valid_rune_def a_def b_def c_def)
  have "decode_lead (224 + a) ((128 + b) # (128 + c) # zs) = Some (r, 3)" for zs
    using a b c lo hi r by (auto simp: decode_lead_def decode3_def cont_def)
  then show ?thesis using a b c by (simp add: enc DecodeRune_def)
qed

lemma Decode_Encode4:
  assumes "65536 \<le> r" and "r \<le> 1114111"
  shows "DecodeRune (EncodeRune r @ t) = (r, 4)"
proof -
  define a b c d where "a = r div 262144" and "b = r div 4096 mod 64" and "c = r div 64 mod 64"
    and "d = r mod 64"
  have a: "a < 5" and b: "b < 64" and c: "c < 64" and d: "d < 64"
    using assms by (auto simp: a_def b_def c_def d_def)
  have r: "r = a * 262144 + b * 4096 + c * 64 + d"
    using sextets4 [of r] by (simp add: a_def b_def c_def d_def)
  have lo: "a \<noteq> 0 \<or> 16 \<le> b" using assms(1) r c d by linarith
  have hi: "a \<noteq> 4 \<or> b < 16" using assms(2) r c d by linarith
  have enc: "EncodeRune r = [char_of (240 + a), char_of (128 + b), char_of (128 + c), char_of (128 + d)]"
    using assms by (simp add: EncodeRune_def a_def b_def c_def d_def)
  have "decode_lead (240 + a) ((128 + b) # (128 + c) # (128 + d) # zs) = Some (r, 4)" for zs
    using a b c d lo hi r by (auto simp: decode_lead_def decode4_def cont_def)
  then show ?thesis using a b c d by (simp add: enc DecodeRune_def)
qed

lemma Decode_Encode [runes]:
  assumes "valid_rune r"
  shows "DecodeRune (EncodeRune r @ t) = (r, length (EncodeRune r))"
proof -
  consider "r < 128" | "128 \<le> r" "r < 2048" | "2048 \<le> r" "r < 65536" | "65536 \<le> r" by linarith
  then show ?thesis
  proof cases
    case 1
    then show ?thesis by (simp add: EncodeRune_def DecodeRune_ascii)
  next
    case 2
    then show ?thesis using Decode_Encode2 by (simp add: EncodeRune_def)
  next
    case 3
    then show ?thesis using Decode_Encode3 assms by (auto simp: EncodeRune_def valid_rune_def)
  next
    case 4
    then show ?thesis using Decode_Encode4 assms by (auto simp: EncodeRune_def valid_rune_def)
  qed
qed

text \<open>The runes of a string, as \<^verbatim>\<open>for _, r := range s\<close> visits them.\<close>

function Runes :: "string \<Rightarrow> nat list" where
  "Runes s = (if s = [] then [] else fst (DecodeRune s) # Runes (drop (snd (DecodeRune s)) s))"
  by pat_completeness auto
termination
  by (relation "measure length") (use DecodeRune_width in \<open>auto simp: Suc_le_eq\<close>)

declare Runes.simps [simp del]

lemma Runes_Nil [runes, simp]: "Runes [] = []"
  by (simp add: Runes.simps)

lemma Runes_ascii_Cons [runes, simp]: "byte x < 128 \<Longrightarrow> Runes (x # t) = byte x # Runes t"
  by (subst Runes.simps) (simp add: DecodeRune_ascii)

lemma Runes_ascii: "\<forall>x\<in>set s. byte x < 128 \<Longrightarrow> Runes s = map of_char s"
  by (induction s) auto

lemma Runes_Encode: "valid_rune r \<Longrightarrow> Runes (EncodeRune r @ t) = r # Runes t"
  using EncodeRune_length [of r] by (subst Runes.simps) (auto simp: Decode_Encode)

text \<open>
  \<open>DecodeLastRune\<close> is \<^verbatim>\<open>utf8.DecodeLastRuneInString\<close>: it steps back over at most
  three continuation bytes and accepts the rune found there only if it reaches the end.
\<close>

definition RuneStart :: "char \<Rightarrow> bool" where
  "RuneStart c \<longleftrightarrow> \<not> (128 \<le> byte c \<and> byte c < 192)"

definition back_start :: "string \<Rightarrow> nat" where
  "back_start s = (let n = length s; lim = n - 4 in
     case List.find (\<lambda>k. RuneStart (s ! k)) (rev [lim ..< n - 1]) of
       Some k \<Rightarrow> k | None \<Rightarrow> lim - 1)"

definition DecodeLastRune :: "string \<Rightarrow> nat \<times> nat" where
  "DecodeLastRune s =
     (if s = [] then (RuneError, 0)
      else if byte (last s) < 128 then (byte (last s), 1)
      else let st = back_start s; rw = DecodeRune (drop st s)
           in if st + snd rw \<noteq> length s then (RuneError, 1) else rw)"

subsection \<open>unicode\<close>

record unicode_tables =
  uLetter :: "nat \<Rightarrow> bool"
  uDigit :: "nat \<Rightarrow> bool"
  uUpper :: "nat \<Rightarrow> bool"
  uLower :: "nat \<Rightarrow> bool"
  uPunct :: "nat \<Rightarrow> bool"
  uSymbol :: "nat \<Rightarrow> bool"
  uToLower :: "nat \<Rightarrow> nat"

text \<open>Tables that give every code point outside ASCII no class at all.\<close>

definition ascii_only :: unicode_tables where
  "ascii_only = \<lparr>uLetter = \<lambda>_. False, uDigit = \<lambda>_. False, uUpper = \<lambda>_. False,
     uLower = \<lambda>_. False, uPunct = \<lambda>_. False, uSymbol = \<lambda>_. False, uToLower = \<lambda>r. r\<rparr>"

definition ascii_upper :: "nat \<Rightarrow> bool" where "ascii_upper r \<longleftrightarrow> 65 \<le> r \<and> r \<le> 90"
definition ascii_lower :: "nat \<Rightarrow> bool" where "ascii_lower r \<longleftrightarrow> 97 \<le> r \<and> r \<le> 122"
definition ascii_digit :: "nat \<Rightarrow> bool" where "ascii_digit r \<longleftrightarrow> 48 \<le> r \<and> r \<le> 57"

definition ascii_symbol :: "nat \<Rightarrow> bool" where
  "ascii_symbol r \<longleftrightarrow> r \<in> {36, 43, 60, 61, 62, 94, 96, 124, 126}"

definition ascii_punct :: "nat \<Rightarrow> bool" where
  "ascii_punct r \<longleftrightarrow> 33 \<le> r \<and> r \<le> 126 \<and> \<not> ascii_upper r \<and> \<not> ascii_lower r \<and> \<not> ascii_digit r
     \<and> \<not> ascii_symbol r"

definition IsLetter :: "unicode_tables \<Rightarrow> nat \<Rightarrow> bool" where
  "IsLetter ut r \<longleftrightarrow> (if r < 128 then ascii_upper r \<or> ascii_lower r else uLetter ut r)"

definition IsDigit :: "unicode_tables \<Rightarrow> nat \<Rightarrow> bool" where
  "IsDigit ut r \<longleftrightarrow> (if r < 128 then ascii_digit r else uDigit ut r)"

definition IsUpper :: "unicode_tables \<Rightarrow> nat \<Rightarrow> bool" where
  "IsUpper ut r \<longleftrightarrow> (if r < 128 then ascii_upper r else uUpper ut r)"

definition IsLower :: "unicode_tables \<Rightarrow> nat \<Rightarrow> bool" where
  "IsLower ut r \<longleftrightarrow> (if r < 128 then ascii_lower r else uLower ut r)"

definition IsPunct :: "unicode_tables \<Rightarrow> nat \<Rightarrow> bool" where
  "IsPunct ut r \<longleftrightarrow> (if r < 128 then ascii_punct r else uPunct ut r)"

definition IsSymbol :: "unicode_tables \<Rightarrow> nat \<Rightarrow> bool" where
  "IsSymbol ut r \<longleftrightarrow> (if r < 128 then ascii_symbol r else uSymbol ut r)"

definition ToLowerRune :: "unicode_tables \<Rightarrow> nat \<Rightarrow> nat" where
  "ToLowerRune ut r = (if r < 128 then (if ascii_upper r then r + 32 else r) else uToLower ut r)"

definition IsSpace :: "nat \<Rightarrow> bool" where
  "IsSpace r \<longleftrightarrow> r \<in> {9, 10, 11, 12, 13, 32, 133, 160, 5760, 8232, 8233, 8239, 8287, 12288}
     \<or> (8192 \<le> r \<and> r \<le> 8202)"

lemmas unicode_defs = IsLetter_def IsDigit_def IsUpper_def IsLower_def IsPunct_def IsSymbol_def
  ascii_upper_def ascii_lower_def ascii_digit_def ascii_punct_def ascii_symbol_def

lemma IsDigit_byte: "byte c < 128 \<Longrightarrow> IsDigit ut (byte c) \<longleftrightarrow> isASCIIDigit c"
  by (simp add: IsDigit_def ascii_digit_def isASCIIDigit_byte)

lemma IsLetter_byte: "byte c < 128 \<Longrightarrow> IsLetter ut (byte c) \<longleftrightarrow> isASCIILetter c"
  by (auto simp: IsLetter_def ascii_upper_def ascii_lower_def isASCIILetter_byte)

text \<open>
  \<^verbatim>\<open>strings.ToLower\<close> lowers an ASCII string byte by byte and maps the runes of any
  other string, writing a replacement character for a byte that is no rune.
\<close>

definition hasNonASCII :: "string \<Rightarrow> bool" where
  "hasNonASCII s \<longleftrightarrow> list_ex (\<lambda>c. RuneSelf \<le> byte c) s"

definition ToLower :: "unicode_tables \<Rightarrow> string \<Rightarrow> string" where
  "ToLower ut s = (if \<not> hasNonASCII s then map lowerASCIIByte s
     else concat (map (\<lambda>r. EncodeRune (ToLowerRune ut r)) (Runes s)))"

function TrimLeftSpace :: "string \<Rightarrow> string" where
  "TrimLeftSpace s = (if s \<noteq> [] \<and> IsSpace (fst (DecodeRune s))
     then TrimLeftSpace (drop (snd (DecodeRune s)) s) else s)"
  by pat_completeness auto
termination
  by (relation "measure length") (use DecodeRune_width in \<open>auto simp: Suc_le_eq\<close>)

lemma back_start_less [runes]: "s \<noteq> [] \<Longrightarrow> back_start s < length s"
  by (cases s) (auto simp: back_start_def Let_def find_Some_iff rev_nth split: option.splits)

lemma DecodeLastRune_width [runes]:
  assumes "s \<noteq> []"
  shows "1 \<le> snd (DecodeLastRune s) \<and> snd (DecodeLastRune s) \<le> length s"
  using assms back_start_less [OF assms] DecodeRune_width [of "drop (back_start s) s"]
  by (auto simp: DecodeLastRune_def Let_def Suc_le_eq)

function TrimRightSpace :: "string \<Rightarrow> string" where
  "TrimRightSpace s = (if s \<noteq> [] \<and> IsSpace (fst (DecodeLastRune s))
     then TrimRightSpace (take (length s - snd (DecodeLastRune s)) s) else s)"
  by pat_completeness auto
termination
  by (relation "measure length") (use DecodeLastRune_width in \<open>auto simp: Suc_le_eq\<close>)

declare TrimLeftSpace.simps [simp del] TrimRightSpace.simps [simp del]

definition TrimSpace :: "string \<Rightarrow> string" where
  "TrimSpace s = TrimRightSpace (TrimLeftSpace s)"

text \<open>\<^verbatim>\<open>utf8.Valid\<close>: no position decodes to an error of width one.\<close>

function ValidUTF8 :: "string \<Rightarrow> bool" where
  "ValidUTF8 s = (if s = [] then True
     else DecodeRune s \<noteq> (RuneError, 1) \<and> ValidUTF8 (drop (snd (DecodeRune s)) s))"
  by pat_completeness auto
termination
  by (relation "measure length") (use DecodeRune_width in \<open>auto simp: Suc_le_eq\<close>)

declare ValidUTF8.simps [simp del]

end
