(* ===== verification/CardNumbers.thy ===== *)
theory CardNumbers
  imports GoStrings "HOL-Library.Word"
begin

text \<open>
  Payment card numbers: the issuer table of \<^verbatim>\<open>bin.go\<close> and the card detector
  \<^verbatim>\<open>FindLuhnSequences\<close> of \<^verbatim>\<open>scanner.go\<close>, with its helpers. The
  scan keeps the end of the current run of connected digits between the starts it tries;
  the lemmas show that this equals trying every window of 13 to 19 connected digits
  (\<open>card_windows\<close>), that merging keeps exactly the bytes of those windows, and that
  the result fulfils the contract \<open>range_detector\<close>. The issuer bit masks are 32-bit
  words and the digit mask a 64-bit word, as in the code.
\<close>

unbundle bit_operations_syntax

named_theorems cards "card detection"

subsection \<open>Issuer prefixes (bin.go)\<close>

record binRange =
  bin_lo :: "32 word"
  bin_hi :: "32 word"
  bin_digits :: nat
  bin_lengths :: "32 word"

definition lens :: "nat list \<Rightarrow> 32 word" where
  "lens ns = foldl (\<lambda>m n. m OR push_bit n 1) 0 ns"

abbreviation bin :: "32 word \<Rightarrow> 32 word \<Rightarrow> nat \<Rightarrow> nat list \<Rightarrow> binRange" where
  "bin l h d ns \<equiv> \<lparr>bin_lo = l, bin_hi = h, bin_digits = d, bin_lengths = lens ns\<rparr>"

definition cardBINs :: "binRange list" where
  "cardBINs =
    [bin 4 4 1 [13, 16, 19],
     bin 51 55 2 [16],
     bin 2221 2720 4 [16],
     bin 34 34 2 [15],
     bin 37 37 2 [15],
     bin 6011 6011 4 [16, 19],
     bin 622126 622925 6 [16, 19],
     bin 644 649 3 [16, 19],
     bin 65 65 2 [16, 19],
     bin 3528 3589 4 [16, 17, 18, 19],
     bin 300 305 3 [14, 15, 16, 17, 18, 19],
     bin 36 36 2 [14, 15, 16, 17, 18, 19],
     bin 38 39 2 [14, 15, 16, 17, 18, 19],
     bin 62 62 2 [16, 17, 18, 19]]"

definition digitAt :: "string \<Rightarrow> nat \<Rightarrow> nat" where
  "digitAt line idx = byteSub (line ! idx) CHR ''0''"

definition binPrefix :: "string \<Rightarrow> nat list \<Rightarrow> 32 word" where
  "binPrefix line indices = foldl (\<lambda>p idx. p * 10 + word_of_nat (digitAt line idx)) 0 indices"

definition matchesCardBIN :: "string \<Rightarrow> nat list \<Rightarrow> bool" where
  "matchesCardBIN line indices = (let n = length indices in
     list_ex (\<lambda>r. \<not> (bin_lengths r AND push_bit n 1 = 0 \<or> bin_digits r > n) \<and>
       (let p = binPrefix line (take (bin_digits r) indices) in bin_lo r \<le> p \<and> p \<le> bin_hi r)) cardBINs)"

subsection \<open>Checksum and digit counting\<close>

definition countStep :: "string \<Rightarrow> nat \<times> 64 word \<Rightarrow> nat \<Rightarrow> nat \<times> 64 word" where
  "countStep line st idx = (let d = digitAt line idx; (seen, mask) = st in
     if d \<le> 9 then
       (if mask AND push_bit d 1 = 0 then (seen + 1, mask OR push_bit d 1) else st)
     else st)"

definition countDistinctDigits :: "string \<Rightarrow> nat list \<Rightarrow> nat" where
  "countDistinctDigits line indices = fst (foldl (countStep line) (0, 0) indices)"

definition luhnDigit :: "bool \<Rightarrow> nat \<Rightarrow> nat" where
  "luhnDigit alternate d = (if alternate then (let e = d * 2 in if e > 9 then e - 9 else e) else d)"

fun luhnSum :: "bool \<Rightarrow> nat list \<Rightarrow> nat" where
  "luhnSum alternate [] = 0"
| "luhnSum alternate (d # ds) = luhnDigit alternate d + luhnSum (\<not> alternate) ds"

definition validLuhnFromIndices :: "string \<Rightarrow> nat list \<Rightarrow> bool" where
  "validLuhnFromIndices line indices \<longleftrightarrow>
     luhnSum False (rev (map (digitAt line) indices)) mod 10 = 0"

subsection \<open>Runs, boundaries and windows\<close>

definition digitsConnected :: "string \<Rightarrow> nat \<Rightarrow> nat \<Rightarrow> bool" where
  "digitsConnected line prevIdx currIdx = (let diff = int currIdx - int prevIdx in
     if diff > 2 then False
     else if diff = 2 then line ! (prevIdx + 1) = CHR '' '' \<or> line ! (prevIdx + 1) = CHR ''-''
     else True)"

fun areDigitsConnected :: "string \<Rightarrow> nat list \<Rightarrow> bool" where
  "areDigitsConnected line (a # b # ix) =
     (if \<not> digitsConnected line a b then False else areDigitsConnected line (b # ix))"
| "areDigitsConnected line _ = True"

definition prevRune :: "string \<Rightarrow> nat \<Rightarrow> nat" where
  "prevRune line idx = (if byte (line ! (idx - 1)) < RuneSelf then byte (line ! (idx - 1))
     else fst (DecodeLastRune (take idx line)))"

definition nextRune :: "string \<Rightarrow> nat \<Rightarrow> nat" where
  "nextRune line idx = (if byte (line ! idx) < RuneSelf then byte (line ! idx)
     else fst (DecodeRune (drop idx line)))"

definition validStart :: "unicode_tables \<Rightarrow> string \<Rightarrow> nat \<Rightarrow> bool" where
  "validStart ut line startIdx = (if startIdx > 0 then
     (let r = prevRune line startIdx in
      if IsLetter ut r \<or> IsDigit ut r then False
      else if (r = byte CHR ''-'' \<or> r = byte CHR ''.'') \<and> startIdx > 1 then
        (let r2 = prevRune line (startIdx - 1) in
         \<not> IsLetter ut r2 \<and> \<not> (r = byte CHR ''.'' \<and> IsDigit ut r2))
      else True)
     else True)"

definition validEnd :: "unicode_tables \<Rightarrow> string \<Rightarrow> nat \<Rightarrow> bool" where
  "validEnd ut line endIdx = (if endIdx < length line then
     (let r = nextRune line endIdx in
      if IsLetter ut r \<or> IsDigit ut r then False
      else if (r = byte CHR ''-'' \<or> r = byte CHR ''.'') \<and> endIdx + 1 < length line then
        (let r2 = nextRune line (endIdx + 1) in
         \<not> IsLetter ut r2 \<and> \<not> (r = byte CHR ''.'' \<and> IsDigit ut r2))
      else True)
     else True)"

definition isValidBoundary :: "unicode_tables \<Rightarrow> string \<Rightarrow> nat \<Rightarrow> nat \<Rightarrow> bool" where
  "isValidBoundary ut line startIdx endIdx \<longleftrightarrow>
     validStart ut line startIdx \<and> validEnd ut line endIdx"

text \<open>The tests the body of the inner loop makes of one window of digit offsets.\<close>

definition isCardWindow :: "unicode_tables \<Rightarrow> string \<Rightarrow> nat list \<Rightarrow> bool" where
  "isCardWindow ut line ds \<longleftrightarrow> isValidBoundary ut line (hd ds) (last ds + 1)
     \<and> \<not> countDistinctDigits line ds < 2 \<and> matchesCardBIN line ds \<and> validLuhnFromIndices line ds"

definition window :: "nat list \<Rightarrow> nat \<Rightarrow> nat \<Rightarrow> nat list" where
  "window ix i L = take L (drop i ix)"

function advanceRun :: "string \<Rightarrow> nat list \<Rightarrow> nat \<Rightarrow> nat" where
  "advanceRun line ix runEnd =
     (if runEnd < length ix \<and> digitsConnected line (ix ! (runEnd - 1)) (ix ! runEnd)
      then advanceRun line ix (runEnd + 1) else runEnd)"
  by pat_completeness auto
termination by (relation "measure (\<lambda>(line, ix, e). length ix - e)") auto

declare advanceRun.simps [simp del]

definition windowRanges ::
  "unicode_tables \<Rightarrow> string \<Rightarrow> nat list \<Rightarrow> nat \<Rightarrow> nat \<Rightarrow> Range list" where
  "windowRanges ut line ix i maxLen =
     map (\<lambda>L. \<lparr>Start = ix ! i, End = ix ! (i + L - 1) + 1\<rparr>)
       (filter (\<lambda>L. isCardWindow ut line (window ix i L)) [13 ..< Suc maxLen])"

definition maxWindow :: "nat list \<Rightarrow> nat \<Rightarrow> nat \<Rightarrow> nat" where
  "maxWindow ix i runEnd = (let m = 19; m = (if i + m > length ix then length ix - i else m)
     in if runEnd - i < m then runEnd - i else m)"

fun luhnScan :: "unicode_tables \<Rightarrow> string \<Rightarrow> nat list \<Rightarrow> nat list \<Rightarrow> nat \<Rightarrow> Range list" where
  "luhnScan ut line ix [] runEnd = []"
| "luhnScan ut line ix (i # is) runEnd =
     (let e = advanceRun line ix (if runEnd < i + 1 then i + 1 else runEnd)
      in windowRanges ut line ix i (maxWindow ix i e) @ luhnScan ut line ix is e)"

fun mergeLoop :: "Range \<Rightarrow> Range list \<Rightarrow> Range list" where
  "mergeLoop current [] = [current]"
| "mergeLoop current (next # rs) =
     (if Start next \<le> End current
      then mergeLoop (if End next > End current then current\<lparr>End := End next\<rparr> else current) rs
      else current # mergeLoop next rs)"

definition mergeRanges :: "Range list \<Rightarrow> Range list" where
  "mergeRanges ranges = (case ranges of [] \<Rightarrow> [] | r # rs \<Rightarrow> mergeLoop r rs)"

definition digitIndices :: "string \<Rightarrow> nat list" where
  "digitIndices line = filter (\<lambda>i. isASCIIDigit (line ! i)) [0 ..< length line]"

definition FindLuhnSequences :: "unicode_tables \<Rightarrow> string \<Rightarrow> Range list" where
  "FindLuhnSequences ut line =
     (if \<not> ContainsAny line ''0123456789'' then []
      else if length line < 13 then []
      else let ix = digitIndices line in
        if length ix < 13 then []
        else mergeRanges (luhnScan ut line ix [0 ..< length ix - 12] 0))"

subsection \<open>The optimised scan tries every connected window\<close>

text \<open>The plain enumeration: every start, every length, connectivity tested per window.\<close>

definition card_windows :: "unicode_tables \<Rightarrow> string \<Rightarrow> (nat \<times> nat) list" where
  "card_windows ut line = (let ix = digitIndices line in
     concat (map (\<lambda>i. map (Pair i)
       (filter (\<lambda>L. i + L \<le> length ix \<and> areDigitsConnected line (window ix i L)
          \<and> isCardWindow ut line (window ix i L)) [13 ..< 20])) [0 ..< length ix]))"

definition window_range :: "string \<Rightarrow> nat \<times> nat \<Rightarrow> Range" where
  "window_range line w =
     \<lparr>Start = digitIndices line ! fst w, End = digitIndices line ! (fst w + snd w - 1) + 1\<rparr>"

definition conn :: "string \<Rightarrow> nat list \<Rightarrow> nat \<Rightarrow> bool" where
  "conn line ix k \<longleftrightarrow> digitsConnected line (ix ! (k - 1)) (ix ! k)"

lemma advanceRun_ge [cards]: "e \<le> advanceRun line ix e"
  by (induction line ix e rule: advanceRun.induct) (subst advanceRun.simps, auto)

lemma advanceRun_le [cards]: "e \<le> length ix \<Longrightarrow> advanceRun line ix e \<le> length ix"
  by (induction line ix e rule: advanceRun.induct) (subst advanceRun.simps, auto)

lemma advanceRun_conn [cards]:
  "e \<le> k \<Longrightarrow> k < advanceRun line ix e \<Longrightarrow> conn line ix k"
proof (induction line ix e rule: advanceRun.induct)
  case (1 line ix e)
  show ?case
  proof (cases "e < length ix \<and> digitsConnected line (ix ! (e - 1)) (ix ! e)")
    case True
    with 1 show ?thesis
      by (cases "e = k") (auto simp: conn_def advanceRun.simps [of line ix e])
  next
    case False
    with 1(2,3) show ?thesis by (auto simp: advanceRun.simps [of line ix e] split: if_splits)
  qed
qed

lemma advanceRun_stop [cards]:
  "advanceRun line ix e < length ix \<Longrightarrow> \<not> conn line ix (advanceRun line ix e)"
proof (induction line ix e rule: advanceRun.induct)
  case (1 line ix e)
  then show ?case
    by (cases "e < length ix \<and> digitsConnected line (ix ! (e - 1)) (ix ! e)")
      (auto simp: conn_def advanceRun.simps [of line ix e])
qed

lemma areDigitsConnected_nth:
  "areDigitsConnected line ds \<longleftrightarrow> (\<forall>k. 0 < k \<and> k < length ds \<longrightarrow> conn line ds k)"
proof (induction line ds rule: areDigitsConnected.induct)
  case (1 line a b ix)
  have "(\<forall>k. 0 < k \<and> k < length (a # b # ix) \<longrightarrow> conn line (a # b # ix) k) \<longleftrightarrow>
        digitsConnected line a b \<and> (\<forall>k. 0 < k \<and> k < length (b # ix) \<longrightarrow> conn line (b # ix) k)"
    (is "?l \<longleftrightarrow> _ \<and> ?r")
  proof (intro iffI conjI)
    assume l: ?l
    show "digitsConnected line a b" using l [rule_format, of 1] by (simp add: conn_def)
    show ?r
    proof (intro allI impI)
      fix k assume "0 < k \<and> k < length (b # ix)"
      then show "conn line (b # ix) k" using l [rule_format, of "Suc k"] by (simp add: conn_def)
    qed
  next
    assume r: "digitsConnected line a b \<and> ?r"
    show ?l
    proof (intro allI impI)
      fix k assume "0 < k \<and> k < length (a # b # ix)"
      then show "conn line (a # b # ix) k"
        using r by (cases k rule: nat.exhaust; cases "k - 1") (auto simp: conn_def)
    qed
  qed
  with 1 show ?case by auto
qed auto

lemma window_connected [cards]:
  assumes "i + L \<le> length ix" and "0 < L"
  shows "areDigitsConnected line (window ix i L) \<longleftrightarrow> (\<forall>k. i < k \<and> k < i + L \<longrightarrow> conn line ix k)"
proof -
  have len: "length (window ix i L) = L" using assms by (simp add: window_def)
  have nth: "window ix i L ! j = ix ! (i + j)" if "j < L" for j
    using that assms by (simp add: window_def)
  have "conn line (window ix i L) k \<longleftrightarrow> conn line ix (i + k)" if "0 < k" "k < L" for k
    using that nth [of k] nth [of "k - 1"] by (simp add: conn_def)
  then have "areDigitsConnected line (window ix i L) \<longleftrightarrow>
      (\<forall>k. 0 < k \<and> k < L \<longrightarrow> conn line ix (i + k))"
    by (auto simp: areDigitsConnected_nth len)
  also have "\<dots> \<longleftrightarrow> (\<forall>k. i < k \<and> k < i + L \<longrightarrow> conn line ix k)"
    by (metis add_less_cancel_left less_imp_add_positive less_add_same_cancel1)
  finally show ?thesis .
qed

text \<open>The run end reached from a start \<open>i\<close>: everything before it is connected, and it is maximal.\<close>

definition run_end :: "string \<Rightarrow> nat list \<Rightarrow> nat \<Rightarrow> nat \<Rightarrow> bool" where
  "run_end line ix i e \<longleftrightarrow> i < e \<and> e \<le> length ix \<and> (\<forall>k. i < k \<and> k < e \<longrightarrow> conn line ix k)"

lemma run_end_advance [cards]:
  assumes "i < length ix" and "e \<le> i \<or> run_end line ix i e"
  shows "run_end line ix i (advanceRun line ix (if e < i + 1 then i + 1 else e))"
    (is "run_end _ _ _ (advanceRun _ _ ?e)")
proof -
  have "run_end line ix i ?e" using assms by (auto simp: run_end_def)
  then show ?thesis
    using advanceRun_ge [of ?e line ix] advanceRun_le [of ?e ix line]
      advanceRun_conn [of ?e _ line ix]
    by (auto simp: run_end_def) (metis not_less)+
qed

lemma run_end_window [cards]:
  assumes "run_end line ix i e" and "e = length ix \<or> \<not> conn line ix e"
    and "0 < L" and "i + L \<le> length ix"
  shows "areDigitsConnected line (window ix i L) \<longleftrightarrow> i + L \<le> e"
proof -
  have "i + L \<le> e" if "\<forall>k. i < k \<and> k < i + L \<longrightarrow> conn line ix k"
    using that [rule_format, of e] assms by (auto simp: run_end_def not_le)
  then show ?thesis using assms by (auto simp: window_connected run_end_def)
qed

text \<open>The windows of one start, by the plain enumeration.\<close>

definition start_windows :: "unicode_tables \<Rightarrow> string \<Rightarrow> nat list \<Rightarrow> nat \<Rightarrow> Range list" where
  "start_windows ut line ix i = map (\<lambda>L. \<lparr>Start = ix ! i, End = ix ! (i + L - 1) + 1\<rparr>)
     (filter (\<lambda>L. i + L \<le> length ix \<and> areDigitsConnected line (window ix i L)
        \<and> isCardWindow ut line (window ix i L)) [13 ..< 20])"

lemma filter_upt_cap:
  "m \<le> n \<Longrightarrow> filter (\<lambda>x. x < m \<and> P x) [a ..< n] = filter P [a ..< m]"
proof (induction n)
  case (Suc n)
  show ?case
  proof (cases "m = Suc n")
    case True
    then show ?thesis by (auto simp del: upt_Suc intro!: filter_cong)
  next
    case False
    with Suc show ?thesis by simp
  qed
qed simp

lemma windowRanges_start_windows [cards]:
  assumes "run_end line ix i e" and "e = length ix \<or> \<not> conn line ix e"
  shows "windowRanges ut line ix i (maxWindow ix i e) = start_windows ut line ix i"
proof -
  have m: "maxWindow ix i e = min 19 (e - i)"
    using assms(1) by (auto simp: maxWindow_def run_end_def min_def Let_def)
  have "filter (\<lambda>L. i + L \<le> length ix \<and> areDigitsConnected line (window ix i L)
          \<and> isCardWindow ut line (window ix i L)) [13 ..< 20] =
        filter (\<lambda>L. L < Suc (min 19 (e - i)) \<and> isCardWindow ut line (window ix i L)) [13 ..< 20]"
    using run_end_window [OF assms] assms(1)
    by (intro filter_cong) (auto simp: run_end_def)
  also have "\<dots> = filter (\<lambda>L. isCardWindow ut line (window ix i L)) [13 ..< Suc (min 19 (e - i))]"
    by (rule filter_upt_cap) simp
  finally show ?thesis by (simp add: windowRanges_def start_windows_def m)
qed

lemma luhnScan_reference [cards]:
  "i + n \<le> length ix \<Longrightarrow> e \<le> i \<or> run_end line ix i e \<Longrightarrow>
     luhnScan ut line ix [i ..< i + n] e = concat (map (start_windows ut line ix) [i ..< i + n])"
proof (induction n arbitrary: i e)
  case (Suc n)
  let ?e = "advanceRun line ix (if e < i + 1 then i + 1 else e)"
  have run: "run_end line ix i ?e" using Suc.prems by (intro run_end_advance) auto
  then have stop: "?e = length ix \<or> \<not> conn line ix ?e"
    using advanceRun_stop [of line ix] by (auto simp: run_end_def le_less)
  have "?e \<le> i + 1 \<or> run_end line ix (Suc i) ?e" using run by (auto simp: run_end_def)
  then have "luhnScan ut line ix [Suc i ..< Suc i + n] ?e =
      concat (map (start_windows ut line ix) [Suc i ..< Suc i + n])"
    using Suc.prems by (intro Suc.IH) auto
  moreover have "[i ..< i + Suc n] = i # [Suc i ..< Suc i + n]" by (simp add: upt_conv_Cons)
  ultimately show ?case using windowRanges_start_windows [OF run stop] by (simp add: Let_def)
qed simp

lemma digitIndices_sorted [cards]: "sorted_wrt (<) (digitIndices line)"
  by (simp add: digitIndices_def sorted_wrt_filter)

lemma digitIndices_nth [cards]:
  assumes "k < length (digitIndices line)"
  shows "digitIndices line ! k < length line" and "isASCIIDigit (line ! (digitIndices line ! k))"
  using nth_mem [OF assms] by (auto simp: digitIndices_def)

lemma digitIndices_less [cards]:
  "i < j \<Longrightarrow> j < length (digitIndices line) \<Longrightarrow> digitIndices line ! i < digitIndices line ! j"
  using digitIndices_sorted by (auto simp: sorted_wrt_iff_nth_less)

lemma digitIndices_length [cards]: "length (digitIndices line) \<le> length line"
  using length_filter_le [of "\<lambda>i. isASCIIDigit (line ! i)" "[0..<length line]"]
  by (simp add: digitIndices_def)

lemma card_windows_start [cards]:
  "map (window_range line) (card_windows ut line) =
     concat (map (start_windows ut line (digitIndices line)) [0 ..< length (digitIndices line)])"
  by (simp add: card_windows_def Let_def map_concat comp_def start_windows_def [abs_def]
      window_range_def del: upt_rec_numeral)

lemma short_start_windows [cards]: "length ix < i + 13 \<Longrightarrow> start_windows ut line ix i = []"
  by (auto simp: start_windows_def filter_empty_conv simp del: upt_rec_numeral)

lemma luhnScan_card_windows [cards]:
  "luhnScan ut line (digitIndices line) [0 ..< length (digitIndices line) - 12] 0 =
     map (window_range line) (card_windows ut line)"
proof -
  let ?ix = "digitIndices line"
  let ?n = "length ?ix"
  have "concat (map (start_windows ut line ?ix) [?n - 12 ..< ?n]) = []"
    using short_start_windows [of ?ix] by (auto simp: concat_eq_Nil_conv)
  moreover have "[0 ..< ?n] = [0 ..< ?n - 12] @ [?n - 12 ..< ?n]"
    using upt_add_eq_append [of 0 "?n - 12" "?n - (?n - 12)"] by simp
  ultimately have "map (window_range line) (card_windows ut line) =
      concat (map (start_windows ut line ?ix) [0 ..< ?n - 12])"
    by (simp add: card_windows_start)
  then show ?thesis using luhnScan_reference [of 0 "?n - 12" ?ix 0 line ut] by simp
qed

lemma no_digits_no_windows [cards]:
  "length (digitIndices line) < 13 \<Longrightarrow> card_windows ut line = []"
  by (auto simp: card_windows_def Let_def filter_empty_conv simp del: upt_rec_numeral)

lemma ContainsAny_digits: "ContainsAny line ''0123456789'' \<longleftrightarrow> (\<exists>c\<in>set line. isASCIIDigit c)"
proof -
  have "c \<in> set ''0123456789'' \<longleftrightarrow> isASCIIDigit c" for c
  proof -
    have "inj (byte :: char \<Rightarrow> nat)" by (rule injI) simp
    then have "c \<in> set ''0123456789'' \<longleftrightarrow> byte c \<in> byte ` set ''0123456789''"
      by (simp only: inj_image_mem_iff)
    also have "byte ` set ''0123456789'' = set [48 ..< 58 :: nat]" by simp
    finally show ?thesis by (simp add: isASCIIDigit_byte del: upt_rec_numeral) linarith
  qed
  then show ?thesis by (simp only: ContainsAny_iff)
qed

subsection \<open>Merging\<close>

abbreviation by_start :: "Range list \<Rightarrow> bool" where
  "by_start \<equiv> sorted_wrt (\<lambda>r s. Start r \<le> Start s)"

lemma mergeLoop_bytes [range_law]:
  "by_start (c # rs) \<Longrightarrow> \<forall>r\<in>set (c # rs). Start r \<le> End r \<Longrightarrow>
     ranges_bytes (mergeLoop c rs) = ranges_bytes (c # rs)"
proof (induction c rs rule: mergeLoop.induct)
  case (2 c r rs)
  then show ?case by (auto simp: range_bytes_def)
qed simp

lemma mergeLoop_ok [range_law]:
  "by_start (c # rs) \<Longrightarrow> \<forall>r\<in>set (c # rs). range_in n r \<Longrightarrow>
     ranges_ok n (mergeLoop c rs) \<and> sorted_wrt (\<lambda>r s. End r < Start s) (mergeLoop c rs)
     \<and> (\<forall>r\<in>set (mergeLoop c rs). Start c \<le> Start r)"
proof (induction c rs rule: mergeLoop.induct)
  case (1 c)
  then show ?case by (simp add: ranges_ok_def ranges_ordered_def)
next
  case (2 c r rs)
  show ?case
  proof (cases "Start r \<le> End c")
    case True
    let ?c = "if End r > End c then c\<lparr>End := End r\<rparr> else c"
    have "by_start (?c # rs)" using 2(3) by simp
    moreover have "\<forall>x\<in>set (?c # rs). range_in n x" using 2(4) by (auto simp: range_in_def)
    ultimately show ?thesis using True 2(1) by auto
  next
    case False
    have "by_start (r # rs)" "\<forall>x\<in>set (r # rs). range_in n x" using 2(3,4) by auto
    note ih = 2(2) [OF False this]
    moreover have "End c < Start x" if "x \<in> set (mergeLoop r rs)" for x
      using ih that False by fastforce
    ultimately show ?thesis using False 2(3,4) by (auto simp: ranges_ok_Cons less_imp_le)
  qed
qed

lemma mergeLoop_ends [range_law]:
  "r \<in> set (mergeLoop c rs) \<Longrightarrow> Start r \<in> Start ` set (c # rs) \<and> End r \<in> End ` set (c # rs)"
  by (induction c rs rule: mergeLoop.induct) (auto split: if_splits)

lemma mergeRanges_ends [range_law]:
  "r \<in> set (mergeRanges rs) \<Longrightarrow> Start r \<in> Start ` set rs \<and> End r \<in> End ` set rs"
  using mergeLoop_ends [of r "hd rs" "tl rs"] by (cases rs) (auto simp: mergeRanges_def)

lemma mergeRanges_law [range_law]:
  assumes "by_start rs" and "\<forall>r\<in>set rs. range_in n r"
  shows "ranges_bytes (mergeRanges rs) = ranges_bytes rs" and "ranges_ok n (mergeRanges rs)"
    and "sorted_wrt (\<lambda>r s. End r < Start s) (mergeRanges rs)"
proof -
  have "ranges_bytes (mergeRanges rs) = ranges_bytes rs \<and> ranges_ok n (mergeRanges rs)
      \<and> sorted_wrt (\<lambda>r s. End r < Start s) (mergeRanges rs)"
  proof (cases rs)
    case (Cons c cs)
    have "\<forall>r\<in>set (c # cs). Start r \<le> End r" using assms(2) Cons by (auto simp: range_in_def)
    then show ?thesis
      using assms Cons mergeLoop_bytes [of c cs] mergeLoop_ok [of c cs n]
      by (simp add: mergeRanges_def)
  qed (simp add: mergeRanges_def)
  then show "ranges_bytes (mergeRanges rs) = ranges_bytes rs" and "ranges_ok n (mergeRanges rs)"
    and "sorted_wrt (\<lambda>r s. End r < Start s) (mergeRanges rs)" by auto
qed

lemma window_range_in [cards]:
  assumes "w \<in> set (card_windows ut line)"
  shows "range_in (length line) (window_range line w)"
proof -
  obtain i L where w: "w = (i, L)" "13 \<le> L" "i + L \<le> length (digitIndices line)"
    using assms by (auto simp: card_windows_def Let_def simp del: upt_rec_numeral)
  then have "digitIndices line ! i < digitIndices line ! (i + L - 1)"
    by (intro digitIndices_less) auto
  moreover have "digitIndices line ! (i + L - 1) < length line"
    using w by (intro digitIndices_nth) auto
  ultimately show ?thesis using w by (simp add: range_in_def window_range_def)
qed

lemma by_start_concat:
  "(\<And>i r. i \<in> set is \<Longrightarrow> r \<in> set (f i) \<Longrightarrow> Start r = g i) \<Longrightarrow> sorted (map g is) \<Longrightarrow>
     by_start (concat (map f is))"
proof (induction "is")
  case (Cons i "is")
  have "by_start (f i)"
    using Cons.prems(1) [of i] by (auto simp: sorted_wrt_iff_nth_less)
  then show ?case using Cons by (fastforce simp: sorted_wrt_append)
qed simp

lemma card_windows_by_start [cards]: "by_start (map (window_range line) (card_windows ut line))"
  unfolding card_windows_start
proof (rule by_start_concat [where g = "\<lambda>i. digitIndices line ! i"])
  show "sorted (map (\<lambda>i. digitIndices line ! i) [0 ..< length (digitIndices line)])"
    using digitIndices_sorted [of line] by (simp add: map_nth strict_sorted_imp_sorted)
qed (auto simp: start_windows_def)

subsection \<open>What the detector reports\<close>

lemma FindLuhnSequences_windows [cards]:
  "FindLuhnSequences ut line = mergeRanges (map (window_range line) (card_windows ut line))"
proof -
  have "digitIndices line = []" if "\<not> ContainsAny line ''0123456789''"
    using that by (auto simp: ContainsAny_digits digitIndices_def filter_empty_conv)
  then show ?thesis
    using digitIndices_length [of line]
    by (auto simp: FindLuhnSequences_def Let_def no_digits_no_windows luhnScan_card_windows
        mergeRanges_def simp del: upt_rec_numeral)
qed

lemma card_windows_in_line [cards]:
  "\<forall>r\<in>set (map (window_range line) (card_windows ut line)). range_in (length line) r"
  using window_range_in by auto

lemmas card_windows_merge = mergeRanges_law [OF card_windows_by_start card_windows_in_line]

interpretation luhn: range_detector "FindLuhnSequences ut" for ut
  by unfold_locales
    (simp add: FindLuhnSequences_windows card_windows_merge)

lemma set_card_windows [cards]:
  "w \<in> set (card_windows ut line) \<longleftrightarrow> (\<exists>i L. w = (i, L) \<and> 13 \<le> L \<and> L \<le> 19
     \<and> i + L \<le> length (digitIndices line)
     \<and> areDigitsConnected line (window (digitIndices line) i L)
     \<and> isCardWindow ut line (window (digitIndices line) i L))"
proof (cases w)
  case (Pair i L)
  have "L < 20 \<longleftrightarrow> L \<le> 19" by auto
  then show ?thesis
    unfolding Pair card_windows_def Let_def by (auto simp add: image_iff simp del: upt_rec_numeral)
qed

text \<open>
  C4: The detector reports exactly the bytes of the card candidates of the line: a byte lies in a
  reported range if and only if it lies between the first and the last digit of some window
  of 13 to 19 connected digits that passes the boundary, distinct-digit, issuer and Luhn
  tests. The run end kept between iterations and the merging lose nothing and add nothing.
\<close>

theorem FindLuhnSequences_bytes:
  "k \<in> ranges_bytes (FindLuhnSequences ut line) \<longleftrightarrow>
     (\<exists>i L. 13 \<le> L \<and> L \<le> 19 \<and> i + L \<le> length (digitIndices line)
        \<and> areDigitsConnected line (window (digitIndices line) i L)
        \<and> isCardWindow ut line (window (digitIndices line) i L)
        \<and> digitIndices line ! i \<le> k \<and> k \<le> digitIndices line ! (i + L - 1))"
proof -
  have "ranges_bytes (FindLuhnSequences ut line) =
      ranges_bytes (map (window_range line) (card_windows ut line))"
    by (simp add: FindLuhnSequences_windows card_windows_merge)
  also have "\<dots> = (\<Union>w\<in>set (card_windows ut line). range_bytes (window_range line w))"
    by (simp add: ranges_bytes_def)
  finally have "k \<in> ranges_bytes (FindLuhnSequences ut line) \<longleftrightarrow>
      (\<exists>w\<in>set (card_windows ut line). k \<in> range_bytes (window_range line w))" by auto
  also have "\<dots> \<longleftrightarrow> (\<exists>i L. (i, L) \<in> set (card_windows ut line)
      \<and> digitIndices line ! i \<le> k \<and> k \<le> digitIndices line ! (i + L - 1))"
    by (simp add: Bex_def range_bytes_def window_range_def less_Suc_eq_le)
  finally show ?thesis by (simp add: set_card_windows)
qed

text \<open>
  The reported card ranges lie inside the line, in line order, and any two of them are
  separated by at least one byte, so that cutting the line at them is well defined.
\<close>

theorem FindLuhnSequences_separated:
  "sorted_wrt (\<lambda>r s. End r < Start s) (FindLuhnSequences ut line)
   \<and> list_all (\<lambda>r. Start r < End r \<and> End r \<le> length line) (FindLuhnSequences ut line)"
  using luhn.find_in_line [of _ ut line]
  by (auto simp: FindLuhnSequences_windows list_all_iff
      card_windows_merge)



subsection \<open>The Luhn sum\<close>

lemma luhnDigit_le [cards]: "d \<le> 9 \<Longrightarrow> luhnDigit b d \<le> 9"
  by (auto simp: luhnDigit_def Let_def)

lemma luhnDigit_inj [cards]:
  "d \<le> 9 \<Longrightarrow> e \<le> 9 \<Longrightarrow> luhnDigit b d = luhnDigit b e \<Longrightarrow> d = e"
  by (auto simp: luhnDigit_def Let_def split: if_splits) presburger+

lemma luhnSum_update [cards]:
  "j < length ds \<Longrightarrow> luhnSum b (ds[j := d]) + luhnDigit (b \<noteq> odd j) (ds ! j) =
     luhnSum b ds + luhnDigit (b \<noteq> odd j) d"
proof (induction ds arbitrary: b j)
  case (Cons a ds)
  show ?case
  proof (cases j)
    case (Suc n)
    then show ?thesis using Cons.IH [of n "\<not> b"] Cons.prems by (cases "odd n"; cases b) auto
  qed simp
qed simp

lemma mod10_cancel: "(x::nat) \<le> 9 \<Longrightarrow> y \<le> 9 \<Longrightarrow> s mod 10 = 0 \<Longrightarrow> t mod 10 = 0 \<Longrightarrow>
  t + x = s + y \<Longrightarrow> x = y"
  by presburger

lemma luhn_single_error:
  assumes "j < length ds" "ds ! j \<le> 9" "d \<le> 9" "d \<noteq> ds ! j" "luhnSum b ds mod 10 = 0"
  shows "luhnSum b (ds[j := d]) mod 10 \<noteq> 0"
proof
  assume z: "luhnSum b (ds[j := d]) mod 10 = 0"
  have "luhnDigit (b \<noteq> odd j) (ds ! j) = luhnDigit (b \<noteq> odd j) d"
    by (rule mod10_cancel [OF luhnDigit_le [OF assms(2)] luhnDigit_le [OF assms(3)] assms(5) z
          luhnSum_update [OF assms(1)]])
  then show False using luhnDigit_inj assms by metis
qed

lemma digitAt_update [cards]:
  assumes "distinct ix" and "k < length ix" and "\<forall>i\<in>set ix. i < length line"
  shows "map (digitAt (line[ix ! k := c])) ix = (map (digitAt line) ix)[k := byteSub c CHR ''0'']"
proof (rule nth_equalityI)
  fix j assume "j < length (map (digitAt (line[ix ! k := c])) ix)"
  moreover from this have "ix ! j = ix ! k \<longleftrightarrow> j = k"
    using assms by (simp add: nth_eq_iff_index_eq)
  ultimately show "map (digitAt (line[ix ! k := c])) ix ! j =
      (map (digitAt line) ix)[k := byteSub c CHR ''0''] ! j"
    using assms by (cases "j = k") (auto simp: digitAt_def)
qed simp

lemma byteSub_digit_inj:
  "isASCIIDigit c \<Longrightarrow> isASCIIDigit d \<Longrightarrow> byteSub c CHR ''0'' = byteSub d CHR ''0'' \<Longrightarrow> c = d"
  by (simp add: byteSub_digit isASCIIDigit_byte)
    (metis diff_diff_cancel diff_le_mono2 le_add_diff_inverse2 of_char_eq_iff)

text \<open>
  C9: The checksum test detects every single-digit error: replacing one digit of a number that
  passes by a different digit gives a number that fails.
\<close>

theorem validLuhn_single_digit_error:
  assumes "validLuhnFromIndices line ix" and "distinct ix"
    and "\<forall>i\<in>set ix. i < length line \<and> isASCIIDigit (line ! i)"
    and "k < length ix" and "isASCIIDigit c" and "c \<noteq> line ! (ix ! k)"
  shows "\<not> validLuhnFromIndices (line[ix ! k := c]) ix"
proof -
  let ?ds = "map (digitAt line) ix"
  let ?d = "byteSub c CHR ''0''"
  let ?j = "length ix - Suc k"
  have dig: "isASCIIDigit (line ! (ix ! k))" using assms by simp
  have rev: "rev (?ds[k := ?d]) = (rev ?ds)[?j := ?d]" using assms(4) by (simp add: rev_update)
  have nth: "rev ?ds ! ?j = digitAt line (ix ! k)" using assms(4) by (simp add: rev_nth)
  have "luhnSum False ((rev ?ds)[?j := ?d]) mod 10 \<noteq> 0"
  proof (rule luhn_single_error)
    show "?d \<noteq> rev ?ds ! ?j"
      using byteSub_digit_inj [OF assms(5) dig] assms(6) nth by (auto simp: digitAt_def)
    show "rev ?ds ! ?j \<le> 9" using nth byteSub_digit_le [OF dig] by (simp add: digitAt_def)
  qed (use assms byteSub_digit_le in \<open>auto simp: validLuhnFromIndices_def\<close>)
  then show ?thesis
    using digitAt_update [OF assms(2,4), of line c] assms(3) rev
    by (simp add: validLuhnFromIndices_def)
qed

theorem validLuhn_single_digit_error_witness:
  "\<not> validLuhnFromIndices ''79927398723'' [0 ..< 11]"
  using validLuhn_single_digit_error [of "''79927398713''" "[0 ..< 11]" 9 "CHR ''2''"]
  by code_simp

subsection \<open>The issuer table in decimal\<close>

definition decimal :: "nat list \<Rightarrow> nat" where
  "decimal ds = foldl (\<lambda>p d. p * 10 + d) 0 ds"

text \<open>First and last prefix, digits of the prefix, and the lengths the issuer uses.\<close>

definition issuers :: "(nat \<times> nat \<times> nat \<times> nat list) list" where
  "issuers =
    [(4, 4, 1, [13, 16, 19]), (51, 55, 2, [16]), (2221, 2720, 4, [16]), (34, 34, 2, [15]),
     (37, 37, 2, [15]), (6011, 6011, 4, [16, 19]), (622126, 622925, 6, [16, 19]),
     (644, 649, 3, [16, 19]), (65, 65, 2, [16, 19]), (3528, 3589, 4, [16 ..< 20]),
     (300, 305, 3, [14 ..< 20]), (36, 36, 2, [14 ..< 20]), (38, 39, 2, [14 ..< 20]),
     (62, 62, 2, [16 ..< 20])]"

definition issuer_accepts :: "nat list \<Rightarrow> nat \<times> nat \<times> nat \<times> nat list \<Rightarrow> bool" where
  "issuer_accepts ds = (\<lambda>(l, h, k, ns). length ds \<in> set ns
     \<and> l \<le> decimal (take k ds) \<and> decimal (take k ds) \<le> h)"

lemma bit_foldl_or: "bit (foldl (\<lambda>m n. m OR push_bit n 1) (w :: 32 word) ns) i \<longleftrightarrow>
   bit w i \<or> (i < 32 \<and> i \<in> set ns)"
  by (induction ns arbitrary: w) (auto simp: bit_simps)

lemma lens_bit [cards]: "lens ns AND 2 ^ n = 0 \<longleftrightarrow> \<not> (n < 32 \<and> n \<in> set ns)"
  unfolding and_exp_eq_0_iff_not_bit lens_def bit_foldl_or by simp

lemma foldl_decimal_bound:
  "\<forall>d\<in>set ds. d \<le> (9::nat) \<Longrightarrow> p < 10 ^ m \<Longrightarrow> foldl (\<lambda>p d. p * 10 + d) p ds < 10 ^ (m + length ds)"
proof (induction ds arbitrary: p m)
  case (Cons d ds)
  have "p * 10 + d < 10 ^ Suc m" using Cons.prems by simp
  then show ?case using Cons.IH [of "p * 10 + d" "Suc m"] Cons.prems by simp
qed simp

lemma decimal_bound [cards]: "\<forall>d\<in>set ds. d \<le> 9 \<Longrightarrow> decimal ds < 10 ^ length ds"
  using foldl_decimal_bound [of ds 0 0] by (simp add: decimal_def)

lemma binPrefix_decimal [cards]: "binPrefix line ix = word_of_nat (decimal (map (digitAt line) ix))"
proof -
  have "foldl (\<lambda>p idx. p * 10 + word_of_nat (digitAt line idx)) (word_of_nat p) ix =
      (word_of_nat (foldl (\<lambda>p d. p * 10 + d) p (map (digitAt line) ix)) :: 32 word)" for p
  proof (induction ix arbitrary: p)
    case (Cons i ix)
    from Cons.IH [of "p * 10 + digitAt line i"] show ?case by (simp add: algebra_simps)
  qed simp
  from this [of 0] show ?thesis by (simp add: binPrefix_def decimal_def)
qed

lemma unat_small [cards]: "n < 10 ^ 6 \<Longrightarrow> unat (word_of_nat n :: 32 word) = n"
  by (simp add: unat_of_nat take_bit_nat_eq_self)

definition issuer_row :: "nat \<times> nat \<times> nat \<times> nat list \<Rightarrow> binRange" where
  "issuer_row = (\<lambda>(l, h, k, ns). bin (word_of_nat l) (word_of_nat h) k ns)"

lemma cardBINs_issuers [cards]: "cardBINs = map issuer_row issuers"
  by (simp add: cardBINs_def issuers_def issuer_row_def)

lemma issuers_small [cards]:
  "(l, h, k, ns) \<in> set issuers \<Longrightarrow> l < 10 ^ 6 \<and> h < 10 ^ 6 \<and> k \<le> 6 \<and> (\<forall>n\<in>set ns. 13 \<le> n \<and> n < 32)"
  by (auto simp: issuers_def)

text \<open>
  On a run of ASCII digits the issuer test, with its 32-bit prefix arithmetic and its length bit
  masks, decides membership in the published table of issuer prefixes and lengths read as
  decimal numbers.
\<close>

theorem matchesCardBIN_decimal:
  assumes "\<forall>i\<in>set ix. isASCIIDigit (line ! i)"
  shows "matchesCardBIN line ix \<longleftrightarrow> list_ex (issuer_accepts (map (digitAt line) ix)) issuers"
proof -
  let ?ds = "map (digitAt line) ix"
  have row: "(\<not> (bin_lengths (issuer_row r) AND push_bit (length ix) 1 = 0 \<or> bin_digits (issuer_row r) > length ix)
       \<and> bin_lo (issuer_row r) \<le> binPrefix line (take (bin_digits (issuer_row r)) ix)
       \<and> binPrefix line (take (bin_digits (issuer_row r)) ix) \<le> bin_hi (issuer_row r))
     \<longleftrightarrow> issuer_accepts ?ds r" if r: "r \<in> set issuers" for r
  proof -
    obtain l h k ns where e: "r = (l, h, k, ns)" by (cases r)
    have s: "l < 10 ^ 6" "h < 10 ^ 6" "k \<le> 6" "\<forall>n\<in>set ns. 13 \<le> n \<and> n < 32"
      using issuers_small r e by blast+
    have "\<forall>d\<in>set (take k ?ds). d \<le> 9"
      using assms by (auto simp: digitAt_def byteSub_digit_le dest!: in_set_takeD)
    then have "decimal (take k ?ds) < 10 ^ length (take k ?ds)" by (rule decimal_bound)
    also have "\<dots> \<le> 10 ^ 6" using s(3) by (intro power_increasing) auto
    finally have "unat (word_of_nat (decimal (take k ?ds)) :: 32 word) = decimal (take k ?ds)"
      by (rule unat_small)
    then show ?thesis
      using s unat_small [OF s(1)] unat_small [OF s(2)]
      by (auto simp: e issuer_row_def issuer_accepts_def lens_bit binPrefix_decimal take_map
          word_le_nat_alt)
  qed
  then show ?thesis
    by (auto simp: matchesCardBIN_def cardBINs_issuers list_ex_iff Let_def)
qed

theorem matchesCardBIN_decimal_witness:
  "matchesCardBIN ''4111111111111111'' [0 ..< 16] \<longleftrightarrow>
     list_ex (issuer_accepts (map (digitAt ''4111111111111111'') [0 ..< 16])) issuers"
  by (rule matchesCardBIN_decimal) code_simp

end
