(* ===== verification/ShapedNumbers.thy ===== *)
theory ShapedNumbers
  imports CardNumbers
begin

text \<open>
  Numbers known by their shape or their key: \<^verbatim>\<open>phone.go\<close>, \<^verbatim>\<open>idnumber.go\<close>,
  \<^verbatim>\<open>otp.go\<close>, \<^verbatim>\<open>session.go\<close> and \<^verbatim>\<open>dob.go\<close>. A matcher takes the line and
  a start index and returns the end index, or 0 for no match, as in the code. The scan
  \<open>findShapedNumbers\<close> terminates because every match ends after its start; the lemmas
  show that, the contract \<open>range_detector\<close>, and how many digits each kind of match has.
\<close>

named_theorems shape_bound "a match ends after its start and inside the line"

subsection \<open>Digit groups\<close>

definition digitGroup :: "string \<Rightarrow> nat \<Rightarrow> nat \<Rightarrow> bool" where
  "digitGroup line j k \<longleftrightarrow>
     (if j + k > length line then False else list_all (\<lambda>m. isASCIIDigit (line ! (j + m))) [0 ..< k])"

definition nanpGroup :: "string \<Rightarrow> nat \<Rightarrow> nat \<Rightarrow> bool" where
  "nanpGroup line j k \<longleftrightarrow> digitGroup line j k \<and> CHR ''2'' \<le> line ! j"

subsection \<open>Telephone numbers\<close>

definition minPhoneDigits :: nat where "minPhoneDigits = 8"
definition maxPhoneDigits :: nat where "maxPhoneDigits = 15"
definition minKeyedDigits :: nat where "minKeyedDigits = 7"
definition maxPhoneGroup :: nat where "maxPhoneGroup = 8"
definition maxAreaCodeDigits :: nat where "maxAreaCodeDigits = 4"
definition maxPhoneGroups :: nat where "maxPhoneGroups = 6"

lemmas phone_limits = minPhoneDigits_def maxPhoneDigits_def minKeyedDigits_def maxPhoneGroup_def
  maxAreaCodeDigits_def maxPhoneGroups_def

record phoneGroups =
  pg_j :: nat
  pg_end :: nat
  pg_digits :: nat
  pg_sep :: char
  pg_dots :: nat
  pg_afterArea :: bool

definition isPhoneSep :: "char \<Rightarrow> bool" where
  "isPhoneSep c \<longleftrightarrow> c = CHR '' '' \<or> c = CHR ''-'' \<or> c = CHR ''.''"

text \<open>
  One iteration of the loop over groups: \<open>Inl\<close> breaks out of it, \<open>Inr\<close> continues.
  \<open>areaGroup\<close> and \<open>plainGroup\<close> are its two branches after the separator,
  \<open>takeSep\<close> the bookkeeping of the separator.
\<close>

definition areaGroup :: "string \<Rightarrow> nat \<Rightarrow> phoneGroups \<Rightarrow> phoneGroups + phoneGroups" where
  "areaGroup line k st =
    (let n = length line; k1 = skip_upto isASCIIDigit maxAreaCodeDigits line (k + 1); d = k1 - (k + 1) in
     if d = 0 \<or> k1 \<ge> n \<or> line ! k1 \<noteq> CHR '')'' then Inl st
     else
      (let k2 = k1 + 1;
           space = (k2 < n \<and> line ! k2 = CHR '' '' \<and> k2 + 1 < n \<and> isASCIIDigit (line ! (k2 + 1))) in
       Inr (st\<lparr>pg_digits := pg_digits st + d, pg_end := k2,
               pg_j := (if space then k2 + 1 else k2), pg_sep := CHR 0x00, pg_afterArea := space\<rparr>)))"

definition plainGroup :: "string \<Rightarrow> nat \<Rightarrow> phoneGroups \<Rightarrow> phoneGroups + phoneGroups" where
  "plainGroup line k st =
    (let k1 = skip_upto isASCIIDigit maxPhoneGroup line k; d = k1 - k in
     if d = 0 \<or> (k1 < length line \<and> isASCIIDigit (line ! k1)) then Inl st
     else Inr (st\<lparr>pg_digits := pg_digits st + d, pg_end := k1, pg_j := k1\<rparr>))"

definition takeSep :: "char \<Rightarrow> phoneGroups \<Rightarrow> phoneGroups" where
  "takeSep c st = st\<lparr>pg_sep := (if pg_sep st = CHR 0x00 then c else pg_sep st),
                     pg_dots := (if c = CHR ''.'' then pg_dots st + 1 else pg_dots st)\<rparr>"

definition phoneGroupStep ::
  "string \<Rightarrow> bool \<Rightarrow> nat \<Rightarrow> phoneGroups \<Rightarrow> phoneGroups + phoneGroups" where
  "phoneGroupStep line parens g st =
    (let n = length line; j = pg_j st; hasSep = (j < n \<and> isPhoneSep (line ! j)) in
     if hasSep \<and> pg_sep st \<noteq> CHR 0x00 \<and> line ! j \<noteq> pg_sep st then Inl st
     else if \<not> hasSep \<and> g > 0 \<and> \<not> pg_afterArea st then Inl st
     else
      (let k = (if hasSep then j + 1 else j);
           st1 = (if hasSep then takeSep (line ! j) st else st)\<lparr>pg_afterArea := False\<rparr> in
       if parens \<and> g = 0 \<and> k < n \<and> line ! k = CHR ''('' then areaGroup line k st1
       else plainGroup line k st1))"

fun phoneGroupLoop :: "string \<Rightarrow> bool \<Rightarrow> nat list \<Rightarrow> phoneGroups \<Rightarrow> phoneGroups" where
  "phoneGroupLoop line parens [] st = st"
| "phoneGroupLoop line parens (g # gs) st =
     (case phoneGroupStep line parens g st of
        Inl st' \<Rightarrow> st'
      | Inr st' \<Rightarrow> phoneGroupLoop line parens gs st')"

definition matchPhoneGroups :: "string \<Rightarrow> nat \<Rightarrow> nat \<Rightarrow> bool \<Rightarrow> nat \<times> nat" where
  "matchPhoneGroups line j have parens =
    (let st = phoneGroupLoop line parens [0 ..< maxPhoneGroups]
       \<lparr>pg_j = j, pg_end = 0, pg_digits = have, pg_sep = CHR 0x00, pg_dots = 0, pg_afterArea = False\<rparr>
     in if pg_end st = 0 \<or> pg_dots st = 1 then (0, 0) else (pg_end st, pg_digits st))"

definition matchInternationalPhone :: "string \<Rightarrow> nat \<Rightarrow> nat" where
  "matchInternationalPhone line i =
    (let n = length line; j = skip_upto isASCIIDigit 3 line (i + 1); cc = j - (i + 1) in
     if cc = 0 then 0
     else if j < n \<and> isASCIIDigit (line ! j) then
       (let j1 = skip_while isASCIIDigit line j; digits = cc + (j1 - j) in
        if digits < minPhoneDigits \<or> digits > maxPhoneDigits then 0 else j1)
     else
       (let (end, more) = matchPhoneGroups line j cc True in
        if end = 0 \<or> more < minPhoneDigits \<or> more > maxPhoneDigits then 0 else end))"

text \<open>The exchange and the line number of \<open>matchNANPPhone\<close>, after the area code.\<close>

definition nanpRest :: "string \<Rightarrow> bool \<Rightarrow> char \<Rightarrow> nat \<Rightarrow> nat" where
  "nanpRest line paren sep j =
    (let n = length line in
     if \<not> nanpGroup line j 3 then 0
     else if j + 3 \<ge> n then 0
     else if \<not> (if paren then isPhoneSep (line ! (j + 3)) else line ! (j + 3) = sep) then 0
     else if \<not> digitGroup line (j + 4) 4 \<or> (j + 8 < n \<and> isASCIIDigit (line ! (j + 8))) then 0
     else j + 8)"

definition matchNANPPhone :: "string \<Rightarrow> nat \<Rightarrow> nat" where
  "matchNANPPhone line i =
    (let n = length line; paren = (i < n \<and> line ! i = CHR ''(''); j = (if paren then i + 1 else i) in
     if \<not> nanpGroup line j 3 then 0
     else (let j = j + 3 in
       if paren then
         (if j \<ge> n \<or> line ! j \<noteq> CHR '')'' then 0
          else nanpRest line True CHR 0x00
            (if j + 1 < n \<and> line ! (j + 1) = CHR '' '' then j + 2 else j + 1))
       else
         (if j \<ge> n \<or> (line ! j \<noteq> CHR ''-'' \<and> line ! j \<noteq> CHR ''.'') then 0
          else nanpRest line False (line ! j) (j + 1))))"

definition matchKeyedPhone :: "string \<Rightarrow> nat \<Rightarrow> nat" where
  "matchKeyedPhone line i =
    (let n = length line; j = skip_upto isASCIIDigit maxPhoneGroup line i; digits = j - i in
     if j < n \<and> isASCIIDigit (line ! j) then
       (let j1 = skip_while isASCIIDigit line j; digits = digits + (j1 - j) in
        if digits < minKeyedDigits \<or> digits > maxPhoneDigits then 0 else j1)
     else
       (let (end, more) = matchPhoneGroups line j digits False;
            (end, more) = (if end = 0 then (j, digits) else (end, more)) in
        if more < minKeyedDigits \<or> more > maxPhoneDigits then 0 else end))"

definition isKeyByte :: "char \<Rightarrow> bool" where
  "isKeyByte c \<longleftrightarrow> isASCIILetter c \<or> isASCIIDigit c \<or> c = CHR ''_'' \<or> c = CHR ''-'' \<or> c = CHR ''.''"

text \<open>\<open>drop1 p\<close> is the step back over one optional byte, on the reversed prefix.\<close>

definition drop1 :: "(char \<Rightarrow> bool) \<Rightarrow> string \<Rightarrow> string" where
  "drop1 p r = (case r of c # t \<Rightarrow> if p c then t else r | [] \<Rightarrow> [])"

definition isQuote :: "char \<Rightarrow> bool" where
  "isQuote c \<longleftrightarrow> c = CHR 0x22 \<or> c = CHR 0x27"

definition phoneKeyBefore :: "string \<Rightarrow> nat \<Rightarrow> string" where
  "phoneKeyBefore line i =
    (let r = dropWhile (\<lambda>c. c = CHR '' '') (drop1 isQuote (drop1 (\<lambda>c. c = CHR ''('') (rev (take i line)))) in
     case r of [] \<Rightarrow> []
     | c # t \<Rightarrow>
        if c \<noteq> CHR '':'' \<and> c \<noteq> CHR ''='' then []
        else rev (takeWhile isKeyByte (drop1 isQuote (dropWhile (\<lambda>c. c = CHR '' '') t))))"

subsection \<open>Words of a key\<close>

definition maxKeyWords :: nat where "maxKeyWords = 8"

definition isWordSep :: "char \<Rightarrow> bool" where
  "isWordSep c \<longleftrightarrow> c = CHR ''_'' \<or> c = CHR ''-'' \<or> c = CHR ''.''"

definition wordBoundary :: "string \<Rightarrow> nat \<Rightarrow> nat \<Rightarrow> bool" where
  "wordBoundary key start i \<longleftrightarrow> i = length key \<or> isWordSep (key ! i)
     \<or> (i > start \<and> isUpperASCII (key ! i) \<and> isLowerASCII (key ! (i - 1)))"

fun splitLoop :: "unicode_tables \<Rightarrow> string \<Rightarrow> nat list \<Rightarrow> nat \<Rightarrow> string list \<Rightarrow> string list" where
  "splitLoop ut key [] start parts = parts"
| "splitLoop ut key (i # is) start parts =
     (if \<not> wordBoundary key start i then splitLoop ut key is start parts
      else if i > start \<and> length parts = maxKeyWords then []
      else splitLoop ut key is
        (if i < length key \<and> isWordSep (key ! i) then i + 1 else i)
        (if i > start then parts @ [ToLower ut (take (i - start) (drop start key))] else parts))"

definition splitKeyWords :: "unicode_tables \<Rightarrow> string \<Rightarrow> string list" where
  "splitKeyWords ut key =
     (if length key > 64 then [] else splitLoop ut key [0 ..< Suc (length key)] 0 [])"

definition isNumberSuffix :: "string \<Rightarrow> bool" where
  "isNumberSuffix w \<longleftrightarrow> w = ''number'' \<or> w = ''no'' \<or> w = ''num'' \<or> w = ''nr''"

text \<open>Word \<open>k\<close> from the end; the callers test \<^verbatim>\<open>np\<close> before they index.\<close>

definition word_back :: "string list \<Rightarrow> nat \<Rightarrow> string" where
  "word_back parts k = parts ! (length parts - k)"

definition phoneKeyWords :: "string list" where
  "phoneKeyWords = [''phone'', ''telephone'', ''tel'', ''mobile'', ''msisdn'', ''cell'', ''cellphone'',
     ''fax'', ''whatsapp'', ''phonenumber'', ''mobilephone'']"

definition isPhoneKeyWords :: "string list \<Rightarrow> bool" where
  "isPhoneKeyWords parts =
    (let np = length parts; last = word_back parts 1 in
     if last = ''id'' \<and> np \<ge> 2 \<and> word_back parts 2 = ''wa'' then True
     else
      (let stripped = (isNumberSuffix last \<and> np \<ge> 2);
           last = (if stripped then word_back parts 2 else last) in
       if last = ''contact'' then stripped else last \<in> set phoneKeyWords))"

definition isPhoneKey :: "unicode_tables \<Rightarrow> string \<Rightarrow> bool" where
  "isPhoneKey ut key = (let words = splitKeyWords ut key in words \<noteq> [] \<and> isPhoneKeyWords words)"

definition idDocumentWords :: "string list" where
  "idDocumentWords = [''ssn'', ''passport'', ''cpf'', ''dni'', ''nin'', ''tin'', ''aadhaar'', ''zehut'',
     ''teudatzehut'', ''idnumber'', ''nationalid'', ''taxid'', ''socialsecurity'', ''passportnumber'',
     ''identitynumber'', ''mrn'', ''medicalrecordnumber'']"

definition idOwnerWords :: "string list" where
  "idOwnerWords = [''national'', ''tax'', ''taxpayer'', ''citizen'', ''identity'', ''government'',
     ''gov'', ''state'']"

definition idRecordWords :: "string list" where
  "idRecordWords = [''order'', ''transaction'', ''tracking'', ''invoice'', ''request'', ''session'',
     ''ticket'', ''message'', ''product'', ''item'', ''batch'', ''job'', ''trace'', ''device'', ''payment'']"

definition isIDKeyWords :: "string list \<Rightarrow> bool" where
  "isIDKeyWords parts =
    (let stripped = (isNumberSuffix (word_back parts 1) \<and> length parts \<ge> 2);
         np = (if stripped then length parts - 1 else length parts);
         last = parts ! (np - 1);
         prev = (if np \<ge> 2 then parts ! (np - 2) else []) in
     if last = ''id'' then prev \<in> set idOwnerWords \<or> (stripped \<and> prev \<notin> set idRecordWords)
     else if last = ''identity'' then stripped
     else if last = ''security'' then prev = ''social''
     else if last = ''record'' then stripped \<and> prev = ''medical''
     else last \<in> set idDocumentWords)"

definition isIDKey :: "unicode_tables \<Rightarrow> string \<Rightarrow> bool" where
  "isIDKey ut key = (let words = splitKeyWords ut key in words \<noteq> [] \<and> isIDKeyWords words)"

definition sessionKeyWords :: "string list" where
  "sessionKeyWords = [''cookie'', ''session'', ''sessionid'', ''sid'', ''jsessionid'', ''phpsessid'', ''sessid'']"

definition isSessionKeyWords :: "string list \<Rightarrow> bool" where
  "isSessionKeyWords parts =
    (let last = word_back parts 1 in
     if last = ''id'' \<and> length parts \<ge> 2 then word_back parts 2 = ''session''
     else last \<in> set sessionKeyWords)"

definition isSessionKey :: "unicode_tables \<Rightarrow> string \<Rightarrow> bool" where
  "isSessionKey ut key =
    (let k = TrimRight key ''_-.'' in
     if k = [] then False
     else if (byte (last k) OR 0x20) \<notin> {byte CHR ''e'', byte CHR ''n'', byte CHR ''d''} then False
     else let words = splitKeyWords ut key in words \<noteq> [] \<and> isSessionKeyWords words)"

definition otpKeyWords :: "string list" where
  "otpKeyWords = [''otp'', ''totp'', ''hotp'', ''passcode'', ''otpcode'', ''onetimecode'', ''mfacode'', ''smscode'']"

definition otpCodeWords :: "string list" where
  "otpCodeWords = [''otp'', ''totp'', ''hotp'', ''mfa'', ''2fa'', ''tfa'', ''verification'', ''verify'',
     ''confirmation'', ''confirm'', ''reset'', ''recovery'', ''activation'', ''login'', ''signin'',
     ''auth'', ''security'', ''sms'', ''onetime'', ''pass'']"

definition isOTPKeyWords :: "string list \<Rightarrow> bool" where
  "isOTPKeyWords parts =
    (let np = length parts; last = word_back parts 1 in
     if last \<noteq> ''code'' then last \<in> set otpKeyWords
     else if np < 2 then False
     else let prev = word_back parts 2 in
       if prev = ''time'' then np \<ge> 3 \<and> word_back parts 3 = ''one'' else prev \<in> set otpCodeWords)"

definition isOTPKey :: "unicode_tables \<Rightarrow> string \<Rightarrow> bool" where
  "isOTPKey ut key = (let words = splitKeyWords ut key in words \<noteq> [] \<and> isOTPKeyWords words)"

definition dobKeyWords :: "string list" where
  "dobKeyWords = [''dob'', ''birthdate'', ''birthday'', ''dateofbirth'', ''born'']"

definition isDOBKeyWords :: "string list \<Rightarrow> bool" where
  "isDOBKeyWords parts =
    (let np = length parts; last = word_back parts 1 in
     if last = ''date'' then np \<ge> 2 \<and> word_back parts 2 = ''birth''
     else if last = ''birth'' then np \<ge> 3 \<and> word_back parts 2 = ''of'' \<and> word_back parts 3 = ''date''
     else last \<in> set dobKeyWords)"

definition isDOBKey :: "unicode_tables \<Rightarrow> string \<Rightarrow> bool" where
  "isDOBKey ut key = (let words = splitKeyWords ut key in words \<noteq> [] \<and> isDOBKeyWords words)"

subsection \<open>Identity numbers, one-time codes and session numbers\<close>

definition minIDDigits :: nat where "minIDDigits = 6"
definition maxIDDigits :: nat where "maxIDDigits = 15"
definition minOTPDigits :: nat where "minOTPDigits = 4"
definition maxOTPDigits :: nat where "maxOTPDigits = 8"
definition minSessionDigits :: nat where "minSessionDigits = 10"

lemmas keyed_limits = minIDDigits_def maxIDDigits_def minOTPDigits_def maxOTPDigits_def
  minSessionDigits_def

definition isGroupSep :: "string \<Rightarrow> bool \<Rightarrow> nat \<Rightarrow> bool" where
  "isGroupSep line quoted j \<longleftrightarrow>
     (line ! j = CHR ''-'' \<or> line ! j = CHR ''.'' \<or> (line ! j = CHR '' '' \<and> quoted))
     \<and> j + 1 < length line \<and> isASCIIDigit (line ! (j + 1)) \<and> isASCIIDigit (line ! (j - 1))"

function groupedLoop :: "string \<Rightarrow> bool \<Rightarrow> nat \<Rightarrow> nat \<Rightarrow> nat \<times> nat" where
  "groupedLoop line quoted j digits =
     (if j < length line then
        if isASCIIDigit (line ! j) then groupedLoop line quoted (j + 1) (digits + 1)
        else if isGroupSep line quoted j then groupedLoop line quoted (j + 1) digits
        else (j, digits)
      else (j, digits))"
  by pat_completeness auto
termination by (relation "measure (\<lambda>(line, q, j, d). length line - j)") auto

declare groupedLoop.simps [simp del]

definition matchGroupedDigits :: "string \<Rightarrow> nat \<Rightarrow> nat \<Rightarrow> nat \<Rightarrow> nat" where
  "matchGroupedDigits line i minDigits maxDigits =
    (let quoted = (i > 0 \<and> isQuote (line ! (i - 1)));
         (j, digits) = groupedLoop line quoted i 0 in
     if digits < minDigits \<or> digits > maxDigits then 0 else j)"

definition matchKeyedIDNumber :: "string \<Rightarrow> nat \<Rightarrow> nat" where
  "matchKeyedIDNumber line i = matchGroupedDigits line i minIDDigits maxIDDigits"

definition matchKeyedOTP :: "string \<Rightarrow> nat \<Rightarrow> nat" where
  "matchKeyedOTP line i = matchGroupedDigits line i minOTPDigits maxOTPDigits"

definition matchSessionNumber :: "string \<Rightarrow> nat \<Rightarrow> nat" where
  "matchSessionNumber line i = (let j = skip_while isASCIIDigit line i in
     if j - i < minSessionDigits then 0 else j)"

subsection \<open>Dates of birth\<close>

definition atoiN :: "string \<Rightarrow> nat \<Rightarrow> nat \<Rightarrow> nat" where
  "atoiN line i k = foldl (\<lambda>v m. v * 10 + digitAt line (i + m)) 0 [0 ..< k]"

definition readDigits :: "string \<Rightarrow> nat \<Rightarrow> nat \<Rightarrow> int \<times> nat" where
  "readDigits line i m = (let j = skip_upto isASCIIDigit m line i in
     if j = i then (-1, i) else (int (foldl (\<lambda>v k. v * 10 + digitAt line k) 0 [i ..< j]), j))"

definition plausibleYear :: "nat \<Rightarrow> bool" where
  "plausibleYear y \<longleftrightarrow> y \<ge> 1900 \<and> y \<le> 2099"

definition plausibleDayMonth :: "int \<Rightarrow> int \<Rightarrow> bool" where
  "plausibleDayMonth a b \<longleftrightarrow> a \<ge> 1 \<and> b \<ge> 1 \<and> ((a \<le> 31 \<and> b \<le> 12) \<or> (a \<le> 12 \<and> b \<le> 31))"

text \<open>The optional seconds with their fraction, and the optional zone, of \<open>skipTimeOfDay\<close>.\<close>

definition skipSeconds :: "string \<Rightarrow> nat \<Rightarrow> nat" where
  "skipSeconds line k =
    (let n = length line in
     if k + 2 < n \<and> line ! k = CHR '':'' \<and> digitGroup line (k + 1) 2 then
       (if k + 4 < n \<and> (line ! (k + 3) = CHR ''.'' \<or> line ! (k + 3) = CHR '','') \<and> isASCIIDigit (line ! (k + 4))
        then skip_while isASCIIDigit line (k + 4) else k + 3)
     else k)"

definition skipZone :: "string \<Rightarrow> nat \<Rightarrow> nat" where
  "skipZone line k =
    (let n = length line in
     if k < n \<and> (line ! k = CHR ''Z'' \<or> line ! k = CHR ''z'') then k + 1
     else if k < n \<and> (line ! k = CHR ''+'' \<or> line ! k = CHR ''-'') \<and> digitGroup line (k + 1) 2 then
       (let k = k + 3 in
        if k + 2 < n \<and> line ! k = CHR '':'' \<and> digitGroup line (k + 1) 2 then k + 3
        else if digitGroup line k 2 then k + 2
        else k)
     else k)"

definition skipTimeOfDay :: "string \<Rightarrow> nat \<Rightarrow> nat" where
  "skipTimeOfDay line j =
    (let n = length line in
     if \<not> (j < n \<and> (line ! j = CHR ''T'' \<or> line ! j = CHR ''t'' \<or> line ! j = CHR '' '')) then j
     else let k = j + 1 in
       if \<not> digitGroup line k 2 \<or> k + 2 \<ge> n \<or> line ! (k + 2) \<noteq> CHR '':'' \<or> \<not> digitGroup line (k + 3) 2 then j
       else skipZone line (skipSeconds line (k + 5)))"

definition isDateSep :: "char \<Rightarrow> bool" where
  "isDateSep c \<longleftrightarrow> c = CHR ''-'' \<or> c = CHR ''/'' \<or> c = CHR ''.''"

definition matchISODate :: "string \<Rightarrow> nat \<Rightarrow> nat" where
  "matchISODate line i =
    (let n = length line; year = atoiN line i 4; j = i + 4 in
     if j \<ge> n then 0
     else let sep = line ! j in
       if \<not> isDateSep sep then 0
       else if \<not> digitGroup line (j + 1) 2 \<or> j + 3 \<ge> n \<or> line ! (j + 3) \<noteq> sep \<or> \<not> digitGroup line (j + 4) 2 then 0
       else let month = atoiN line (j + 1) 2; day = atoiN line (j + 4) 2 in
         if \<not> plausibleYear year \<or> month < 1 \<or> month > 12 \<or> day < 1 \<or> day > 31 then 0
         else skipTimeOfDay line (j + 6))"

definition matchKeyedDate :: "string \<Rightarrow> nat \<Rightarrow> nat" where
  "matchKeyedDate line i =
    (let n = length line in
     if i + 4 \<le> n \<and> digitGroup line i 4 then matchISODate line i
     else let (a, j) = readDigits line i 2 in
       if a < 0 \<or> j \<ge> n then 0
       else let sep = line ! j in
         if \<not> isDateSep sep then 0
         else let (b, j) = readDigits line (j + 1) 2 in
           if b < 0 \<or> j \<ge> n \<or> line ! j \<noteq> sep then 0
           else if \<not> digitGroup line (j + 1) 4 then 0
           else if \<not> plausibleYear (atoiN line (j + 1) 4) \<or> \<not> plausibleDayMonth a b then 0
           else j + 5)"

subsection \<open>One pass over the line\<close>

definition matchKeyedNumber :: "unicode_tables \<Rightarrow> string \<Rightarrow> nat \<Rightarrow> nat \<times> string" where
  "matchKeyedNumber ut line i =
    (let key = phoneKeyBefore line i in
     if key = [] then (0, [])
     else let words = splitKeyWords ut key in
       if words = [] then (0, [])
       else if isPhoneKeyWords words then (matchKeyedPhone line i, ''phone'')
       else if isIDKeyWords words then (matchKeyedIDNumber line i, ''id-number'')
       else if isSessionKeyWords words then (matchSessionNumber line i, ''key'')
       else if isOTPKeyWords words then (matchKeyedOTP line i, ''key'')
       else if isDOBKeyWords words then (matchKeyedDate line i, ''dob'')
       else (0, []))"

definition phoneGlue :: "char \<Rightarrow> bool" where
  "phoneGlue c \<longleftrightarrow> isASCIILetter c \<or> isASCIIDigit c \<or> c = CHR ''+'' \<or> c = CHR ''-'' \<or> c = CHR ''.''
     \<or> c = CHR ''/'' \<or> c = CHR ''@'' \<or> c = CHR ''_'' \<or> c = CHR ''%''"

definition phoneGluedAfter :: "string \<Rightarrow> nat \<Rightarrow> bool" where
  "phoneGluedAfter line end =
    (if end \<ge> length line then False
     else let c = line ! end in
       if isASCIILetter c \<or> isASCIIDigit c \<or> c = CHR ''_'' \<or> c = CHR ''@'' \<or> c = CHR ''/''
          \<or> c = CHR ''%'' \<or> c = CHR ''+'' then True
       else (c = CHR ''-'' \<or> c = CHR ''.'') \<and> end + 1 < length line \<and> isASCIIDigit (line ! (end + 1)))"

definition skipPhoneRun :: "string \<Rightarrow> nat \<Rightarrow> nat" where
  "skipPhoneRun line i = (if \<not> isASCIIDigit (line ! i) then i + 1 else skip_while isASCIIDigit line i)"

fun insideURL :: "string \<Rightarrow> nat \<Rightarrow> bool" where
  "insideURL line 0 = False"
| "insideURL line (Suc j) =
     (let c = line ! j in
      if c = CHR '' '' \<or> c = CHR 0x09 \<or> isQuote c then False
      else if c = CHR ''?'' then True
      else if c = CHR '':'' \<and> HasPrefix (drop j line) ''://'' then True
      else insideURL line j)"

record shapedNumber = Range +
  label :: string

definition matchShaped :: "unicode_tables \<Rightarrow> string \<Rightarrow> nat \<Rightarrow> nat \<times> string" where
  "matchShaped ut line i =
    (if line ! i = CHR ''+'' then (matchInternationalPhone line i, ''phone'')
     else if line ! i = CHR ''('' then (matchNANPPhone line i, ''phone'')
     else let end = matchNANPPhone line i in
       if end = 0 then matchKeyedNumber ut line i else (end, ''phone''))"

definition startsShaped :: "char \<Rightarrow> bool" where
  "startsShaped c \<longleftrightarrow> c = CHR ''+'' \<or> c = CHR ''('' \<or> isASCIIDigit c"

subsection \<open>Bounds of the matchers\<close>

lemma digitGroup_bound [shape_bound]: "digitGroup line j k \<Longrightarrow> j + k \<le> length line"
  by (auto simp: digitGroup_def split: if_splits)

lemma nanpRest_bound [shape_bound]:
  "nanpRest line paren sep j \<noteq> 0 \<Longrightarrow> nanpRest line paren sep j = j + 8 \<and> j + 8 \<le> length line"
  using digitGroup_bound [of line "j + 4" 4]
  by (simp add: nanpRest_def Let_def split: if_split_asm)

lemma matchNANPPhone_bound [shape_bound]:
  assumes "matchNANPPhone line i \<noteq> 0"
  shows "i < matchNANPPhone line i \<and> matchNANPPhone line i \<le> length line"
proof -
  obtain p c j where "matchNANPPhone line i = nanpRest line p c j" "i < j"
    using assms by (simp add: matchNANPPhone_def Let_def split: if_split_asm)
  with nanpRest_bound [of line p c j] assms show ?thesis by simp
qed

lemma skipSeconds_bound [shape_bound]:
  assumes "k \<le> length line"
  shows "k \<le> skipSeconds line k \<and> skipSeconds line k \<le> length line"
  using assms le_skip_while [of k "k + 4" isASCIIDigit line] skip_while_le [of "k + 4" line isASCIIDigit]
  by (simp add: skipSeconds_def Let_def)

lemma skipZone_bound [shape_bound]:
  assumes "k \<le> length line"
  shows "k \<le> skipZone line k \<and> skipZone line k \<le> length line"
proof -
  have "digitGroup line (k + 1) 2 \<Longrightarrow> k + 3 \<le> length line"
    "digitGroup line (k + 3) 2 \<Longrightarrow> k + 5 \<le> length line"
    "digitGroup line (k + 3 + 1) 2 \<Longrightarrow> k + 6 \<le> length line"
    using digitGroup_bound by force+
  then show ?thesis using assms unfolding skipZone_def Let_def by auto
qed

lemma skipTimeOfDay_bound [shape_bound]:
  assumes "j \<le> length line"
  shows "j \<le> skipTimeOfDay line j \<and> skipTimeOfDay line j \<le> length line"
proof (cases "digitGroup line (j + 4) 2")
  case True
  then have "j + 6 \<le> length line" using digitGroup_bound by force
  with skipSeconds_bound [of "j + 6" line] skipZone_bound [of "skipSeconds line (j + 6)" line]
  show ?thesis using assms by (simp add: skipTimeOfDay_def Let_def add.commute)
next
  case False
  then show ?thesis using assms by (simp add: skipTimeOfDay_def Let_def add.commute)
qed

lemma matchISODate_bound [shape_bound]:
  assumes "matchISODate line i \<noteq> 0"
  shows "i < matchISODate line i \<and> matchISODate line i \<le> length line"
proof -
  have "digitGroup line (i + 4 + 4) 2" and e: "matchISODate line i = skipTimeOfDay line (i + 4 + 6)"
    using assms by (simp_all add: matchISODate_def Let_def split: if_split_asm)
  then have "i + 10 \<le> length line" using digitGroup_bound by force
  then show ?thesis using skipTimeOfDay_bound [of "i + 10" line] e by (simp add: add.commute)
qed

lemma readDigits_ge [shape_bound]: "readDigits line i m = (a, j) \<Longrightarrow> i \<le> j"
  by (auto simp: readDigits_def Let_def split: if_split_asm)

lemma matchKeyedDate_bound [shape_bound]:
  assumes "matchKeyedDate line i \<noteq> 0"
  shows "i < matchKeyedDate line i \<and> matchKeyedDate line i \<le> length line"
proof (cases "i + 4 \<le> length line \<and> digitGroup line i 4")
  case True
  then show ?thesis using assms matchISODate_bound [of line i] by (simp add: matchKeyedDate_def)
next
  case False
  obtain a j b k where r: "readDigits line i 2 = (a, j)" "readDigits line (j + 1) 2 = (b, k)"
    by (metis surj_pair)
  have "i \<le> j" "j + 1 \<le> k" using r readDigits_ge by blast+
  moreover have "matchKeyedDate line i = k + 5 \<and> digitGroup line (k + 1) 4"
    using assms False r by (auto simp: matchKeyedDate_def Let_def split: if_split_asm)
  ultimately show ?thesis using digitGroup_bound [of line "k + 1" 4] by simp
qed

subsection \<open>Counting the digits of a match\<close>

definition digitCount :: "string \<Rightarrow> nat \<Rightarrow> nat \<Rightarrow> nat" where
  "digitCount line a b = length (filter (\<lambda>k. isASCIIDigit (line ! k)) [a ..< b])"

named_theorems digit_count "number of digits between two indices"

lemma digitCount_refl [digit_count, simp]: "digitCount line a a = 0"
  by (simp add: digitCount_def)

lemma digitCount_add [digit_count]:
  "a \<le> b \<Longrightarrow> b \<le> c \<Longrightarrow> digitCount line a c = digitCount line a b + digitCount line b c"
  using upt_add_eq_append [of a b "c - b"] by (simp add: digitCount_def)

lemma digitCount_Suc [digit_count]:
  "a \<le> k \<Longrightarrow> digitCount line a (Suc k) = digitCount line a k + (if isASCIIDigit (line ! k) then 1 else 0)"
  by (simp add: digitCount_def)

lemma digitCount_all:
  "\<forall>k. a \<le> k \<and> k < b \<longrightarrow> isASCIIDigit (line ! k) \<Longrightarrow> digitCount line a b = b - a"
  by (simp add: digitCount_def)

lemma digitCount_skip_upto [digit_count]:
  "j \<le> length line \<Longrightarrow> digitCount line j (skip_upto isASCIIDigit m line j) = skip_upto isASCIIDigit m line j - j"
  using skip_upto_all [of j _ isASCIIDigit m line] by (intro digitCount_all) blast

lemma digitCount_skip_while [digit_count]:
  "j \<le> length line \<Longrightarrow> digitCount line j (skip_while isASCIIDigit line j) = skip_while isASCIIDigit line j - j"
  using skip_while_all [of j _ isASCIIDigit line] by (intro digitCount_all) blast

lemma groupedLoop_count [digit_count]:
  "j \<le> length line \<Longrightarrow> groupedLoop line q j d = (e, d') \<Longrightarrow>
     j \<le> e \<and> e \<le> length line \<and> d' = d + digitCount line j e"
proof (induction line q j d rule: groupedLoop.induct)
  case (1 line q j d)
  have step: "digitCount line j e = (if isASCIIDigit (line ! j) then 1 else 0) + digitCount line (Suc j) e"
    if "Suc j \<le> e"
    using that digitCount_add [of j "Suc j" e line] by (simp add: digitCount_Suc)
  show ?case
    using 1 step by (subst (asm) groupedLoop.simps [of line q j d]) (auto split: if_split_asm)
qed

lemma matchGroupedDigits_count [digit_count]:
  assumes "i \<le> length line" and "0 < lo" and "matchGroupedDigits line i lo hi \<noteq> 0"
  shows "i < matchGroupedDigits line i lo hi \<and> matchGroupedDigits line i lo hi \<le> length line
    \<and> lo \<le> digitCount line i (matchGroupedDigits line i lo hi)
    \<and> digitCount line i (matchGroupedDigits line i lo hi) \<le> hi"
proof -
  let ?q = "i > 0 \<and> isQuote (line ! (i - 1))"
  obtain e d where g: "groupedLoop line ?q i 0 = (e, d)" by (metis surj_pair)
  then have c: "i \<le> e" "e \<le> length line" "d = digitCount line i e"
    using groupedLoop_count [OF assms(1) g] by auto
  have m: "matchGroupedDigits line i lo hi = e" "lo \<le> d" "d \<le> hi"
    using assms(3) g by (auto simp: matchGroupedDigits_def Let_def split: if_split_asm)
  have "e \<noteq> i" using m(2) c(3) assms(2) by auto
  with c m show ?thesis by simp
qed

lemma matchSessionNumber_count [digit_count]:
  assumes "i \<le> length line" and "matchSessionNumber line i \<noteq> 0"
  shows "i < matchSessionNumber line i \<and> matchSessionNumber line i \<le> length line
    \<and> minSessionDigits \<le> digitCount line i (matchSessionNumber line i)"
  using assms digitCount_skip_while [OF assms(1)] skip_while_le [OF assms(1), of isASCIIDigit]
  by (auto simp: matchSessionNumber_def Let_def minSessionDigits_def split: if_split_asm)

text \<open>
  The invariant of the loop over phone groups started at \<open>j0\<close>: its digit total counts the
  digits from \<open>j0\<close> to the current position, and no digit lies after the last end.
\<close>

definition groups_inv :: "string \<Rightarrow> nat \<Rightarrow> nat \<Rightarrow> phoneGroups \<Rightarrow> bool" where
  "groups_inv line j0 have st \<longleftrightarrow> j0 \<le> pg_j st \<and> pg_j st \<le> length line
     \<and> pg_digits st = have + digitCount line j0 (pg_j st)
     \<and> (if pg_end st = 0 then pg_j st = j0
        else j0 < pg_end st \<and> pg_end st \<le> pg_j st
          \<and> digitCount line j0 (pg_end st) = digitCount line j0 (pg_j st))"

lemma isPhoneSep_not_digit: "isPhoneSep c \<Longrightarrow> \<not> isASCIIDigit c"
  by (auto simp: isPhoneSep_def isASCIIDigit_byte)

lemma groups_inv_group [digit_count]:
  assumes "groups_inv line j0 have st" and "k = pg_j st \<or> (k = pg_j st + 1 \<and> \<not> isASCIIDigit (line ! pg_j st))"
    and "k \<le> length line" and "k1 = skip_upto isASCIIDigit m line k" and "k1 \<noteq> k"
  shows "j0 < k1 \<and> k1 \<le> length line \<and> pg_digits st + (k1 - k) = have + digitCount line j0 k1"
proof -
  have le: "k < k1" "k1 \<le> length line"
    using assms(3-5) skip_upto_ge [of k isASCIIDigit m line] skip_upto_le by (simp_all add: le_neq_implies_less)
  have "digitCount line j0 k = digitCount line j0 (pg_j st)"
    using assms(1,2) by (auto simp: groups_inv_def digitCount_Suc)
  moreover have "digitCount line j0 k1 = digitCount line j0 k + digitCount line k k1"
    using assms(1,2) le by (intro digitCount_add) (auto simp: groups_inv_def)
  moreover have "digitCount line k k1 = k1 - k" using assms(3,4) digitCount_skip_upto by simp
  ultimately show ?thesis using assms(1,2) le by (auto simp: groups_inv_def)
qed

definition sum_all :: "('a \<Rightarrow> bool) \<Rightarrow> 'a + 'a \<Rightarrow> bool" where
  "sum_all P x = (case x of Inl y \<Rightarrow> P y | Inr y \<Rightarrow> P y)"

lemma sum_all_simps [simp]: "sum_all P (Inl y) = P y" "sum_all P (Inr y) = P y"
  by (simp_all add: sum_all_def)

lemma plainGroup_inv [digit_count]:
  assumes "groups_inv line j0 have st" and "k = pg_j st \<or> (k = pg_j st + 1 \<and> \<not> isASCIIDigit (line ! pg_j st))"
    and "k \<le> length line"
  shows "sum_all (groups_inv line j0 have) (plainGroup line k st)"
proof -
  let ?k1 = "skip_upto isASCIIDigit maxPhoneGroup line k"
  show ?thesis
  proof (cases "?k1 = k")
    case True
    then show ?thesis using assms(1) by (simp add: plainGroup_def)
  next
    case False
    from groups_inv_group [OF assms(1,2,3) refl this] show ?thesis
      using assms(1) by (auto simp: plainGroup_def Let_def groups_inv_def)
  qed
qed

lemma areaGroup_inv [digit_count]:
  assumes "groups_inv line j0 have st" and "k = pg_j st \<or> (k = pg_j st + 1 \<and> \<not> isASCIIDigit (line ! pg_j st))"
    and "k < length line" and "line ! k = CHR ''(''"
  shows "sum_all (groups_inv line j0 have) (areaGroup line k st)"
proof -
  define k1 where "k1 = skip_upto isASCIIDigit maxAreaCodeDigits line (k + 1)"
  have le: "k + 1 \<le> k1" "k1 \<le> length line" using assms(3) by (simp_all add: k1_def skip_upto_le)
  have nd: "\<not> isASCIIDigit CHR ''(''" "\<not> isASCIIDigit CHR '')''" "\<not> isASCIIDigit CHR '' ''"
    by (simp_all add: isASCIIDigit_byte)
  have j0: "j0 \<le> k" using assms(1,2) by (auto simp: groups_inv_def)
  have "digitCount line j0 (k + 1) = digitCount line j0 (pg_j st)"
    using assms nd(1) by (auto simp: groups_inv_def digitCount_Suc)
  moreover have "digitCount line (k + 1) k1 = k1 - (k + 1)"
    using digitCount_skip_upto [of "k + 1" line] assms(3) by (simp add: k1_def)
  then have "digitCount line j0 k1 = digitCount line j0 (k + 1) + (k1 - (k + 1))"
    using digitCount_add [of j0 "k + 1" k1 line] le j0 by simp
  ultimately have c: "pg_digits st + (k1 - (k + 1)) = have + digitCount line j0 k1"
    using assms(1) unfolding groups_inv_def by linarith
  have cl: "digitCount line j0 (k1 + 1) = digitCount line j0 k1" if "line ! k1 = CHR '')''"
    using that nd(2) le j0 by (simp add: digitCount_Suc)
  have sp: "digitCount line j0 (k1 + 2) = digitCount line j0 (k1 + 1)" if "line ! (k1 + 1) = CHR '' ''"
    using that nd(3) le j0 by (simp add: digitCount_Suc)
  define space where "space \<longleftrightarrow> k1 + 1 < length line \<and> line ! (k1 + 1) = CHR '' ''
    \<and> k1 + 1 + 1 < length line \<and> isASCIIDigit (line ! (k1 + 1 + 1))"
  note d = areaGroup_def [of line k st, unfolded Let_def, folded k1_def, folded space_def]
  show ?thesis
  proof (cases "k1 - (k + 1) = 0 \<or> k1 \<ge> length line \<or> line ! k1 \<noteq> CHR '')''")
    case True
    then have "areaGroup line k st = Inl st" by (simp only: d if_True)
    then show ?thesis using assms(1) by simp
  next
    case False
    have "digitCount line j0 (if space then k1 + 1 + 1 else k1 + 1) = digitCount line j0 k1"
      "k1 + 1 \<le> (if space then k1 + 1 + 1 else k1 + 1)"
      "(if space then k1 + 1 + 1 else k1 + 1) \<le> length line"
      using False cl sp by (auto simp: space_def)
    then show ?thesis
      using False le j0 c cl by (simp only: d if_False) (simp add: groups_inv_def)
  qed
qed

lemma phoneGroupStep_inv [digit_count]:
  assumes "groups_inv line j0 have st"
  shows "sum_all (groups_inv line j0 have) (phoneGroupStep line parens g st)"
proof -
  let ?j = "pg_j st"
  define sep where "sep \<longleftrightarrow> ?j < length line \<and> isPhoneSep (line ! ?j)"
  define k where "k = (if sep then ?j + 1 else ?j)"
  define st1 where "st1 = (if sep then takeSep (line ! ?j) st else st)\<lparr>pg_afterArea := False\<rparr>"
  have j: "pg_j st1 = ?j" by (simp add: st1_def takeSep_def)
  have inv: "groups_inv line j0 have st1"
    using assms by (simp add: st1_def takeSep_def groups_inv_def)
  have k: "k = pg_j st1 \<or> (k = pg_j st1 + 1 \<and> \<not> isASCIIDigit (line ! pg_j st1))" "k \<le> length line"
    using assms isPhoneSep_not_digit by (auto simp: j k_def sep_def groups_inv_def)
  have "phoneGroupStep line parens g st = Inl st
      \<or> (k < length line \<and> line ! k = CHR ''('' \<and> phoneGroupStep line parens g st = areaGroup line k st1)
      \<or> phoneGroupStep line parens g st = plainGroup line k st1"
    using phoneGroupStep_def [of line parens g st, unfolded Let_def, folded sep_def, folded k_def st1_def]
    by (simp split: if_split_asm)
  then show ?thesis
    using assms areaGroup_inv [OF inv k(1)] plainGroup_inv [OF inv k] by auto
qed

lemma phoneGroupLoop_inv [digit_count]:
  "groups_inv line j0 have st \<Longrightarrow> groups_inv line j0 have (phoneGroupLoop line parens gs st)"
proof (induction gs arbitrary: st)
  case (Cons g gs)
  then show ?case
    using phoneGroupStep_inv [OF Cons.prems, of parens g]
    by (auto simp: sum_all_def split: sum.splits)
qed simp

lemma matchPhoneGroups_count [digit_count]:
  assumes "j \<le> length line" and "matchPhoneGroups line j have parens = (e, d)" and "e \<noteq> 0"
  shows "j < e \<and> e \<le> length line \<and> d = have + digitCount line j e"
proof -
  let ?st = "phoneGroupLoop line parens [0 ..< maxPhoneGroups]
    \<lparr>pg_j = j, pg_end = 0, pg_digits = have, pg_sep = CHR 0x00, pg_dots = 0, pg_afterArea = False\<rparr>"
  have "groups_inv line j have ?st"
    using assms(1) by (intro phoneGroupLoop_inv) (simp add: groups_inv_def)
  then show ?thesis
    using assms(2,3) by (auto simp: matchPhoneGroups_def Let_def groups_inv_def split: if_split_asm)
qed

lemma matchInternationalPhone_count [digit_count]:
  assumes "i < length line" and "line ! i = CHR ''+''" and "matchInternationalPhone line i \<noteq> 0"
  shows "i < matchInternationalPhone line i \<and> matchInternationalPhone line i \<le> length line
    \<and> minPhoneDigits \<le> digitCount line i (matchInternationalPhone line i)
    \<and> digitCount line i (matchInternationalPhone line i) \<le> maxPhoneDigits"
proof -
  let ?e = "matchInternationalPhone line i"
  define j where "j = skip_upto isASCIIDigit 3 line (i + 1)"
  define j1 where "j1 = skip_while isASCIIDigit line j"
  note d = matchInternationalPhone_def [of line i, unfolded Let_def, folded j_def, folded j1_def]
  have j: "i + 1 \<le> j" "j \<le> length line" using assms(1) by (simp_all add: j_def skip_upto_le)
  have j1: "j \<le> j1" "j1 \<le> length line" using j by (simp_all add: j1_def skip_while_le)
  have "digitCount line i (i + 1) = 0" using assms(2) by (simp add: digitCount_Suc isASCIIDigit_byte)
  moreover have "digitCount line (i + 1) j = j - (i + 1)"
    using digitCount_skip_upto [of "i + 1" line 3] assms(1) by (simp add: j_def)
  ultimately have ij: "digitCount line i j = j - (i + 1)"
    using digitCount_add [of i "i + 1" j line] j by simp
  show ?thesis
  proof (cases "j < length line \<and> isASCIIDigit (line ! j)")
    case True
    have "?e = j1" "minPhoneDigits \<le> j - (i + 1) + (j1 - j)" "j - (i + 1) + (j1 - j) \<le> maxPhoneDigits"
      using True assms(3) d by (auto split: if_split_asm)
    moreover have "digitCount line j j1 = j1 - j" using digitCount_skip_while [OF j(2)] by (simp add: j1_def)
    ultimately show ?thesis using digitCount_add [of i j j1 line] ij j j1 by simp
  next
    case False
    obtain e n where g: "matchPhoneGroups line j (j - (i + 1)) True = (e, n)" by (metis surj_pair)
    then have e: "?e = e" "e \<noteq> 0" "minPhoneDigits \<le> n" "n \<le> maxPhoneDigits"
      using False assms(3) d by (auto split: if_split_asm)
    have "j < e" "e \<le> length line" "n = j - (i + 1) + digitCount line j e"
      using matchPhoneGroups_count [OF j(2) g e(2)] by auto
    then show ?thesis using digitCount_add [of i j e line] ij j e by simp
  qed
qed

lemma matchKeyedPhone_count [digit_count]:
  assumes "i < length line" and "isASCIIDigit (line ! i)" and "matchKeyedPhone line i \<noteq> 0"
  shows "i < matchKeyedPhone line i \<and> matchKeyedPhone line i \<le> length line
    \<and> minKeyedDigits \<le> digitCount line i (matchKeyedPhone line i)
    \<and> digitCount line i (matchKeyedPhone line i) \<le> maxPhoneDigits"
proof -
  let ?e = "matchKeyedPhone line i"
  define j where "j = skip_upto isASCIIDigit maxPhoneGroup line i"
  define j1 where "j1 = skip_while isASCIIDigit line j"
  note d = matchKeyedPhone_def [of line i, unfolded Let_def, folded j_def, folded j1_def]
  have "j = skip_upto isASCIIDigit 7 line (Suc i)"
    using assms(1,2) by (simp add: j_def maxPhoneGroup_def skip_upto_step [of _ 8 _ i])
  then have j: "i < j" "j \<le> length line" using assms(1) by (simp_all add: skip_upto_le)
  have j1: "j \<le> j1" "j1 \<le> length line" using j by (simp_all add: j1_def skip_while_le)
  have ij: "digitCount line i j = j - i"
    using digitCount_skip_upto [of i line] assms(1) by (simp add: j_def)
  show ?thesis
  proof (cases "j < length line \<and> isASCIIDigit (line ! j)")
    case True
    have "?e = j1" "minKeyedDigits \<le> j - i + (j1 - j)" "j - i + (j1 - j) \<le> maxPhoneDigits"
      using True assms(3) d by (auto split: if_split_asm)
    moreover have "digitCount line j j1 = j1 - j" using digitCount_skip_while [OF j(2)] by (simp add: j1_def)
    ultimately show ?thesis using digitCount_add [of i j j1 line] ij j j1 by simp
  next
    case False
    obtain e n where g: "matchPhoneGroups line j (j - i) False = (e, n)" by (metis surj_pair)
    show ?thesis
    proof (cases "e = 0")
      case True
      then show ?thesis using False assms(3) d g ij j by (auto split: if_split_asm)
    next
      case e: False
      then have "?e = e" "minKeyedDigits \<le> n" "n \<le> maxPhoneDigits"
        using False assms(3) d g by (auto split: if_split_asm)
      moreover have "j < e" "e \<le> length line" "n = j - i + digitCount line j e"
        using matchPhoneGroups_count [OF j(2) g e] by auto
      ultimately show ?thesis using digitCount_add [of i j e line] ij j by simp
    qed
  qed
qed

lemma digitGroup_count [digit_count]: "digitGroup line j k \<Longrightarrow> digitCount line j (j + k) = k"
proof -
  assume "digitGroup line j k"
  then have "isASCIIDigit (line ! m)" if "j \<le> m" "m < j + k" for m
    using that by (auto simp: digitGroup_def list_all_iff split: if_split_asm
        dest!: bspec [of _ _ "m - j"])
  then show ?thesis using digitCount_all [of j "j + k" line] by simp
qed

lemma nanpRest_count [digit_count]:
  assumes "nanpRest line paren sep j \<noteq> 0" and "\<not> isASCIIDigit sep"
  shows "nanpRest line paren sep j = j + 8 \<and> j + 8 \<le> length line \<and> digitCount line j (j + 8) = 7"
proof -
  have g: "digitGroup line j 3" "digitGroup line (j + 4) 4"
    "if paren then isPhoneSep (line ! (j + 3)) else line ! (j + 3) = sep"
    using assms(1) by (simp_all add: nanpRest_def nanpGroup_def Let_def split: if_split_asm)
  then have "\<not> isASCIIDigit (line ! (j + 3))"
    using assms(2) isPhoneSep_not_digit by (auto split: if_split_asm)
  then have "digitCount line (j + 3) (j + 4) = 0" using digitCount_Suc [of "j + 3" "j + 3" line] by (simp add: add.commute)
  then have "digitCount line j (j + 8) = 7"
    using digitCount_add [of j "j + 3" "j + 8" line] digitCount_add [of "j + 3" "j + 4" "j + 8" line]
      digitGroup_count [OF g(1)] digitGroup_count [OF g(2)] by (simp add: add.commute)
  then show ?thesis using nanpRest_bound [OF assms(1)] by simp
qed

lemma matchNANPPhone_count [digit_count]:
  assumes "matchNANPPhone line i \<noteq> 0"
  shows "digitCount line i (matchNANPPhone line i) = 10"
proof -
  define p where "p \<longleftrightarrow> i < length line \<and> line ! i = CHR ''(''"
  define j where "j = (if p then i + 1 else i)"
  note d = matchNANPPhone_def [of line i, unfolded Let_def, folded p_def, folded j_def]
  have nd: "\<not> isASCIIDigit CHR ''(''" "\<not> isASCIIDigit CHR '')''" "\<not> isASCIIDigit CHR '' ''"
     "\<not> isASCIIDigit CHR ''-''" "\<not> isASCIIDigit CHR ''.''" "\<not> isASCIIDigit CHR 0x00"
    by (simp_all add: isASCIIDigit_byte)
  have g: "digitGroup line j 3" using assms d by (simp add: nanpGroup_def split: if_split_asm)
  have ij: "digitCount line i j = 0" using nd(1) by (simp add: j_def p_def digitCount_Suc)
  obtain sep k where k: "matchNANPPhone line i = nanpRest line p sep k" "\<not> isASCIIDigit sep"
     "k = j + 4 \<or> (k = j + 5 \<and> \<not> isASCIIDigit (line ! (j + 4)))" "\<not> isASCIIDigit (line ! (j + 3))"
  proof (cases p)
    case True
    then show ?thesis using that [of "CHR 0x00" "if j + 3 + 1 < length line \<and> line ! (j + 3 + 1) = CHR '' '' then j + 3 + 2 else j + 3 + 1"]
      assms d nd by (auto simp: add.commute split: if_split_asm)
  next
    case False
    then show ?thesis using that [of "line ! (j + 3)" "j + 4"] assms d nd by (auto simp: add.commute split: if_split_asm)
  qed
  have "i \<le> j" by (simp add: j_def)
  have "digitCount line (j + 3) k = 0"
    using k(3,4) digitCount_Suc [of "j + 3" "j + 3" line] digitCount_Suc [of "j + 3" "j + 4" line]
    by (auto simp: add.commute)
  moreover have "digitCount line j (j + 3) = 3" using digitGroup_count [OF g] .
  moreover have "matchNANPPhone line i = k + 8" "digitCount line k (k + 8) = 7"
    using nanpRest_count [of line p sep k] assms k(1,2) by auto
  ultimately show ?thesis
    using digitCount_add [of i j "k + 8" line] digitCount_add [of j "j + 3" "k + 8" line]
      digitCount_add [of "j + 3" k "k + 8" line] ij k(3) \<open>i \<le> j\<close> by auto
qed

text \<open>How many digits a number with a given label may have.\<close>

definition label_digits :: "string \<Rightarrow> nat \<Rightarrow> bool" where
  "label_digits l n \<longleftrightarrow> (l = ''phone'' \<and> 7 \<le> n \<and> n \<le> 15) \<or> (l = ''id-number'' \<and> 6 \<le> n \<and> n \<le> 15)
     \<or> (l = ''key'' \<and> (4 \<le> n \<and> n \<le> 8 \<or> 10 \<le> n)) \<or> l = ''dob''"

lemma matchKeyedNumber_sound [digit_count]:
  assumes "i < length line" and "isASCIIDigit (line ! i)" and "matchKeyedNumber ut line i = (e, l)"
    and "e \<noteq> 0"
  shows "i < e \<and> e \<le> length line \<and> label_digits l (digitCount line i e)"
proof -
  have le: "i \<le> length line" using assms(1) by simp
  consider "e = matchKeyedPhone line i" "l = ''phone''" | "e = matchKeyedIDNumber line i" "l = ''id-number''"
    | "e = matchSessionNumber line i" "l = ''key''" | "e = matchKeyedOTP line i" "l = ''key''"
    | "e = matchKeyedDate line i" "l = ''dob''"
    using assms(3,4) by (auto simp: matchKeyedNumber_def Let_def split: if_split_asm)
  then show ?thesis
  proof cases
    case 1
    then show ?thesis using matchKeyedPhone_count [OF assms(1,2)] assms(4)
      by (simp add: label_digits_def phone_limits)
  next
    case 2
    then show ?thesis using matchGroupedDigits_count [OF le, of minIDDigits maxIDDigits] assms(4)
      by (simp add: label_digits_def keyed_limits matchKeyedIDNumber_def)
  next
    case 3
    then show ?thesis using matchSessionNumber_count [OF le] assms(4)
      by (simp add: label_digits_def keyed_limits)
  next
    case 4
    then show ?thesis using matchGroupedDigits_count [OF le, of minOTPDigits maxOTPDigits] assms(4)
      by (simp add: label_digits_def keyed_limits matchKeyedOTP_def)
  next
    case 5
    then show ?thesis using matchKeyedDate_bound [of line i] assms(4) by (simp add: label_digits_def)
  qed
qed

lemma matchShaped_sound [digit_count]:
  assumes "i < length line" and "startsShaped (line ! i)" and "matchShaped ut line i = (e, l)" and "e \<noteq> 0"
  shows "i < e \<and> e \<le> length line \<and> label_digits l (digitCount line i e)"
proof -
  consider "line ! i = CHR ''+''" "e = matchInternationalPhone line i" "l = ''phone''"
    | "e = matchNANPPhone line i" "l = ''phone''"
    | "isASCIIDigit (line ! i)" "matchKeyedNumber ut line i = (e, l)"
  proof (cases "line ! i = CHR ''+'' \<or> line ! i = CHR ''('' \<or> matchNANPPhone line i \<noteq> 0")
    case True
    then have "matchShaped ut line i = (matchInternationalPhone line i, ''phone'') \<and> line ! i = CHR ''+''
        \<or> matchShaped ut line i = (matchNANPPhone line i, ''phone'')"
      by (auto simp: matchShaped_def Let_def)
    then show ?thesis using that(1,2) assms(3) by auto
  next
    case False
    then have "isASCIIDigit (line ! i)" "matchShaped ut line i = matchKeyedNumber ut line i"
      using assms(2) by (simp_all add: matchShaped_def startsShaped_def)
    then show ?thesis using that(3) assms(3) by simp
  qed
  then show ?thesis
  proof cases
    case 1
    then show ?thesis using matchInternationalPhone_count [OF assms(1)] assms(4)
      by (simp add: label_digits_def phone_limits)
  next
    case 2
    then show ?thesis using matchNANPPhone_count [of line i] matchNANPPhone_bound [of line i] assms(4)
      by (simp add: label_digits_def)
  next
    case 3
    then show ?thesis using matchKeyedNumber_sound assms by blast
  qed
qed

lemma skipPhoneRun_progress [shape_bound]: "i < length line \<Longrightarrow> i < skipPhoneRun line i"
  by (simp add: skipPhoneRun_def skip_while_step [of _ _ i])

function shapedLoop :: "unicode_tables \<Rightarrow> string \<Rightarrow> nat \<Rightarrow> shapedNumber list" where
  "shapedLoop ut line i =
    (if i < length line then
       (if \<not> startsShaped (line ! i) then shapedLoop ut line (i + 1)
        else if i > 0 \<and> phoneGlue (line ! (i - 1)) then shapedLoop ut line (skipPhoneRun line i)
        else let m = matchShaped ut line i; end = fst m in
          if end > 0 \<and> \<not> phoneGluedAfter line end \<and> \<not> insideURL line i
          then \<lparr>Start = i, End = end, label = snd m\<rparr> # shapedLoop ut line end
          else shapedLoop ut line (skipPhoneRun line i))
     else [])"
  by pat_completeness auto
termination
proof (relation "measure (\<lambda>(ut, line, i). length line - i)", goal_cases)
  case (4 ut line i m e)
  then show ?case using matchShaped_sound [of i line ut "fst m" "snd m"] by auto
qed (auto simp: skipPhoneRun_progress diff_less_mono2)

declare shapedLoop.simps [simp del]

definition findShapedNumbers :: "unicode_tables \<Rightarrow> string \<Rightarrow> shapedNumber list" where
  "findShapedNumbers ut line =
     (if \<not> ContainsAny line ''0123456789'' then [] else shapedLoop ut line 0)"

definition FindPhoneSequences :: "unicode_tables \<Rightarrow> string \<Rightarrow> Range list" where
  "FindPhoneSequences ut line =
     map (\<lambda>sn. \<lparr>Start = Start sn, End = End sn\<rparr>) (filter (\<lambda>sn. label sn = ''phone'') (findShapedNumbers ut line))"

subsection \<open>What the pass reports\<close>

text \<open>
  A candidate at \<open>i\<close>: it starts like a number, is not the tail of a larger token, matches one of
  the shapes, does not run on after the match and is not part of a URL query.
\<close>

definition shaped_at :: "unicode_tables \<Rightarrow> string \<Rightarrow> nat \<Rightarrow> nat \<Rightarrow> string \<Rightarrow> bool" where
  "shaped_at ut line i e l \<longleftrightarrow> i < length line \<and> startsShaped (line ! i)
     \<and> (i = 0 \<or> \<not> phoneGlue (line ! (i - 1))) \<and> matchShaped ut line i = (e, l) \<and> e \<noteq> 0
     \<and> \<not> phoneGluedAfter line e \<and> \<not> insideURL line i"

lemma shaped_at_sound [shape_bound]:
  "shaped_at ut line i e l \<Longrightarrow> i < e \<and> e \<le> length line \<and> label_digits l (digitCount line i e)"
  by (rule matchShaped_sound [where ut = ut]) (simp_all add: shaped_at_def)

text \<open>The three ways the loop goes on from an index inside the line.\<close>

lemma shapedLoop_cases:
  assumes "i < length line"
  obtains (report) e l where "shaped_at ut line i e l"
      "shapedLoop ut line i = \<lparr>Start = i, End = e, label = l\<rparr> # shapedLoop ut line e"
    | (skip) "\<not> (\<exists>e l. shaped_at ut line i e l)" "shapedLoop ut line i = shapedLoop ut line (skipPhoneRun line i)"
    | (step) "\<not> startsShaped (line ! i)" "shapedLoop ut line i = shapedLoop ut line (i + 1)"
proof (cases "startsShaped (line ! i)")
  case False
  then show ?thesis using assms that(3) shapedLoop.simps [of ut line i] by simp
next
  case True
  obtain e l where m: "matchShaped ut line i = (e, l)" by (metis surj_pair)
  show ?thesis
  proof (cases "shaped_at ut line i e l")
    case sh: True
    then have "shapedLoop ut line i = \<lparr>Start = i, End = e, label = l\<rparr> # shapedLoop ut line e"
      using shapedLoop.simps [of ut line i] by (auto simp: shaped_at_def Let_def)
    then show ?thesis using sh that(1) by blast
  next
    case False
    then have "shapedLoop ut line i = shapedLoop ut line (skipPhoneRun line i)"
      using True assms m shapedLoop.simps [of ut line i] by (auto simp: shaped_at_def Let_def)
    moreover have "\<not> (\<exists>e l. shaped_at ut line i e l)" using False m by (auto simp: shaped_at_def)
    ultimately show ?thesis using that(2) by blast
  qed
qed

lemma shapedLoop_sound [shape_bound]:
  "i \<le> length line \<Longrightarrow> ranges_ok (length line) (shapedLoop ut line i)
     \<and> (\<forall>r\<in>set (shapedLoop ut line i). i \<le> Start r \<and> shaped_at ut line (Start r) (End r) (label r))"
proof (induction "length line - i" arbitrary: i rule: less_induct)
  case less
  show ?case
  proof (cases "i < length line")
    case False
    then show ?thesis by (simp add: shapedLoop.simps)
  next
    case True
    from True show ?thesis
    proof (cases rule: shapedLoop_cases [where ut = ut])
      case (report e l)
      have e: "i < e" "e \<le> length line" using shaped_at_sound [OF report(1)] by auto
      then have "length line - e < length line - i" using True by simp
      from less.hyps [OF this e(2)] show ?thesis
        using report e by (auto simp: ranges_ok_Cons range_in_def)
    next
      case skip
      have "i < skipPhoneRun line i" "skipPhoneRun line i \<le> length line"
        using True skipPhoneRun_progress skip_while_le by (auto simp: skipPhoneRun_def)
      then show ?thesis using less.hyps [of "skipPhoneRun line i"] skip(2) by fastforce
    next
      case step
      then show ?thesis using less.hyps [of "i + 1"] True by fastforce
    qed
  qed
qed

lemma skipPhoneRun_glued [shape_bound]:
  assumes "i < k" and "k < skipPhoneRun line i" and "i < length line"
  shows "phoneGlue (line ! (k - 1))"
proof -
  have d: "isASCIIDigit (line ! i)" using assms(1,2) by (auto simp: skipPhoneRun_def split: if_split_asm)
  then have "isASCIIDigit (line ! (k - 1))"
    using assms skip_while_all [of i "k - 1" isASCIIDigit line] by (simp add: skipPhoneRun_def)
  then show ?thesis by (simp add: phoneGlue_def)
qed

lemma shapedLoop_complete [shape_bound]:
  "i \<le> k \<Longrightarrow> shaped_at ut line k e l \<Longrightarrow> k \<in> ranges_bytes (shapedLoop ut line i)"
proof (induction "length line - i" arbitrary: i rule: less_induct)
  case less
  then have i: "i < length line" by (simp add: shaped_at_def)
  then show ?case
  proof (cases rule: shapedLoop_cases [where ut = ut])
    case (report e' l')
    have "i < e'" using shaped_at_sound [OF report(1)] by auto
    then show ?thesis
      using less.hyps [of e'] less.prems report(2) i
      by (cases "k < e'") (auto simp: range_bytes_def)
  next
    case skip
    have "i \<noteq> k" using skip(1) less.prems by blast
    moreover have "\<not> phoneGlue (line ! (k - 1))" if "0 < k" using that less.prems by (auto simp: shaped_at_def)
    ultimately have "skipPhoneRun line i \<le> k"
      using skipPhoneRun_glued [of i k line] less.prems(1) i by (cases "skipPhoneRun line i \<le> k") auto
    then show ?thesis
      using less.hyps [of "skipPhoneRun line i"] less.prems skip(2) skipPhoneRun_progress [OF i] i by auto
  next
    case step
    have "i \<noteq> k" using step less.prems by (auto simp: shaped_at_def)
    then show ?thesis using less.hyps [of "i + 1"] less.prems step i by auto
  qed
qed

lemma findShapedNumbers_loop: "findShapedNumbers ut line = shapedLoop ut line 0"
proof (cases "ContainsAny line ''0123456789''")
  case False
  have "digitCount line a b = 0" if "b \<le> length line" for a b
    using False that by (auto simp: ContainsAny_digits digitCount_def filter_empty_conv)
  moreover have "0 < digitCount line i e \<or> l = ''dob''" if "shaped_at ut line i e l" for i e l
    using shaped_at_sound [OF that] by (auto simp: label_digits_def)
  moreover have "isASCIIDigit (line ! i)" if "shaped_at ut line i e ''dob''" for i e
    using that by (auto simp: shaped_at_def matchShaped_def startsShaped_def Let_def split: if_split_asm)
  ultimately have no: "\<not> shaped_at ut line i e l" for i e l
    using shaped_at_sound [of ut line i e l] False
    by (metis ContainsAny_digits less_numeral_extra(3) nth_mem shaped_at_def)
  have "shapedLoop ut line 0 = []"
  proof (rule ccontr)
    assume "shapedLoop ut line 0 \<noteq> []"
    then obtain r where "r \<in> set (shapedLoop ut line 0)" by (cases "shapedLoop ut line 0") auto
    then show False using shapedLoop_sound [of 0 line ut] no by auto
  qed
  then show ?thesis using False by (simp add: findShapedNumbers_def)
qed (simp add: findShapedNumbers_def)

interpretation shaped: range_detector "findShapedNumbers ut" for ut
  by unfold_locales (use shapedLoop_sound [of 0] in \<open>simp add: findShapedNumbers_loop\<close>)


text \<open>
  C10: The label of a reported number bounds its digits: a phone has 7 to 15 of them, an identity
  number 6 to 15, a one-time code or session number 4 to 8 or at least 10.
\<close>

theorem findShapedNumbers_digits:
  assumes "r \<in> set (findShapedNumbers ut line)"
  shows "(label r = ''phone'' \<and> digitCount line (Start r) (End r) \<in> {7 .. 15})
    \<or> (label r = ''id-number'' \<and> digitCount line (Start r) (End r) \<in> {6 .. 15})
    \<or> (label r = ''key'' \<and> digitCount line (Start r) (End r) \<in> {4 .. 8} \<union> {10 ..})
    \<or> label r = ''dob''"
proof -
  have "shaped_at ut line (Start r) (End r) (label r)"
    using assms shapedLoop_sound [of 0 line ut] by (simp add: findShapedNumbers_loop)
  from shaped_at_sound [OF this] show ?thesis by (auto simp: label_digits_def)
qed

theorem findShapedNumbers_digits_witness:
  "digitCount ''call +1 (555) 234-5678 now'' 5 22 \<in> {7 .. 15}"
proof -
  have "\<lparr>Start = 5, End = 22, label = ''phone''\<rparr> \<in> set (findShapedNumbers ascii_only ''call +1 (555) 234-5678 now'')"
    by code_simp
  from findShapedNumbers_digits [OF this] show ?thesis by simp
qed

text \<open>
  The reported numbers lie inside the line, in line order and without overlap.
\<close>

theorem findShapedNumbers_ordered:
  "sorted_wrt (\<lambda>r s. End r \<le> Start s) (findShapedNumbers ut line)
   \<and> list_all (\<lambda>r. Start r < End r \<and> End r \<le> length line) (findShapedNumbers ut line)"
  using shaped.find_ok [of line ut] by (auto simp: ranges_ok_def ranges_ordered_def range_in_def list_all_iff)

subsection \<open>Behaviour at the edges\<close>

text \<open>
  A number with a parenthesised area code and no other separator is found, but not when a full
  stop follows it at the end of a sentence: the stop is counted as a single decimal point and the
  whole match is given up.
\<close>

theorem phone_lost_before_full_stop:
  "FindPhoneSequences ascii_only ''call +1 (555) 2345678'' = [\<lparr>Start = 5, End = 21\<rparr>]
   \<and> FindPhoneSequences ascii_only ''call +1 (555) 2345678.'' = []"
  by code_simp

text \<open>
  Under a phone key a parenthesised area code is not matched, although the key lookup steps over
  the parenthesis for it: the number passes whole.
\<close>

theorem keyed_phone_parenthesis_not_matched:
  "FindPhoneSequences ascii_only ''phone: 030 1234567'' = [\<lparr>Start = 7, End = 18\<rparr>]
   \<and> FindPhoneSequences ascii_only ''phone: (030) 1234567'' = []"
  by code_simp

end
