(* ===== verification/Carves.thy ===== *)
theory Carves
  imports ShapedNumbers
begin

text \<open>
  The ranges a line is cut at before it is tokenised: \<^verbatim>\<open>mergeCarves\<close> of
  \<^verbatim>\<open>scanner.go\<close> joins the card ranges and the shaped numbers of a line. The locale
  \<open>carver\<close> takes two detectors that fulfil \<open>range_detector\<close> and shows what cutting at
  their merged ranges means; it is interpreted on the two detectors of the scanner.
\<close>

record carve = Range +
  cv_label :: string

definition card_carve :: "Range \<Rightarrow> carve" where
  "card_carve r = \<lparr>Start = Start r, End = End r, cv_label = []\<rparr>"

definition number_carve :: "shapedNumber \<Rightarrow> carve" where
  "number_carve s = \<lparr>Start = Start s, End = End s, cv_label = label s\<rparr>"

fun mergeCarves :: "Range list \<Rightarrow> shapedNumber list \<Rightarrow> carve list" where
  "mergeCarves [] [] = []"
| "mergeCarves (c # cards) [] = card_carve c # mergeCarves cards []"
| "mergeCarves [] (s # nums) = number_carve s # mergeCarves [] nums"
| "mergeCarves (c # cards) (s # nums) =
     (if End s \<le> Start c then number_carve s # mergeCarves (c # cards) nums
      else if End c \<le> Start s then card_carve c # mergeCarves cards (s # nums)
      else mergeCarves cards (s # nums))"

definition apart :: "'a Range_scheme \<Rightarrow> 'b Range_scheme \<Rightarrow> bool" where
  "apart r s \<longleftrightarrow> End r \<le> Start s \<or> End s \<le> Start r"

lemma carve_bounds [range_law, simp]:
  "Start (card_carve c) = Start c" "End (card_carve c) = End c" "cv_label (card_carve c) = []"
  "Start (number_carve s) = Start s" "End (number_carve s) = End s" "cv_label (number_carve s) = label s"
  by (simp_all add: card_carve_def number_carve_def)

lemma range_in_carve [range_law, simp]:
  "range_in n (card_carve c) = range_in n c" "range_in n (number_carve s) = range_in n s"
  by (simp_all add: range_in_def)

lemma set_mergeCarves [range_law]:
  "ranges_ok n cards \<Longrightarrow> ranges_ok n nums \<Longrightarrow>
     set (mergeCarves cards nums) =
       number_carve ` set nums \<union> card_carve ` {c \<in> set cards. \<forall>s\<in>set nums. apart c s}"
proof (induction cards nums rule: mergeCarves.induct)
  case (4 c cards s nums)
  note ok = 4(4,5)[unfolded ranges_ok_Cons]
  consider "End s \<le> Start c" | "\<not> End s \<le> Start c" "End c \<le> Start s"
    | "\<not> End s \<le> Start c" "\<not> End c \<le> Start s" by blast
  then show ?case
  proof cases
    case 1
    then have "apart c' s" if "c' \<in> set (c # cards)" for c'
      using that ok by (auto simp: apart_def range_in_def)
    then show ?thesis using 1 4(1,4) ok by auto
  next
    case 2
    then have "apart c s'" if "s' \<in> set (s # nums)" for s'
      using that ok by (fastforce simp: apart_def range_in_def)
    then show ?thesis using 2 4(2,5) ok by auto
  next
    case 3
    then have "\<not> apart c s" by (auto simp: apart_def)
    then show ?thesis using 3 4(3,5) ok by auto
  qed
qed (auto simp: ranges_ok_Cons)

lemma mergeCarves_ok [range_law]:
  "ranges_ok n cards \<Longrightarrow> ranges_ok n nums \<Longrightarrow> ranges_ok n (mergeCarves cards nums)"
proof (induction cards nums rule: mergeCarves.induct)
  case (4 c cards s nums)
  note ok = 4(4,5)[unfolded ranges_ok_Cons]
  consider "End s \<le> Start c" | "\<not> End s \<le> Start c" "End c \<le> Start s"
    | "\<not> End s \<le> Start c" "\<not> End c \<le> Start s" by blast
  then show ?case
  proof cases
    case 1
    have "End s \<le> Start x" if "x \<in> set (mergeCarves (c # cards) nums)" for x
      using that 1 4(4) ok set_mergeCarves [of n "c # cards" nums] by (fastforce simp: range_in_def)
    then show ?thesis using 1 4(1,4) ok by (simp add: ranges_ok_Cons)
  next
    case 2
    have "End c \<le> Start x" if "x \<in> set (mergeCarves cards (s # nums))" for x
      using that 2 4(5) ok set_mergeCarves [of n cards "s # nums"] by (fastforce simp: range_in_def)
    then show ?thesis using 2 4(2,5) ok by (simp add: ranges_ok_Cons)
  next
    case 3
    then show ?thesis using 4(3,5) ok by simp
  qed
next
  case (2 c cards)
  then show ?case using set_mergeCarves [of n cards "[]"] by (auto simp: ranges_ok_Cons)
next
  case (3 s nums)
  then show ?case using set_mergeCarves [of n "[]" nums] by (auto simp: ranges_ok_Cons)
qed simp

subsection \<open>Two detectors, one list of cuts\<close>

locale carver = cards: range_detector cardf + nums: range_detector numf
  for cardf :: "string \<Rightarrow> Range list" and numf :: "string \<Rightarrow> shapedNumber list"
begin

lemma carves_ok: "ranges_ok (length line) (mergeCarves (cardf line) (numf line))"
  by (rule mergeCarves_ok [OF cards.find_ok nums.find_ok])

lemma carves_set:
  "set (mergeCarves (cardf line) (numf line)) =
     number_carve ` set (numf line) \<union> card_carve ` {c \<in> set (cardf line). \<forall>s\<in>set (numf line). apart c s}"
  by (rule set_mergeCarves [OF cards.find_ok nums.find_ok])

lemma carves_cover_numbers:
  "ranges_bytes (numf line) \<subseteq> ranges_bytes (mergeCarves (cardf line) (numf line))"
  by (force simp: ranges_bytes_def range_bytes_def carves_set)

end

interpretation scan: carver "FindLuhnSequences ut" "findShapedNumbers ut" for ut
  by unfold_locales

text \<open>
  C7: The cuts of a line are in line order and without overlap; they are all the shaped numbers of
  the line with their labels, and exactly the cards that overlap none of them.
\<close>

theorem carves_of_line:
  "set (mergeCarves (FindLuhnSequences ut line) (findShapedNumbers ut line)) =
     number_carve ` set (findShapedNumbers ut line)
     \<union> card_carve ` {c. c \<in> set (FindLuhnSequences ut line) \<and> \<not> list_ex (\<lambda>s. \<not> apart c s) (findShapedNumbers ut line)}
   \<and> sorted_wrt (\<lambda>r s. End r \<le> Start s) (mergeCarves (FindLuhnSequences ut line) (findShapedNumbers ut line))
   \<and> ranges_bytes (mergeCarves (FindLuhnSequences ut line) (findShapedNumbers ut line)) \<subseteq> {..< length line}"
proof -
  have "ranges_bytes (mergeCarves (FindLuhnSequences ut line) (findShapedNumbers ut line)) \<subseteq> {..< length line}"
    using scan.carves_ok [where ut = ut and line = line]
    by (fastforce simp: ranges_bytes_def range_bytes_def ranges_ok_def range_in_def)
  moreover have "(\<forall>s\<in>set (findShapedNumbers ut line). apart c s) \<longleftrightarrow>
      \<not> list_ex (\<lambda>s. \<not> apart c s) (findShapedNumbers ut line)" for c :: Range
    by (auto simp: list_ex_iff)
  ultimately show ?thesis
    using scan.carves_ok [where ut = ut and line = line] scan.carves_set [where ut = ut and line = line]
    by (simp add: ranges_ok_def ranges_ordered_def)
qed

text \<open>
  Where a shaped number covers only part of a card, dropping the card leaves the other digits of
  the card outside every cut: of the card number 422-222-2222 222 the last three digits are not
  carved out, because its first ten digits read as a North American phone number.
\<close>

theorem overlap_uncovers_card_digits:
  "FindLuhnSequences ascii_only ''card 422-222-2222 222'' = [\<lparr>Start = 5, End = 21\<rparr>]
   \<and> mergeCarves (FindLuhnSequences ascii_only ''card 422-222-2222 222'')
       (findShapedNumbers ascii_only ''card 422-222-2222 222'') =
     [\<lparr>Start = 5, End = 17, cv_label = ''phone''\<rparr>]"
  by code_simp

end
