(* ===== verification/Quoting.thy ===== *)
theory Quoting
  imports TokenShapes
begin

text \<open>
  How a token is wrapped and what its pieces are: quotes, bytes literals, base64 padding,
  key/value pairs written without a space, and the small word tables of \<^verbatim>\<open>scanner.go\<close>
  and \<^verbatim>\<open>sqlliteral.go\<close>. Everything here is a function of the token alone.
\<close>

named_theorems quoting "quotes, pairs and wrappers"

abbreviation dquote :: char where "dquote \<equiv> CHR 0x22"
abbreviation squote :: char where "squote \<equiv> CHR 0x27"
abbreviation bslash :: char where "bslash \<equiv> CHR 0x5C"
abbreviation tab :: char where "tab \<equiv> CHR 0x09"
abbreviation newline :: char where "newline \<equiv> CHR 0x0A"

subsection \<open>Separators and apostrophes\<close>

definition sepTable :: "char list" where
  "sepTable = [CHR '' '', tab, CHR '','', CHR '';'', CHR ''['', CHR '']'', CHR ''{'', CHR ''}'', CHR ''('', CHR '')'',
     CHR ''<'', CHR ''>'']"

definition cjkBrackets :: "nat list" where
  "cjkBrackets = [12304, 12305, 12300, 12301, 12302, 12303, 12308, 12309, 12296, 12297, 12298, 12299, 12310, 12311,
     65288, 65289, 65339, 65341, 65371, 65373]"

definition isSepRune :: "nat \<Rightarrow> bool" where
  "isSepRune r \<longleftrightarrow> (if r < RuneSelf then r \<in> byte ` set sepTable else r \<in> set cjkBrackets)"

definition fullWidthColon :: string where
  "fullWidthColon = [CHR 0xEF, CHR 0xBC, CHR 0x9A]"

definition hasASCII :: "string \<Rightarrow> bool" where
  "hasASCII s \<longleftrightarrow> list_ex (\<lambda>c. byte c < RuneSelf) s"

definition isAllLetters :: "unicode_tables \<Rightarrow> string \<Rightarrow> bool" where
  "isAllLetters ut s \<longleftrightarrow> (if s = [] then False else list_all (IsLetter ut) (Runes s))"

definition apostropheCloses :: "string \<Rightarrow> nat \<Rightarrow> bool" where
  "apostropheCloses segment j \<longleftrightarrow>
     (if j \<ge> length segment then True
      else let r = fst (DecodeRune (drop j segment)) in isSepRune r \<or> r \<in> byte ` set '',.;:)]}'')"

text \<open>The loop of \<open>apostropheOpens\<close> from byte \<open>k\<close> on.\<close>

definition runeWidth :: "string \<Rightarrow> nat \<Rightarrow> nat" where
  "runeWidth s k = snd (DecodeRune (drop k s))"

lemma runeWidth_pos [quoting]: "k < length s \<Longrightarrow> 1 \<le> runeWidth s k \<and> k + runeWidth s k \<le> length s"
  using DecodeRune_width [of "drop k s"] by (auto simp: runeWidth_def)

function apostropheOpens :: "string \<Rightarrow> nat \<Rightarrow> bool" where
  "apostropheOpens segment k =
    (if k \<ge> length segment then False
     else let r = fst (DecodeRune (drop k segment)); w = runeWidth segment k in
       if r = byte bslash then
         apostropheOpens segment (if k + w < length segment then k + w + runeWidth segment (k + w) else k + w)
       else if r = byte squote \<and> apostropheCloses segment (k + w) then True
       else apostropheOpens segment (k + w))"
  by pat_completeness auto
termination
  by (relation "measure (\<lambda>(s, k). length s - k)")
    (auto simp: Let_def not_le dest!: runeWidth_pos intro!: diff_less_mono2)

declare apostropheOpens.simps [simp del]

definition indexWhitespace :: "string \<Rightarrow> nat option" where
  "indexWhitespace s = (case (IndexByte s CHR '' '', IndexByte s tab) of
     (None, j) \<Rightarrow> j | (Some i, None) \<Rightarrow> Some i | (Some i, Some j) \<Rightarrow> if j < i then Some j else Some i)"

subsection \<open>Quotes and bytes literals\<close>

definition trimQuotes :: "string \<Rightarrow> string" where
  "trimQuotes s =
    (if length s < 2 then s
     else if hd s = dquote \<and> last s = dquote then butlast (tl s)
     else if hd s = squote \<and> last s = squote then butlast (tl s)
     else s)"

definition isBalancedQuoted :: "string \<Rightarrow> bool" where
  "isBalancedQuoted s \<longleftrightarrow> (if length s < 2 then False else (hd s = dquote \<or> hd s = squote) \<and> last s = hd s)"

definition isBytesLiteral :: "string \<Rightarrow> bool" where
  "isBytesLiteral s \<longleftrightarrow> length s \<ge> 3 \<and> (s ! 0 = CHR ''b'' \<or> s ! 0 = CHR ''B'') \<and> (s ! 1 = dquote \<or> s ! 1 = squote)
     \<and> last s = s ! 1"

definition startsWithProductToken :: "string \<Rightarrow> bool" where
  "startsWithProductToken s =
    (let i = skip_while (\<lambda>c. isAlnumByte c \<or> c = CHR ''.'' \<or> c = CHR ''_'' \<or> c = CHR ''-'') s 0 in
     i > 0 \<and> i + 1 < length s \<and> s ! i = CHR ''/'' \<and> (isASCIIDigit (s ! (i + 1)) \<or> s ! (i + 1) = CHR ''v''))"

definition isQuotedPhrase :: "string \<Rightarrow> bool" where
  "isQuotedPhrase s \<longleftrightarrow>
     (if \<not> isBalancedQuoted s then False
      else let inner = butlast (tl s) in
        ContainsAny inner [CHR '' '', tab] \<and> IndexByte inner (hd s) = None \<and> \<not> startsWithProductToken inner)"

definition hasQueryShape :: "string \<Rightarrow> bool" where
  "hasQueryShape token = (case IndexByte token CHR ''?'' of
     None \<Rightarrow> False | Some q \<Rightarrow> IndexByte (drop (q + 1) token) CHR ''='' \<noteq> None)"

definition isUserAgentProduct :: "string \<Rightarrow> bool" where
  "isUserAgentProduct s = (case IndexByte s CHR ''/'' of
     None \<Rightarrow> False
   | Some slash \<Rightarrow>
      if slash < 1 \<or> slash > 40 \<or> \<not> isASCIILetter (hd s) then False
      else if \<not> list_all (\<lambda>c. isAlnumByte c \<or> c = CHR ''.'' \<or> c = CHR ''_'' \<or> c = CHR ''-'') (slice s 1 slash) then False
      else let v0 = drop (slash + 1) s;
               v = (if v0 \<noteq> [] \<and> (hd v0 = CHR ''v'' \<or> hd v0 = CHR ''V'') then tl v0 else v0) in
        if length v = 0 \<or> length v > 24 \<or> \<not> isASCIIDigit (hd v) then False
        else list_all (\<lambda>c. isAlnumByte c \<or> c = CHR ''.'' \<or> c = CHR ''_'' \<or> c = CHR ''~'' \<or> c = CHR ''+'' \<or> c = CHR ''-'') (tl v))"

definition isRedacted :: "string \<Rightarrow> bool" where
  "isRedacted content \<longleftrightarrow> HasPrefix content ''[HIDDEN'' \<and> HasSuffix content '']''"

definition escapedOrBacktickWrap :: "string \<Rightarrow> (nat \<times> nat) option" where
  "escapedOrBacktickWrap token =
    (let n = length token in
     if n \<ge> 5 \<and> token ! 0 = bslash \<and> (token ! 1 = squote \<or> token ! 1 = dquote) \<and> token ! (n - 2) = bslash
       \<and> token ! (n - 1) = token ! 1 \<and> \<not> Contains (slice token 2 (n - 2)) (take 2 token) then Some (2, 2)
     else if n \<ge> 3 \<and> token ! 0 = CHR 0x60 \<and> token ! (n - 1) = CHR 0x60
       \<and> IndexByte (slice token 1 (n - 1)) CHR 0x60 = None then Some (1, 1)
     else None)"

subsection \<open>Base64 and escaped bytes\<close>

definition isBase64Body :: "string \<Rightarrow> bool" where
  "isBase64Body s \<longleftrightarrow> list_all (\<lambda>c. isAlnumByte c \<or> c \<in> set ''+/-_'') s \<and> s \<noteq> []"

definition isPaddedBase64Token :: "string \<Rightarrow> bool" where
  "isPaddedBase64Token s =
    (let body = TrimRight s ''='' in
     if length body < 2 \<or> length s - length body > 2 \<or> length s - length body = 0 then False else isBase64Body body)"

definition minElidedPart :: nat where "minElidedPart = 8"

definition isElidedBase64 :: "string \<Rightarrow> bool" where
  "isElidedBase64 s =
    (if \<not> HasSuffix s ''='' then False
     else let body = TrimRight s ''='' in
       if length s - length body > 2 then False
       else case Cut body ''...'' of
         None \<Rightarrow> False
       | Some (head, tail) \<Rightarrow> length head \<ge> minElidedPart \<and> length tail \<ge> minElidedPart \<and> isBase64Body head \<and> isBase64Body tail)"

definition isPaddedBase64Blob :: "string \<Rightarrow> bool" where
  "isPaddedBase64Blob s =
    (if length s \<le> 64 \<or> \<not> HasSuffix s ''='' \<or> ContainsAny s [CHR ''-'', CHR ''_'', CHR '' '', tab, newline] then False
     else let body = TrimRight s ''='' in length s - length body \<le> 2 \<and> IndexByte body CHR ''='' = None)"

definition minBinaryEscapes :: nat where "minBinaryEscapes = 4"

definition hexByteValue :: "char \<Rightarrow> nat" where
  "hexByteValue c = (if byte c \<le> 57 then byte c - 48 else if byte c \<ge> 97 then byte c - 97 + 10 else byte c - 65 + 10)"

text \<open>The loop of \<open>isEscapedBinary\<close>: the number of \<^verbatim>\<open>\xNN\<close> escapes and the decoded bytes.\<close>

fun unescapeBytes :: "string \<Rightarrow> nat \<times> string" where
  "unescapeBytes [] = (0, [])"
| "unescapeBytes (c # s) =
    (if c \<noteq> bslash \<or> s = [] then (let (n, d) = unescapeBytes s in (n, c # d))
     else case s of
       CHR ''x'' # h # l # rest \<Rightarrow>
         if isHexByte h \<and> isHexByte l then
           (let (n, d) = unescapeBytes rest in (Suc n, char_of (hexByteValue h * 16 + hexByteValue l) # d))
         else (let (n, d) = unescapeBytes (h # l # rest) in (n, CHR ''x'' # d))
     | e # rest \<Rightarrow> (let (n, d) = unescapeBytes rest in (n, e # d))
     | [] \<Rightarrow> (0, []))"

definition isEscapedBinary :: "string \<Rightarrow> bool" where
  "isEscapedBinary s = (let (n, decoded) = unescapeBytes s in n \<ge> minBinaryEscapes \<and> \<not> ValidUTF8 decoded)"

subsection \<open>JSON documents\<close>

fun jsonEndLoop :: "int \<Rightarrow> bool \<Rightarrow> nat \<Rightarrow> string \<Rightarrow> nat option" where
  "jsonEndLoop depth inStr j [] = None"
| "jsonEndLoop depth True j (c # s) =
    (if c = bslash then (case s of [] \<Rightarrow> None | _ # s' \<Rightarrow> jsonEndLoop depth True (j + 2) s')
     else jsonEndLoop depth (c \<noteq> dquote) (j + 1) s)"
| "jsonEndLoop depth False j (c # s) =
    (if c = dquote then jsonEndLoop depth True (j + 1) s
     else if c = CHR ''{'' \<or> c = CHR ''['' then jsonEndLoop (depth + 1) False (j + 1) s
     else if c = CHR ''}'' \<or> c = CHR '']'' then
       (if depth - 1 = 0 then Some (j + 1) else jsonEndLoop (depth - 1) False (j + 1) s)
     else jsonEndLoop depth False (j + 1) s)"

definition jsonDocumentEnd :: "string \<Rightarrow> nat \<Rightarrow> nat option" where
  "jsonDocumentEnd s i = jsonEndLoop 0 False i (drop i s)"

subsection \<open>Keys, schemes and word tables\<close>

definition pythonLogLevels :: "string list" where
  "pythonLogLevels = [''DEBUG'', ''INFO'', ''WARNING'', ''WARN'', ''ERROR'', ''CRITICAL'', ''FATAL'', ''TRACE'', ''NOTICE'']"

definition isLoggerByte :: "char \<Rightarrow> bool" where
  "isLoggerByte c \<longleftrightarrow> isASCIILetter c \<or> isASCIIDigit c \<or> c = CHR ''_'' \<or> c = CHR ''.'' \<or> c = CHR ''-''"

definition pythonLogPrefixEnd :: "string \<Rightarrow> nat" where
  "pythonLogPrefixEnd tok = (case IndexByte tok CHR '':'' of
     None \<Rightarrow> 0
   | Some colon \<Rightarrow>
      if colon < 4 \<or> colon > 8 \<or> take colon tok \<notin> set pythonLogLevels then 0
      else let i = colon + 1 in
        if i \<ge> length tok \<or> (\<not> isASCIILetter (tok ! i) \<and> tok ! i \<noteq> CHR ''_'') then 0
        else let e = skip_while isLoggerByte tok i in if e < length tok \<and> tok ! e = CHR '':'' then e + 1 else 0)"

definition isWordsName :: "string \<Rightarrow> bool" where
  "isWordsName k \<longleftrightarrow> list_all (\<lambda>c. isLowerASCII c \<or> c = CHR ''_'' \<or> c = CHR ''-'') k
     \<and> list_ex (\<lambda>c. c = CHR ''_'' \<or> c = CHR ''-'') k \<and> isLowerASCII (hd k)"

definition looksLikeSecretWord :: "unicode_tables \<Rightarrow> string \<Rightarrow> bool" where
  "looksLikeSecretWord ut s \<longleftrightarrow>
     list_ex (\<lambda>r. IsDigit ut r \<or> (\<not> IsLetter ut r \<and> r \<notin> byte ` {CHR ''-'', CHR ''.'', CHR ''_'', squote})) (Runes s)"

definition isAuthSchemeWord :: "string \<Rightarrow> bool" where
  "isAuthSchemeWord s \<longleftrightarrow>
     (if length s < 3 \<or> length s > 24 \<or> \<not> isUpperASCII (hd s) then False
      else list_all (\<lambda>c. isASCIILetter c \<or> isASCIIDigit c \<or> c = CHR ''-'') (tl s))"

definition isSchemeParameter :: "string \<Rightarrow> bool" where
  "isSchemeParameter s = (case IndexByte s CHR ''='' of
     None \<Rightarrow> False
   | Some eq \<Rightarrow> (case IndexByte s CHR '':'' of None \<Rightarrow> True | Some colon \<Rightarrow> eq < colon))"

definition strongSecretWords :: "string list" where
  "strongSecretWords = [''pass'', ''password'', ''passwd'', ''passphrase'', ''secret'', ''token'']"

definition copulaWords :: "string list" where "copulaWords = [''is'', ''was'', ''are'', ''were'']"

definition longAuthSchemes :: "string list" where "longAuthSchemes = [''bearer'', ''digest'', ''negotiate'']"

definition valueLiterals :: "string list" where "valueLiterals = [''true'', ''false'', ''null'', ''none'']"

definition isHashKeyName :: "unicode_tables \<Rightarrow> string \<Rightarrow> bool" where
  "isHashKeyName ut k =
    (let lk = ToLower ut (trimQuotes k) in
     if Contains lk ''commit'' then True
     else (case LastIndexAny lk ''_-.'' of None \<Rightarrow> lk | Some i \<Rightarrow> drop (i + 1) lk)
       \<in> set [''sha'', ''sha1'', ''hash'', ''rev'', ''revision''])"

definition isShortHex :: "string \<Rightarrow> bool" where
  "isShortHex s \<longleftrightarrow> length s \<ge> 7 \<and> length s \<le> 40 \<and> isHexStr s"

definition genericValueKeys :: "string list" where
  "genericValueKeys = [''value'', ''val'', ''values'', ''data'']"

text \<open>The slice \<^verbatim>\<open>lk[i:]\<close> takes an index of \<open>k\<close>; past the end of the lowered key it panics.\<close>

definition isGenericValueKey :: "unicode_tables \<Rightarrow> string \<Rightarrow> bool go" where
  "isGenericValueKey ut k =
    (let lk = ToLower ut k in
     if lk \<in> set genericValueKeys then Inr True
     else let i = int (length k) - 5 in
       if i \<le> 0 then Inr False
       else if nat i > length lk then Inl Panic
       else if drop (nat i) lk \<noteq> ''value'' then Inr False
       else Inr (k ! nat i = CHR ''V'' \<or> k ! (nat i - 1) = CHR ''_'' \<or> k ! (nat i - 1) = CHR ''-'' \<or> k ! (nat i - 1) = CHR ''.''))"

definition splitCompactPair :: "string \<Rightarrow> (string \<times> string) option" where
  "splitCompactPair tok =
    (if length tok < 5 \<or> (hd tok \<noteq> dquote \<and> hd tok \<noteq> squote) then None
     else case IndexByte (tl tok) (hd tok) of
       None \<Rightarrow> None
     | Some j \<Rightarrow> let e = j + 1 in
        if e + 1 \<ge> length tok \<or> tok ! (e + 1) \<noteq> CHR '':'' then None
        else let v = drop (e + 2) tok in
          if length v < 2 \<or> (hd v \<noteq> dquote \<and> hd v \<noteq> squote) \<or> last v \<noteq> hd v then None
          else Some (slice tok 1 e, butlast (tl v)))"

definition pairKey :: "string \<Rightarrow> string option" where
  "pairKey tok = (case splitCompactPair tok of
     Some (k, v) \<Rightarrow> Some k
   | None \<Rightarrow> (case IndexAny tok '':='' of
       None \<Rightarrow> None
     | Some i \<Rightarrow> if i = 0 then None
         else let k = trimQuotes (take i tok) in
           if k \<noteq> [] \<and> \<not> ContainsAny k [CHR '' '', dquote, squote] then Some k else None))"

subsection \<open>Compact pairs\<close>

lemma IndexByte_append [quoting]: "c \<notin> set k \<Longrightarrow> IndexByte (k @ c # s) c = Some (length k)"
  by (induction k) auto

lemma wrapped [quoting]: "2 \<le> length v \<Longrightarrow> last v = hd v \<Longrightarrow> v = hd v # butlast (tl v) @ [hd v]"
  by (cases v rule: list.exhaust; cases "tl v = []") (auto simp: append_butlast_last_id [symmetric])

text \<open>
  A token splits as a compact pair exactly when it is a quoted key, a colon and a quoted value:
  the key has no quote of its own kind inside, either kind of quote may stand on either side, and
  the split returns the two contents.\<close>

theorem splitCompactPair_iff:
  "splitCompactPair tok = Some (k, v) \<longleftrightarrow>
     (\<exists>q r. q \<in> {CHR 0x22, CHR 0x27} \<and> r \<in> {CHR 0x22, CHR 0x27} \<and> q \<notin> set k
        \<and> tok = q # k @ q # CHR '':'' # r # v @ [r])"
proof
  assume split: "splitCompactPair tok = Some (k, v)"
  define q where "q = hd tok"
  obtain j where j: "IndexByte (tl tok) q = Some j" and q: "q \<in> {dquote, squote}" and tok: "tok = q # tl tok"
    using split by (cases tok) (auto simp: splitCompactPair_def q_def split: if_splits option.splits)
  define w where "w = drop (j + 3) tok"
  have len: "j + 2 < length tok" and colon: "tok ! (j + 2) = CHR '':''" and w: "2 \<le> length w" "last w = hd w"
    "hd w \<in> {dquote, squote}" and k: "k = take j (tl tok)" and v: "v = butlast (tl w)"
    using split j by (auto simp: splitCompactPair_def q_def w_def slice_def Let_def drop_Suc numeral_3_eq_3 split: if_splits)
  have "tl tok = k @ q # drop (Suc j) (tl tok)" using IndexByte_split [OF j] k by simp
  also have "drop (Suc j) (tl tok) = drop (j + 2) tok" by (simp add: drop_Suc)
  also have "\<dots> = CHR '':'' # w"
    using Cons_nth_drop_Suc [OF len] colon by (simp add: w_def numeral_3_eq_3)
  also have "w = hd w # v @ [hd w]" using wrapped [OF w(1,2)] v by simp
  finally have "tok = q # k @ q # CHR '':'' # hd w # v @ [hd w]" using tok by simp
  moreover have "q \<notin> set k" using j k by (simp add: IndexByte_Some)
  ultimately show "\<exists>q r. q \<in> {dquote, squote} \<and> r \<in> {dquote, squote} \<and> q \<notin> set k
        \<and> tok = q # k @ q # CHR '':'' # r # v @ [r]" using q w(3) by blast
next
  assume "\<exists>q r. q \<in> {dquote, squote} \<and> r \<in> {dquote, squote} \<and> q \<notin> set k
        \<and> tok = q # k @ q # CHR '':'' # r # v @ [r]"
  then obtain q r where qr: "q \<in> {dquote, squote}" "r \<in> {dquote, squote}" "q \<notin> set k"
    and tok: "tok = q # k @ q # CHR '':'' # r # v @ [r]" by blast
  have "drop (length k + 3) tok = r # v @ [r]" and "tok ! (length k + 2) = CHR '':''"
    using tok by (simp_all add: nth_append numeral_3_eq_3)
  then show "splitCompactPair tok = Some (k, v)"
    using qr tok by (auto simp: splitCompactPair_def Let_def IndexByte_append slice_def nth_append)
qed

subsection \<open>A slice past the end\<close>

definition kelvin_tables :: unicode_tables where
  "kelvin_tables = ascii_only\<lparr>uLetter := \<lambda>r. r = 8490, uUpper := \<lambda>r. r = 8490,
     uToLower := \<lambda>r. if r = 8490 then 107 else r\<rparr>"

lemma Runes_kelvin: "Runes (EncodeRune 8490 @ t) = 8490 # Runes t"
  by (rule Runes_Encode) (simp add: valid_rune_def)

text \<open>
  The test for the key of a generic value panics on a key of three Kelvin signs wherever the
  tables lower that sign to the letter k, as Unicode does: the key has nine bytes, its lowered form
  three, and the byte index is taken from the first and used on the second.\<close>

theorem isGenericValueKey_panics:
  assumes "uToLower ut 8490 = 107"
  shows "isGenericValueKey ut (EncodeRune 8490 @ EncodeRune 8490 @ EncodeRune 8490) = Inl Panic"
proof -
  let ?k = "EncodeRune 8490 @ EncodeRune 8490 @ EncodeRune 8490"
  have len: "length ?k = 9" by (simp add: EncodeRune_def)
  have "hasNonASCII ?k" by (simp add: EncodeRune_def hasNonASCII_def RuneSelf_def)
  moreover have "Runes ?k = [8490, 8490, 8490]"
    using Runes_kelvin [of "[]"] by (simp add: Runes_kelvin)
  moreover have "ToLowerRune ut 8490 = 107" using assms by (simp add: ToLowerRune_def)
  moreover have "EncodeRune 107 = ''k''" by code_simp
  ultimately have "ToLower ut ?k = ''kkk''" unfolding ToLower_def by simp
  then show ?thesis using len by (simp add: isGenericValueKey_def genericValueKeys_def)
qed

theorem isGenericValueKey_panics_witness:
  "uToLower kelvin_tables 8490 = 107
   \<and> isGenericValueKey kelvin_tables (EncodeRune 8490 @ EncodeRune 8490 @ EncodeRune 8490) = Inl Panic"
proof -
  have "uToLower kelvin_tables 8490 = 107" by (simp add: kelvin_tables_def ascii_only_def)
  then show ?thesis using isGenericValueKey_panics by blast
qed

subsection \<open>The end of a JSON document\<close>

abbreviation opens :: "char \<Rightarrow> bool" where "opens c \<equiv> c = CHR ''{'' \<or> c = CHR ''[''"
abbreviation closes :: "char \<Rightarrow> bool" where "closes c \<equiv> c = CHR ''}'' \<or> c = CHR '']''"

text \<open>
  A grammar for the text the scan steps over: the rest of a string up to its closing quote, the
  text between two brackets, and a bracketed document. The two kinds of bracket are not told
  apart.
\<close>

inductive string_rest :: "string \<Rightarrow> bool" where
  quote: "string_rest [dquote]"
| escape: "string_rest s \<Longrightarrow> string_rest (bslash # c # s)"
| plain: "c \<noteq> dquote \<Longrightarrow> c \<noteq> bslash \<Longrightarrow> string_rest s \<Longrightarrow> string_rest (c # s)"

inductive json_text :: "string \<Rightarrow> bool" and json_doc :: "string \<Rightarrow> bool" where
  empty: "json_text []"
| plain: "\<not> opens c \<Longrightarrow> \<not> closes c \<Longrightarrow> c \<noteq> dquote \<Longrightarrow> json_text s \<Longrightarrow> json_text (c # s)"
| quoted: "string_rest q \<Longrightarrow> json_text s \<Longrightarrow> json_text (dquote # q @ s)"
| nested: "json_doc d \<Longrightarrow> json_text s \<Longrightarrow> json_text (d @ s)"
| doc: "opens a \<Longrightarrow> closes b \<Longrightarrow> json_text s \<Longrightarrow> json_doc (a # s @ [b])"

lemma string_rest_scan:
  "string_rest q \<Longrightarrow> jsonEndLoop depth True j (q @ s) = jsonEndLoop depth False (j + length q) s"
  by (induction arbitrary: j rule: string_rest.induct) simp_all

lemma json_scan:
  "json_text t \<Longrightarrow> (\<And>depth j s. 1 \<le> depth \<Longrightarrow>
     jsonEndLoop depth False j (t @ s) = jsonEndLoop depth False (j + length t) s)"
  "json_doc d \<Longrightarrow> (\<And>depth j s. 0 \<le> depth \<Longrightarrow> jsonEndLoop depth False j (d @ s) =
     (if depth = 0 then Some (j + length d) else jsonEndLoop depth False (j + length d) s))"
proof (induction rule: json_text_json_doc.inducts)
  case (quoted q t)
  then show ?case by (simp add: string_rest_scan add.assoc)
next
  case (nested d t)
  then show ?case by (simp add: add.assoc)
next
  case (doc a b t)
  then show ?case by auto
qed auto

text \<open>What is left to read with \<open>n\<close> brackets open: that many texts, each ended by a bracket.\<close>

inductive tail :: "nat \<Rightarrow> string \<Rightarrow> bool" where
  zero: "tail 0 []"
| level: "json_text t \<Longrightarrow> closes b \<Longrightarrow> tail n s \<Longrightarrow> tail (Suc n) (t @ b # s)"

inductive_cases tail_SucE: "tail (Suc n) s"

lemma tail_plain: "tail (Suc n) s \<Longrightarrow> \<not> opens c \<Longrightarrow> \<not> closes c \<Longrightarrow> c \<noteq> dquote \<Longrightarrow> tail (Suc n) (c # s)"
  by (elim tail_SucE) (metis append_Cons json_text_json_doc.plain tail.level)

lemma tail_quoted: "tail (Suc n) s \<Longrightarrow> string_rest q \<Longrightarrow> tail (Suc n) (dquote # q @ s)"
  by (elim tail_SucE) (metis append_Cons append_assoc json_text_json_doc.quoted tail.level)

lemma tail_open:
  assumes "tail (Suc (Suc n)) s" and "opens c"
  shows "tail (Suc n) (c # s)"
proof -
  obtain t b s2 where s: "s = t @ b # s2" "json_text t" "closes b" and "tail (Suc n) s2"
    using assms(1) by (rule tail_SucE) blast
  then obtain t' b' s' where s2: "s2 = t' @ b' # s'" "json_text t'" "closes b'" "tail n s'" by (blast elim: tail_SucE)
  have "json_doc (c # t @ [b])" using s assms(2) by (blast intro: json_text_json_doc.doc)
  then have "json_text ((c # t @ [b]) @ t')" using s2(2) by (rule json_text_json_doc.nested)
  then have "tail (Suc n) (((c # t @ [b]) @ t') @ b' # s')" using s2(3,4) by (rule tail.level)
  then show ?thesis using s s2 by simp
qed

definition ends_at :: "nat \<Rightarrow> nat \<Rightarrow> string \<Rightarrow> nat \<Rightarrow> bool" where
  "ends_at n j s e \<longleftrightarrow> (\<exists>x r. s = x @ r \<and> e = j + length x \<and> tail n x)"

definition string_ends_at :: "nat \<Rightarrow> nat \<Rightarrow> string \<Rightarrow> nat \<Rightarrow> bool" where
  "string_ends_at n j s e \<longleftrightarrow> (\<exists>q s'. s = q @ s' \<and> string_rest q \<and> ends_at n (j + length q) s' e)"

lemma ends_at_ConsI:
  assumes "ends_at n (j + 1) s e" and "\<And>x. tail n x \<Longrightarrow> tail m (c # x)"
  shows "ends_at m j (c # s) e"
proof -
  obtain x r where "s = x @ r" "e = j + 1 + length x" "tail n x" using assms(1) by (auto simp: ends_at_def)
  then have "c # s = (c # x) @ r" "e = j + length (c # x)" "tail m (c # x)" using assms(2) by auto
  then show ?thesis unfolding ends_at_def by blast
qed

lemma string_ends_atI:
  assumes "string_ends_at n (j + length p) s e" and "\<And>q. string_rest q \<Longrightarrow> string_rest (p @ q)"
  shows "string_ends_at n j (p @ s) e"
proof -
  obtain q s' where "s = q @ s'" "string_rest q" "ends_at n (j + length p + length q) s' e"
    using assms(1) by (auto simp: string_ends_at_def)
  then have "p @ s = (p @ q) @ s'" "string_rest (p @ q)" "ends_at n (j + length (p @ q)) s' e"
    using assms(2) by (auto simp: add.assoc)
  then show ?thesis unfolding string_ends_at_def by blast
qed

lemma string_ends_at_quote: "ends_at n (j + 1) s e \<Longrightarrow> string_ends_at n j (dquote # s) e"
  unfolding string_ends_at_def by (rule exI [of _ "[dquote]"]) (simp add: string_rest.quote)

lemma ends_at_quoted:
  assumes "string_ends_at (Suc n) (j + 1) s e"
  shows "ends_at (Suc n) j (dquote # s) e"
proof -
  obtain q x r where "s = q @ x @ r" "string_rest q" "e = j + 1 + length q + length x" "tail (Suc n) x"
    using assms by (auto simp: string_ends_at_def ends_at_def)
  then have "dquote # s = (dquote # q @ x) @ r" "e = j + length (dquote # q @ x)" "tail (Suc n) (dquote # q @ x)"
    by (auto intro: tail_quoted)
  then show ?thesis unfolding ends_at_def by blast
qed

lemma ends_at_close: "closes c \<Longrightarrow> ends_at (Suc 0) j (c # s) (j + 1)"
  unfolding ends_at_def using tail.level [OF json_text_json_doc.empty, of c 0 "[]"] tail.zero
  by (intro exI [of _ "[c]"] exI [of _ s]) simp

lemma tail_close: "closes c \<Longrightarrow> tail n x \<Longrightarrow> tail (Suc n) (c # x)"
  using tail.level [OF json_text_json_doc.empty, of c n x] by simp

lemma json_scan_tail:
  "jsonEndLoop depth inStr j s = Some e \<Longrightarrow> depth = int (Suc n) \<Longrightarrow>
     (if inStr then string_ends_at (Suc n) j s e else ends_at (Suc n) j s e)"
proof (induction depth inStr j s arbitrary: n rule: jsonEndLoop.induct)
  case (2 depth j c s)
  show ?case
  proof (cases "c = bslash")
    case True
    then obtain d s' where s: "s = d # s'" using 2(3) by (cases s) auto
    then have "string_ends_at (Suc n) (j + 2) s' e" using 2(1) [OF True s] 2(3,4) True by simp
    then show ?thesis using True s string_ends_atI [of "Suc n" j "[bslash, d]" s' e]
      by (simp add: string_rest.escape)
  next
    case False
    then have "jsonEndLoop depth (c \<noteq> dquote) (j + 1) s = Some e" using 2(3) by simp
    from 2(2) [OF False this 2(4)] show ?thesis
      using False string_ends_atI [of "Suc n" j "[c]" s e]
      by (cases "c = dquote") (simp_all add: string_ends_at_quote string_rest.plain)
  qed
next
  case (3 depth j c s)
  note ih = 3(1-4) and loop = 3(5) and depth = 3(6)
  consider "c = dquote" | "c \<noteq> dquote" "opens c" | "closes c" "n = 0" | m where "closes c" "n = Suc m"
    | "c \<noteq> dquote" "\<not> opens c" "\<not> closes c" by (cases n) auto
  then show ?case
  proof cases
    case 1
    then show ?thesis using ih(1) [OF 1 _ depth] loop by (simp add: ends_at_quoted)
  next
    case 2
    then have "ends_at (Suc (Suc n)) (j + 1) s e" using ih(2) [OF 2 _, of "Suc n"] loop depth by simp
    then show ?thesis using 2 by (auto intro: ends_at_ConsI tail_open)
  next
    case 3
    then have "e = j + 1" using loop depth by auto
    then show ?thesis using ends_at_close 3 by simp
  next
    case 4
    then have "c \<noteq> dquote" "\<not> opens c" "depth - 1 \<noteq> 0" using depth by auto
    then have "ends_at (Suc m) (j + 1) s e" using ih(3) [OF _ _ 4(1), of m] loop depth 4 by auto
    then show ?thesis using 4 by (auto intro: ends_at_ConsI tail_close)
  next
    case 5
    then have "ends_at (Suc n) (j + 1) s e" using ih(4) [OF 5 _ depth] loop by simp
    then show ?thesis using 5 by (auto intro: ends_at_ConsI tail_plain)
  qed
qed simp

text \<open>
  C16: Scanning for the end of a JSON document from an opening bracket stops at \<open>e\<close> exactly when the
  bytes up to \<open>e\<close> are one bracketed document: brackets inside strings and escaped quotes inside
  strings do not count, and every inner bracket is closed before the outer one.\<close>

theorem jsonDocumentEnd_iff:
  assumes "i < length s" and "s ! i = CHR ''{'' \<or> s ! i = CHR ''[''"
  shows "jsonDocumentEnd s i = Some e \<longleftrightarrow> i \<le> e \<and> e \<le> length s \<and> json_doc (slice s i e)"
proof
  have s: "drop i s = s ! i # drop (Suc i) s" using Cons_nth_drop_Suc [OF assms(1)] by simp
  assume "jsonDocumentEnd s i = Some e"
  then have "jsonEndLoop (int (Suc 0)) False (i + 1) (drop (Suc i) s) = Some e"
    using assms(2) by (auto simp: jsonDocumentEnd_def s)
  from json_scan_tail [OF this refl] have "ends_at (Suc 0) (i + 1) (drop (Suc i) s) e" by simp
  then obtain x r where x: "drop (Suc i) s = x @ r" "e = i + 1 + length x" "tail (Suc 0) x"
    by (auto simp: ends_at_def)
  then obtain t b where t: "x = t @ [b]" "json_text t" "closes b" by (auto elim!: tail_SucE elim: tail.cases)
  have "slice s i e = s ! i # t @ [b]" using s x t by (simp add: slice_def)
  moreover have "json_doc (s ! i # t @ [b])" using assms(2) t by (blast intro: json_text_json_doc.doc)
  moreover have "length (drop (Suc i) s) = length x + length r" using x by simp
  then have "e \<le> length s" using x(2) assms(1) by simp
  ultimately show "i \<le> e \<and> e \<le> length s \<and> json_doc (slice s i e)" using x by simp
next
  assume e: "i \<le> e \<and> e \<le> length s \<and> json_doc (slice s i e)"
  have "drop i s = slice s i e @ drop e s"
    using e by (simp add: slice_def) (metis append_take_drop_id drop_drop le_add_diff_inverse2)
  moreover have "length (slice s i e) = e - i"
    using e diff_le_mono [of e "length s" i] by (simp add: slice_def min_absorb2)
  ultimately show "jsonDocumentEnd s i = Some e"
    using json_scan(2) [of "slice s i e" 0 i "drop e s"] e by (simp add: jsonDocumentEnd_def)
qed

theorem jsonDocumentEnd_iff_witness:
  "jsonDocumentEnd ''{a:[1]} x'' 0 = Some 7 \<and> json_doc (slice ''{a:[1]} x'' 0 7)"
proof -
  have "jsonDocumentEnd ''{a:[1]} x'' 0 = Some 7" by code_simp
  moreover have "''{a:[1]} x'' ! 0 = CHR ''{''" "0 < length ''{a:[1]} x''" by simp_all
  ultimately show ?thesis using jsonDocumentEnd_iff [of 0 "''{a:[1]} x''" 7] by blast
qed

end
