(* ===== verification/KeyWords.thy ===== *)
theory KeyWords
  imports GoStrings "HOL-Library.Word"
begin

text \<open>
  The sensitive-key matcher of \<^verbatim>\<open>keymatcher.go\<close>: an Aho-Corasick automaton over the
  bytes of the entries, in one flat transition table. A state is the offset of its row and a
  missing edge (\<open>-1\<close> in the code) is \<open>None\<close>. The trie, the breadth-first completion
  and the two walks are translated as they are; the breadth-first loop is given as many
  rounds as the table has cells, and the lemmas show that its queue is empty well before.
  The main result is that \<open>find\<close> decides whether the lowered key contains an entry.
\<close>

unbundle bit_operations_syntax

record keyMatcher =
  km_class :: "char \<Rightarrow> nat"
  km_next :: "nat option list"
  km_hit :: "bool list"
  km_always :: bool

type_synonym table = "nat option list \<times> bool list"

definition hasASCIIUpper :: "string \<Rightarrow> bool" where
  "hasASCIIUpper s \<longleftrightarrow> list_ex (\<lambda>c. CHR ''A'' \<le> c \<and> c \<le> CHR ''Z'') s"

definition patterns :: "string list \<Rightarrow> string list" where
  "patterns keys = filter (\<lambda>k. \<not> hasASCIIUpper k \<and> k \<noteq> []) keys"

definition classStep :: "(char \<Rightarrow> nat) \<times> nat \<Rightarrow> char \<Rightarrow> (char \<Rightarrow> nat) \<times> nat" where
  "classStep st b = (let (cl, n) = st in if cl b = 0 then (cl(b := n mod 256), n + 1) else st)"

definition classes :: "string list \<Rightarrow> (char \<Rightarrow> nat) \<times> nat" where
  "classes pats = foldl classStep ((\<lambda>_. 0), 1) (concat pats)"

definition newState :: "nat \<Rightarrow> table \<Rightarrow> nat \<times> table" where
  "newState n T = (length (fst T), (fst T @ replicate n None, snd T @ replicate n False))"

definition trieStep :: "(char \<Rightarrow> nat) \<Rightarrow> nat \<Rightarrow> table \<times> nat \<Rightarrow> char \<Rightarrow> table \<times> nat" where
  "trieStep cl n st b = (let (T, s) = st in
     case fst T ! (s + cl b) of
       Some t \<Rightarrow> (T, t)
     | None \<Rightarrow> let (t, T') = newState n T in (((fst T')[s + cl b := Some t], snd T'), t))"

definition insertPat :: "(char \<Rightarrow> nat) \<Rightarrow> nat \<Rightarrow> table \<Rightarrow> string \<Rightarrow> table" where
  "insertPat cl n T p = (let (T', s) = foldl (trieStep cl n) (T, 0) p in (fst T', (snd T')[s := True]))"

definition trie :: "(char \<Rightarrow> nat) \<Rightarrow> nat \<Rightarrow> string list \<Rightarrow> table" where
  "trie cl n pats = foldl (insertPat cl n) (snd (newState n ([], []))) pats"

record bfsState =
  b_next :: "nat option list"
  b_hit :: "bool list"
  b_fail :: "nat \<Rightarrow> nat"
  b_queue :: "nat list"

definition rootStep :: "bfsState \<Rightarrow> nat \<Rightarrow> bfsState" where
  "rootStep st c = (case b_next st ! c of
     None \<Rightarrow> st\<lparr>b_next := (b_next st)[c := Some 0]\<rparr>
   | Some t \<Rightarrow> st\<lparr>b_fail := (b_fail st)(t := 0), b_queue := b_queue st @ [t]\<rparr>)"

definition edgeStep :: "nat \<Rightarrow> nat \<Rightarrow> bfsState \<Rightarrow> nat \<Rightarrow> bfsState" where
  "edgeStep s f st c = (case b_next st ! (s + c) of
     None \<Rightarrow> st\<lparr>b_next := (b_next st)[s + c := b_next st ! (f + c)]\<rparr>
   | Some t \<Rightarrow> st\<lparr>b_fail := (b_fail st)(t := the (b_next st ! (f + c))), b_queue := b_queue st @ [t]\<rparr>)"

definition bfsStep :: "nat \<Rightarrow> bfsState \<Rightarrow> bfsState" where
  "bfsStep n st = (case b_queue st of
     [] \<Rightarrow> st
   | s # q \<Rightarrow> let f = b_fail st s in
       foldl (edgeStep s f) (st\<lparr>b_queue := q, b_hit := (b_hit st)[s := b_hit st ! s \<or> b_hit st ! f]\<rparr>) [0 ..< n])"

primrec bfsLoop :: "nat \<Rightarrow> nat \<Rightarrow> bfsState \<Rightarrow> bfsState" where
  "bfsLoop n 0 st = st"
| "bfsLoop n (Suc k) st = (if b_queue st = [] then st else bfsLoop n k (bfsStep n st))"

definition bfs :: "nat \<Rightarrow> table \<Rightarrow> bfsState" where
  "bfs n T = bfsLoop n (length (fst T))
     (foldl rootStep \<lparr>b_next = fst T, b_hit = snd T, b_fail = (\<lambda>_. 0), b_queue = []\<rparr> [0 ..< n])"

definition newKeyMatcher :: "string list \<Rightarrow> keyMatcher" where
  "newKeyMatcher keys =
    (let pats = patterns keys; (cl, n) = classes pats; st = bfs n (trie cl n pats) in
     \<lparr>km_class = cl, km_next = b_next st, km_hit = b_hit st, km_always = ([] \<in> set keys)\<rparr>)"

definition km_step :: "keyMatcher \<Rightarrow> nat \<Rightarrow> char \<Rightarrow> nat" where
  "km_step m s b = the (km_next m ! (s + km_class m b))"

fun walk :: "keyMatcher \<Rightarrow> nat \<Rightarrow> string \<Rightarrow> bool" where
  "walk m s [] = False"
| "walk m s (b # bs) = (let s' = km_step m s b in if km_hit m ! s' then True else walk m s' bs)"

fun findLoop :: "unicode_tables \<Rightarrow> keyMatcher \<Rightarrow> string \<Rightarrow> nat \<Rightarrow> string \<Rightarrow> bool \<times> string" where
  "findLoop ut m key s [] = (False, [])"
| "findLoop ut m key s (b # bs) =
    (if RuneSelf \<le> byte b then (let lowered = ToLower ut key in (walk m 0 lowered, lowered))
     else (let s' = km_step m s (lowerASCIIByte b) in
       if km_hit m ! s' then (True, []) else findLoop ut m key s' bs))"

definition find_key :: "unicode_tables \<Rightarrow> keyMatcher \<Rightarrow> string \<Rightarrow> bool \<times> string" where
  "find_key ut m key = (if km_always m then (True, []) else findLoop ut m key 0 key)"

definition orByte :: "char \<Rightarrow> nat \<Rightarrow> nat" where
  "orByte c k = (byte c OR k)"

definition containsFoldPW :: "string \<Rightarrow> bool" where
  "containsFoldPW key \<longleftrightarrow> list_ex (\<lambda>i. orByte (key ! i) 0x20 = byte CHR ''p'' \<and> orByte (key ! (i + 1)) 0x20 = byte CHR ''w'')
     [0 ..< length key - 1]"

subsection \<open>Longest suffixes in a set of words\<close>

named_theorems suffixes "longest suffixes in a prefix-closed set"

fun lsuf :: "string set \<Rightarrow> string \<Rightarrow> string" where
  "lsuf N [] = []"
| "lsuf N (a # w) = (if a # w \<in> N then a # w else lsuf N w)"

lemma lsuf_suffix [suffixes]: "suffix (lsuf N w) w"
  by (induction w) (auto intro: suffix_ConsI)

lemma lsuf_mem [suffixes]: "[] \<in> N \<Longrightarrow> lsuf N w \<in> N"
  by (induction w) auto

lemma lsuf_self [suffixes]: "w \<in> N \<Longrightarrow> lsuf N w = w"
  by (cases w) auto

lemma lsuf_greatest [suffixes]: "u \<in> N \<Longrightarrow> suffix u w \<Longrightarrow> suffix u (lsuf N w)"
  by (induction w) (auto simp: suffix_Cons)

lemma lsuf_unique:
  assumes "[] \<in> N" and "\<And>u. u \<in> N \<Longrightarrow> suffix u v \<longleftrightarrow> suffix u w"
  shows "lsuf N v = lsuf N w"
proof -
  have "suffix (lsuf N v) (lsuf N w)"
    using assms lsuf_greatest lsuf_mem lsuf_suffix by metis
  moreover have "suffix (lsuf N w) (lsuf N v)"
    using assms lsuf_greatest lsuf_mem lsuf_suffix by metis
  ultimately show ?thesis by (simp add: suffix_order.antisym)
qed

definition prefix_closed :: "string set \<Rightarrow> bool" where
  "prefix_closed N \<longleftrightarrow> [] \<in> N \<and> (\<forall>w b. w @ [b] \<in> N \<longrightarrow> w \<in> N)"

lemma lsuf_snoc [suffixes]:
  assumes "prefix_closed N"
  shows "lsuf N (w @ [b]) = lsuf N (lsuf N w @ [b])"
proof (rule lsuf_unique)
  show "[] \<in> N" using assms by (simp add: prefix_closed_def)
  fix u assume u: "u \<in> N"
  show "suffix u (w @ [b]) \<longleftrightarrow> suffix u (lsuf N w @ [b])"
  proof (cases u rule: rev_cases)
    case (snoc u' c)
    then have "u' \<in> N" using assms u by (auto simp: prefix_closed_def)
    then have "suffix u' w \<longleftrightarrow> suffix u' (lsuf N w)"
      using lsuf_greatest lsuf_suffix suffix_order.trans by metis
    then show ?thesis using snoc by simp
  qed simp
qed

lemma lsuf_fail [suffixes]:
  assumes "prefix_closed N" and "u \<noteq> []" and "u @ [b] \<notin> N"
  shows "lsuf N (u @ [b]) = lsuf N (lsuf N (tl u) @ [b])"
  using assms lsuf_snoc [OF assms(1), of "tl u" b] by (cases u) auto

subsection \<open>Byte classes\<close>

text \<open>
  What the automaton needs of the byte classes: the columns below \<open>n\<close> other than 0 stand for
  the bytes of the alphabet \<open>A\<close>, one each, and column 0 for every other byte.
\<close>

locale byte_classes =
  fixes cl :: "char \<Rightarrow> nat" and n :: nat and A :: "char set"
  assumes cl_less: "cl b < n"
    and cl_alpha: "cl b \<noteq> 0 \<longleftrightarrow> b \<in> A"
    and cl_inj: "cl a = cl b \<Longrightarrow> a \<in> A \<Longrightarrow> a = b"
    and cl_surj: "c < n \<Longrightarrow> c \<noteq> 0 \<Longrightarrow> \<exists>b\<in>A. cl b = c"
begin

lemma n_pos: "0 < n"
  using cl_less [of "CHR 0x00"] by simp

lemma cl_notin: "b \<notin> A \<Longrightarrow> cl b = 0"
  using cl_alpha by blast

lemma column_cases:
  assumes "c < n"
  obtains "c = 0" | b where "b \<in> A" "c = cl b"
  using cl_surj assms by (cases "c = 0") auto

end

definition class_inv :: "char set \<Rightarrow> (char \<Rightarrow> nat) \<times> nat \<Rightarrow> bool" where
  "class_inv A st \<longleftrightarrow> finite A \<and> snd st = Suc (card A) \<and> bij_betw (fst st) A {1 ..< snd st}
     \<and> (\<forall>b. b \<notin> A \<longrightarrow> fst st b = 0)"

lemma classStep_inv:
  assumes "class_inv A st" and "card A < 255"
  shows "class_inv (insert b A) (classStep st b)"
proof -
  obtain cl n where st: "st = (cl, n)" by (cases st)
  have inv: "finite A" "n = Suc (card A)" "bij_betw cl A {1 ..< n}" "\<And>b. b \<notin> A \<Longrightarrow> cl b = 0"
    using assms(1) by (auto simp: class_inv_def st)
  show ?thesis
  proof (cases "b \<in> A")
    case True
    then have "cl b \<noteq> 0" using bij_betwE [OF inv(3)] by force
    then show ?thesis using assms(1) True by (simp add: classStep_def st insert_absorb)
  next
    case False
    have "bij_betw (cl(b := n)) A {1 ..< n}"
      using inv(3) False by (subst bij_betw_cong [of A "cl(b := n)" cl]) auto
    then have "bij_betw (cl(b := n)) (insert b A) (insert n {1 ..< n})"
      using notIn_Un_bij_betw [of b A "cl(b := n)" "{1 ..< n}"] False by simp
    moreover have "insert n {1 ..< n} = {1 ..< Suc n}" using inv(2) by auto
    ultimately show ?thesis
      using inv False assms(2) by (simp add: class_inv_def classStep_def st)
  qed
qed

lemma card_lower_bytes: "card {c :: char. \<not> (CHR ''A'' \<le> c \<and> c \<le> CHR ''Z'')} < 255"
proof -
  have "card {c :: char. \<not> (CHR ''A'' \<le> c \<and> c \<le> CHR ''Z'')} \<le> card (UNIV - {CHR ''A'', CHR ''B''} :: char set)"
    by (rule card_mono) (auto simp: less_eq_char_def)
  also have "\<dots> = 254" by (simp add: card_Diff_subset card_UNIV_char)
  finally show ?thesis by simp
qed

lemma classes_inv: "\<not> list_ex hasASCIIUpper pats \<Longrightarrow> class_inv (set (concat pats)) (classes pats)"
proof -
  assume no: "\<not> list_ex hasASCIIUpper pats"
  have "set bs \<subseteq> {c. \<not> (CHR ''A'' \<le> c \<and> c \<le> CHR ''Z'')} \<Longrightarrow>
      class_inv (set bs) (foldl classStep ((\<lambda>_. 0), 1) bs)" for bs
  proof (induction bs rule: rev_induct)
    case (snoc b bs)
    have "card (set bs) < 255"
      using snoc.prems card_mono [OF finite, of "set bs" "{c. \<not> (CHR ''A'' \<le> c \<and> c \<le> CHR ''Z'')}"]
        card_lower_bytes by simp
    then show ?case using classStep_inv snoc by simp
  qed (simp add: class_inv_def bij_betw_def)
  moreover have "set (concat pats) \<subseteq> {c. \<not> (CHR ''A'' \<le> c \<and> c \<le> CHR ''Z'')}"
    using no by (auto simp: list_ex_iff hasASCIIUpper_def)
  ultimately show ?thesis unfolding classes_def by blast
qed

lemma patterns_no_upper: "\<not> list_ex hasASCIIUpper (patterns keys)"
  by (auto simp: patterns_def list_ex_iff)

interpretation classes: byte_classes "fst (classes (patterns keys))" "snd (classes (patterns keys))"
  "set (concat (patterns keys))" for keys
proof -
  note inv = classes_inv [OF patterns_no_upper [of keys], unfolded class_inv_def]
  let ?cl = "fst (classes (patterns keys))" and ?A = "set (concat (patterns keys))"
  have bij: "bij_betw ?cl ?A {1 ..< snd (classes (patterns keys))}" using inv by blast
  show "byte_classes ?cl (snd (classes (patterns keys))) ?A"
  proof
    fix b
    show "?cl b < snd (classes (patterns keys))"
      using inv bij_betwE [OF bij] by (cases "b \<in> ?A") auto
    show "?cl b \<noteq> 0 \<longleftrightarrow> b \<in> ?A" using inv bij_betwE [OF bij] by force
  next
    fix a b assume "?cl a = ?cl b" "a \<in> ?A"
    then show "a = b"
      using inv bij_betwE [OF bij] bij_betw_imp_inj_on [OF bij]
      by (metis atLeastLessThan_iff inj_onD not_one_le_zero)
  next
    fix c assume "c < snd (classes (patterns keys))" "c \<noteq> 0"
    then show "\<exists>b\<in>?A. ?cl b = c"
      using bij_betw_imp_surj_on [OF bij] by (metis atLeastLessThan_iff imageE less_one not_le)
  qed
qed

subsection \<open>The trie in the flat table\<close>

text \<open>
  \<open>nodes\<close> lists the words of the trie in the order their rows were added; the state of a word
  is the offset of its row.
\<close>

definition pos :: "string list \<Rightarrow> string \<Rightarrow> nat" where
  "pos nodes w = length (takeWhile (\<lambda>x. x \<noteq> w) nodes)"

definition sta :: "nat \<Rightarrow> string list \<Rightarrow> string \<Rightarrow> nat" where
  "sta n nodes w = pos nodes w * n"

named_theorems cells "cells of the flat transition table"

lemma pos_less [cells]: "w \<in> set nodes \<Longrightarrow> pos nodes w < length nodes"
  by (induction nodes) (auto simp: pos_def)

lemma nth_pos [cells]: "w \<in> set nodes \<Longrightarrow> nodes ! pos nodes w = w"
  by (induction nodes) (auto simp: pos_def)

lemma pos_append [cells]: "w \<in> set nodes \<Longrightarrow> pos (nodes @ xs) w = pos nodes w"
  by (simp add: pos_def takeWhile_append1 [of w])

lemma pos_new [cells]: "w \<notin> set nodes \<Longrightarrow> pos (nodes @ [w]) w = length nodes"
  by (induction nodes) (auto simp: pos_def)

lemma sta_append [cells]: "w \<in> set nodes \<Longrightarrow> sta n (nodes @ xs) w = sta n nodes w"
  by (simp add: sta_def pos_append)

lemma sta_root [cells]: "nodes \<noteq> [] \<Longrightarrow> hd nodes = [] \<Longrightarrow> sta n nodes [] = 0"
  by (cases nodes) (auto simp: sta_def pos_def)

lemma cell_less [cells]: "w \<in> set nodes \<Longrightarrow> c < n \<Longrightarrow> sta n nodes w + c < length nodes * n"
proof -
  assume "w \<in> set nodes" and c: "c < n"
  then have "Suc (pos nodes w) \<le> length nodes" using pos_less by (simp add: Suc_le_eq)
  then have "Suc (pos nodes w) * n \<le> length nodes * n" by (rule mult_le_mono1)
  then show ?thesis using c by (simp add: sta_def)
qed

lemma cell_eq [cells]:
  assumes "u \<in> set nodes" "v \<in> set nodes" "c < n" "d < n"
  shows "sta n nodes u + c = sta n nodes v + d \<longleftrightarrow> u = v \<and> c = d"
proof
  assume e: "sta n nodes u + c = sta n nodes v + d"
  have "(pos nodes u * n + c) div n = pos nodes u" "(pos nodes v * n + d) div n = pos nodes v"
    using assms by simp_all
  then have "pos nodes u = pos nodes v" using e by (simp add: sta_def)
  then show "u = v \<and> c = d" using assms nth_pos e by (metis add_left_cancel)
qed simp

lemma cell_update [cells]:
  assumes "u \<in> set nodes" "v \<in> set nodes" "c < n" "d < n" "length nx = length nodes * n"
  shows "nx[sta n nodes u + c := x] ! (sta n nodes v + d) =
     (if u = v \<and> c = d then x else nx ! (sta n nodes v + d))"
  using assms cell_eq [OF assms(1-4)] cell_less [OF assms(1,3)] by (auto simp: nth_list_update)

definition trie_ok ::
  "(char \<Rightarrow> nat) \<Rightarrow> nat \<Rightarrow> char set \<Rightarrow> string list \<Rightarrow> table \<Rightarrow> string set \<Rightarrow> bool" where
  "trie_ok cl n A nodes T S \<longleftrightarrow> prefix_closed (set nodes) \<and> nodes \<noteq> [] \<and> hd nodes = []
     \<and> length (fst T) = length nodes * n \<and> length (snd T) = length nodes * n
     \<and> S \<subseteq> set nodes \<and> (\<forall>u\<in>set nodes. set u \<subseteq> A \<and> fst T ! sta n nodes u = None
         \<and> snd T ! sta n nodes u = (u \<in> S)
         \<and> (\<forall>b\<in>A. fst T ! (sta n nodes u + cl b) =
              (if u @ [b] \<in> set nodes then Some (sta n nodes (u @ [b])) else None)))"

context byte_classes
begin

lemma trie_root: "trie_ok cl n A [[]] (snd (newState n ([], []))) {}"
  using n_pos cl_less by (simp add: trie_ok_def newState_def sta_def pos_def prefix_closed_def)

lemma new_node:
  assumes ok: "trie_ok cl n A nodes T S" and u: "u \<in> set nodes" and b: "b \<in> A"
    and new: "u @ [b] \<notin> set nodes"
  shows "trie_ok cl n A (nodes @ [u @ [b]])
    ((fst T @ replicate n None)[sta n nodes u + cl b := Some (length (fst T))], snd T @ replicate n False) S"
proof -
  let ?w = "u @ [b]"
  let ?nodes = "nodes @ [?w]"
  let ?nx = "(fst T @ replicate n None)[sta n nodes u + cl b := Some (length (fst T))]"
  have len: "length (fst T) = length nodes * n" "length (snd T) = length nodes * n"
    using ok by (auto simp: trie_ok_def)
  have w: "sta n ?nodes ?w = length nodes * n" using new by (simp add: sta_def pos_new)
  have upd: "?nx ! (sta n ?nodes v + d) =
      (if u = v \<and> cl b = d then Some (sta n ?nodes ?w) else (fst T @ replicate n None) ! (sta n ?nodes v + d))"
    if "v \<in> set ?nodes" "d < n" for v d
    using cell_update [of u ?nodes v "cl b" n d "fst T @ replicate n None"] that u len w cl_less
    by (auto simp: sta_append)
  have old: "(fst T @ replicate n None) ! (sta n ?nodes v + d) = fst T ! (sta n nodes v + d)"
    "sta n nodes v + d < length nodes * n" if "v \<in> set nodes" "d < n" for v d
    using that cell_less [OF that] by (simp_all add: nth_append len sta_append)
  have fresh: "(fst T @ replicate n None) ! (sta n ?nodes ?w + d) = None" if "d < n" for d
    using that by (simp add: w nth_append len)
  have b0: "cl b \<noteq> 0" using b cl_alpha by blast
  have "\<forall>v\<in>set ?nodes. set v \<subseteq> A \<and> ?nx ! sta n ?nodes v = None
      \<and> (snd T @ replicate n False) ! sta n ?nodes v = (v \<in> S)
      \<and> (\<forall>a\<in>A. ?nx ! (sta n ?nodes v + cl a) =
           (if v @ [a] \<in> set ?nodes then Some (sta n ?nodes (v @ [a])) else None))"
  proof
    fix v assume v: "v \<in> set ?nodes"
    show "set v \<subseteq> A \<and> ?nx ! sta n ?nodes v = None
      \<and> (snd T @ replicate n False) ! sta n ?nodes v = (v \<in> S)
      \<and> (\<forall>a\<in>A. ?nx ! (sta n ?nodes v + cl a) =
           (if v @ [a] \<in> set ?nodes then Some (sta n ?nodes (v @ [a])) else None))"
    proof (cases "v \<in> set nodes")
      case True
      have "?nx ! (sta n ?nodes v + cl a) =
          (if v @ [a] \<in> set ?nodes then Some (sta n ?nodes (v @ [a])) else None)" if a: "a \<in> A" for a
        using ok True a new upd [OF v cl_less, of a] old(1) [OF True cl_less, of a] cl_inj [OF _ b, of a]
        by (auto simp: trie_ok_def sta_append)
      then show ?thesis
        using ok True upd [OF v n_pos] old [OF True n_pos] b0
        by (auto simp: trie_ok_def nth_append len sta_append)
    next
      case False
      then have vw: "v = ?w" using v by simp
      have child: "v @ [a] \<notin> set ?nodes" for a
      proof -
        have "v @ [a] \<notin> set nodes" using ok False unfolding trie_ok_def prefix_closed_def by blast
        then show ?thesis using vw by simp
      qed
      have "v \<notin> S" using ok False by (auto simp: trie_ok_def)
      moreover have "set v \<subseteq> A" using ok u b vw by (auto simp: trie_ok_def)
      moreover have none: "?nx ! (sta n ?nodes v + d) = None" if "d < n" for d
        using upd [OF v that] fresh [OF that] vw by auto
      ultimately show ?thesis
        using child none [OF n_pos] cl_less n_pos w vw by (auto simp: nth_append len)
    qed
  qed
  moreover have "prefix_closed (set ?nodes)" using ok u by (auto simp: trie_ok_def prefix_closed_def)
  ultimately show ?thesis using ok len by (auto simp: trie_ok_def)
qed

lemma trieStep_ok:
  assumes ok: "trie_ok cl n A nodes T S" and u: "u \<in> set nodes" and b: "b \<in> A"
  obtains zs T' where "trieStep cl n (T, sta n nodes u) b = (T', sta n (nodes @ zs) (u @ [b]))"
    "trie_ok cl n A (nodes @ zs) T' S" "u @ [b] \<in> set (nodes @ zs)"
proof (cases "u @ [b] \<in> set nodes")
  case True
  then have "fst T ! (sta n nodes u + cl b) = Some (sta n nodes (u @ [b]))"
    using ok u b by (simp add: trie_ok_def)
  then show ?thesis using that [of T "[]"] ok True by (simp add: trieStep_def)
next
  case False
  then have "fst T ! (sta n nodes u + cl b) = None" using ok u b by (simp add: trie_ok_def)
  moreover have "sta n (nodes @ [u @ [b]]) (u @ [b]) = length (fst T)"
    using ok False by (simp add: sta_def pos_new trie_ok_def)
  ultimately show ?thesis
    using that [of _ "[u @ [b]]", OF _ new_node [OF ok u b False]]
    by (simp add: trieStep_def newState_def)
qed

lemma trieSteps_ok:
  "trie_ok cl n A nodes T S \<Longrightarrow> u \<in> set nodes \<Longrightarrow> set p \<subseteq> A \<Longrightarrow>
     \<exists>zs T'. foldl (trieStep cl n) (T, sta n nodes u) p = (T', sta n (nodes @ zs) (u @ p))
       \<and> trie_ok cl n A (nodes @ zs) T' S \<and> u @ p \<in> set (nodes @ zs)"
proof (induction p arbitrary: nodes T u)
  case Nil
  then show ?case by (metis append_Nil2 foldl_Nil)
next
  case (Cons b p)
  obtain zs T1 where s: "trieStep cl n (T, sta n nodes u) b = (T1, sta n (nodes @ zs) (u @ [b]))"
    "trie_ok cl n A (nodes @ zs) T1 S" "u @ [b] \<in> set (nodes @ zs)"
    using trieStep_ok [OF Cons.prems(1,2)] Cons.prems(3) by (metis list.set_intros(1) subsetD)
  from Cons.IH [OF s(2,3)] Cons.prems(3) obtain zs' T2 where
    "foldl (trieStep cl n) (T1, sta n (nodes @ zs) (u @ [b])) p = (T2, sta n ((nodes @ zs) @ zs') ((u @ [b]) @ p))"
    "trie_ok cl n A ((nodes @ zs) @ zs') T2 S" "(u @ [b]) @ p \<in> set ((nodes @ zs) @ zs')" by auto
  then show ?case using s(1) by (intro exI [of _ "zs @ zs'"] exI [of _ T2]) simp
qed

lemma mark_node:
  assumes ok: "trie_ok cl n A nodes T S" and p: "p \<in> set nodes"
  shows "trie_ok cl n A nodes (fst T, (snd T)[sta n nodes p := True]) (insert p S)"
proof -
  have "(snd T)[sta n nodes p := True] ! sta n nodes u = (u \<in> insert p S)" if "u \<in> set nodes" for u
    using that p ok cell_eq [OF p that n_pos n_pos] cell_less [OF p n_pos]
    by (auto simp: trie_ok_def nth_list_update)
  then show ?thesis using ok p by (simp add: trie_ok_def)
qed

lemma insertPat_ok:
  assumes "trie_ok cl n A nodes T S" and "set p \<subseteq> A"
  shows "\<exists>zs. trie_ok cl n A (nodes @ zs) (insertPat cl n T p) (insert p S)"
proof -
  have root: "[] \<in> set nodes" "sta n nodes [] = 0"
    using assms(1) sta_root by (auto simp: trie_ok_def prefix_closed_def)
  then obtain zs T' where t: "foldl (trieStep cl n) (T, 0) p = (T', sta n (nodes @ zs) p)"
    "trie_ok cl n A (nodes @ zs) T' S" "p \<in> set (nodes @ zs)"
    using trieSteps_ok [OF assms(1) root(1) assms(2)] by auto
  have "insertPat cl n T p = (fst T', (snd T')[sta n (nodes @ zs) p := True])"
    using t(1) by (simp add: insertPat_def)
  with mark_node [OF t(2,3)] show ?thesis by (intro exI [of _ zs]) simp
qed

lemma trie_pats_ok:
  "set (concat pats) \<subseteq> A \<Longrightarrow> \<exists>nodes. trie_ok cl n A nodes (trie cl n pats) (set pats)"
proof (induction pats rule: rev_induct)
  case Nil
  then show ?case using trie_root by (auto simp: trie_def)
next
  case (snoc p pats)
  then obtain nodes where "trie_ok cl n A nodes (trie cl n pats) (set pats)" by auto
  with insertPat_ok [OF this, of p] snoc.prems show ?case by (auto simp: trie_def)
qed

end

subsection \<open>The breadth-first completion\<close>

definition row_done :: "(char \<Rightarrow> nat) \<Rightarrow> nat \<Rightarrow> char set \<Rightarrow> string list \<Rightarrow> nat option list \<Rightarrow> string \<Rightarrow> bool" where
  "row_done cl n A nodes nx u \<longleftrightarrow> nx ! sta n nodes u = Some 0
     \<and> (\<forall>b\<in>A. nx ! (sta n nodes u + cl b) = Some (sta n nodes (lsuf (set nodes) (u @ [b]))))"

definition row_trie :: "(char \<Rightarrow> nat) \<Rightarrow> nat \<Rightarrow> char set \<Rightarrow> string list \<Rightarrow> nat option list \<Rightarrow> string \<Rightarrow> bool" where
  "row_trie cl n A nodes nx u \<longleftrightarrow> nx ! sta n nodes u = None
     \<and> (\<forall>b\<in>A. nx ! (sta n nodes u + cl b) =
          (if u @ [b] \<in> set nodes then Some (sta n nodes (u @ [b])) else None))"

definition rows_same :: "nat \<Rightarrow> string list \<Rightarrow> string \<Rightarrow> nat option list \<Rightarrow> nat option list \<Rightarrow> bool" where
  "rows_same n nodes u nx nx' \<longleftrightarrow>
     (\<forall>v\<in>set nodes. v \<noteq> u \<longrightarrow> (\<forall>c<n. nx' ! (sta n nodes v + c) = nx ! (sta n nodes v + c)))"

text \<open>What the loop over the first \<open>m\<close> columns of the row of \<open>u\<close> has done.\<close>

definition columns_done ::
  "(char \<Rightarrow> nat) \<Rightarrow> nat \<Rightarrow> char set \<Rightarrow> string list \<Rightarrow> string \<Rightarrow> nat \<Rightarrow> bfsState \<Rightarrow> bfsState \<Rightarrow> bool" where
  "columns_done cl n A nodes u m st st' \<longleftrightarrow>
     length (b_next st') = length (b_next st) \<and> b_hit st' = b_hit st
     \<and> rows_same n nodes u (b_next st) (b_next st')
     \<and> (0 < m \<longrightarrow> b_next st' ! sta n nodes u = Some 0)
     \<and> (\<forall>b\<in>A. b_next st' ! (sta n nodes u + cl b) =
          (if cl b < m then Some (sta n nodes (lsuf (set nodes) (u @ [b])))
           else b_next st ! (sta n nodes u + cl b)))
     \<and> (m = 0 \<longrightarrow> b_next st' = b_next st)
     \<and> (\<exists>ks. b_queue st' = b_queue st @ map (sta n nodes) ks \<and> distinct ks
          \<and> set ks = {u @ [b] | b. b \<in> A \<and> cl b < m \<and> u @ [b] \<in> set nodes}
          \<and> (\<forall>w\<in>set ks. b_fail st' (sta n nodes w) = sta n nodes (lsuf (set nodes) (tl w)))
          \<and> (\<forall>t. t \<notin> sta n nodes ` set ks \<longrightarrow> b_fail st' t = b_fail st t))"

lemma sta_inj [cells]:
  "u \<in> set nodes \<Longrightarrow> v \<in> set nodes \<Longrightarrow> 0 < n \<Longrightarrow> sta n nodes u = sta n nodes v \<longleftrightarrow> u = v"
  using cell_eq [of u nodes v 0 n 0] by simp

context byte_classes
begin

lemma column_fill:
  assumes m: "m < n" and c: "columns_done cl n A nodes u m st st'"
    and u: "u \<in> set nodes" and len: "length (b_next st) = length nodes * n"
    and x: "x = Some (if m = 0 then 0 else y)"
    and y: "\<And>b. b \<in> A \<Longrightarrow> cl b = m \<Longrightarrow> y = sta n nodes (lsuf (set nodes) (u @ [b])) \<and> u @ [b] \<notin> set nodes"
  shows "columns_done cl n A nodes u (Suc m) st (st'\<lparr>b_next := (b_next st')[sta n nodes u + m := x]\<rparr>)"
proof -
  let ?nx = "(b_next st')[sta n nodes u + m := x]"
  have len': "length (b_next st') = length nodes * n" using c len by (simp add: columns_done_def)
  have upd: "?nx ! (sta n nodes v + d) = (if u = v \<and> m = d then x else b_next st' ! (sta n nodes v + d))"
    if "v \<in> set nodes" "d < n" for v d
    by (rule cell_update [OF u that(1) m that(2) len'])
  have rows: "rows_same n nodes u (b_next st) ?nx"
    using c upd by (auto simp: columns_done_def rows_same_def)
  have zero: "?nx ! sta n nodes u = Some 0"
    using c upd [OF u n_pos] x by (cases "m = 0") (auto simp: columns_done_def)
  have cols: "?nx ! (sta n nodes u + cl b) =
      (if cl b < Suc m then Some (sta n nodes (lsuf (set nodes) (u @ [b]))) else b_next st ! (sta n nodes u + cl b))"
    if b: "b \<in> A" for b
    using c upd [OF u cl_less, of b] x y [OF b] b cl_alpha [of b]
    by (auto simp: columns_done_def less_Suc_eq)
  have "{u @ [b] | b. b \<in> A \<and> cl b < Suc m \<and> u @ [b] \<in> set nodes} =
      {u @ [b] | b. b \<in> A \<and> cl b < m \<and> u @ [b] \<in> set nodes}"
    using y by (auto simp: less_Suc_eq)
  then show ?thesis using c rows zero cols by (simp add: columns_done_def)
qed

lemma columns_cell:
  assumes "columns_done cl n A nodes u m st st'" and m: "m < n"
  shows "b_next st' ! (sta n nodes u + m) = b_next st ! (sta n nodes u + m)"
  using m
proof (cases rule: column_cases)
  case 1
  then show ?thesis using assms(1) by (simp add: columns_done_def)
next
  case (2 b)
  then show ?thesis using assms(1) by (simp add: columns_done_def)
qed

lemma column_child:
  assumes m: "m < n" and c: "columns_done cl n A nodes u m st st'"
    and u: "u \<in> set nodes" and b: "b \<in> A" "cl b = m" "u @ [b] \<in> set nodes"
    and cell: "b_next st ! (sta n nodes u + m) = Some (sta n nodes (u @ [b]))"
    and f: "f = sta n nodes (lsuf (set nodes) (tl (u @ [b])))"
  shows "columns_done cl n A nodes u (Suc m) st
    (st'\<lparr>b_fail := (b_fail st')(sta n nodes (u @ [b]) := f), b_queue := b_queue st' @ [sta n nodes (u @ [b])]\<rparr>)"
proof -
  obtain ks where ks: "b_queue st' = b_queue st @ map (sta n nodes) ks" "distinct ks"
    "set ks = {u @ [b] | b. b \<in> A \<and> cl b < m \<and> u @ [b] \<in> set nodes}"
    "\<forall>w\<in>set ks. b_fail st' (sta n nodes w) = sta n nodes (lsuf (set nodes) (tl w))"
    "\<forall>t. t \<notin> sta n nodes ` set ks \<longrightarrow> b_fail st' t = b_fail st t"
    using c unfolding columns_done_def by auto
  have m0: "m \<noteq> 0" using b cl_alpha by blast
  have new: "u @ [b] \<notin> set ks" using ks(3) b by auto
  have set': "set (ks @ [u @ [b]]) = {u @ [b] | b. b \<in> A \<and> cl b < Suc m \<and> u @ [b] \<in> set nodes}"
    using ks(3) b cl_inj [OF _ b(1)] by (auto simp: less_Suc_eq) metis
  have nodes: "w \<in> set nodes" if "w \<in> set ks" for w using that ks(3) by auto
  have cols: "b_next st' ! (sta n nodes u + cl a) =
      (if cl a < Suc m then Some (sta n nodes (lsuf (set nodes) (u @ [a]))) else b_next st ! (sta n nodes u + cl a))"
    if a: "a \<in> A" for a
  proof (cases "cl a = m")
    case True
    then have "a = b" using b cl_inj by metis
    have "b_next st' ! (sta n nodes u + cl a) = b_next st ! (sta n nodes u + cl a)"
      using columns_cell [OF c m] True by simp
    then show ?thesis using cell b lsuf_self [OF b(3)] \<open>a = b\<close> by simp
  next
    case False
    then show ?thesis using c a by (simp add: columns_done_def less_Suc_eq)
  qed
  let ?st = "st'\<lparr>b_fail := (b_fail st')(sta n nodes (u @ [b]) := f), b_queue := b_queue st' @ [sta n nodes (u @ [b])]\<rparr>"
  have fail': "\<forall>w\<in>set (ks @ [u @ [b]]). b_fail ?st (sta n nodes w) = sta n nodes (lsuf (set nodes) (tl w))"
    using ks(4) f new nodes sta_inj [OF _ b(3) n_pos] by auto
  have "b_queue ?st = b_queue st @ map (sta n nodes) (ks @ [u @ [b]])" using ks(1) by simp
  moreover have "distinct (ks @ [u @ [b]])" using ks(2) new by simp
  moreover have "\<forall>t. t \<notin> sta n nodes ` set (ks @ [u @ [b]]) \<longrightarrow> b_fail ?st t = b_fail st t" using ks(5) by simp
  ultimately have "\<exists>ks. b_queue ?st = b_queue st @ map (sta n nodes) ks \<and> distinct ks
      \<and> set ks = {u @ [b] | b. b \<in> A \<and> cl b < Suc m \<and> u @ [b] \<in> set nodes}
      \<and> (\<forall>w\<in>set ks. b_fail ?st (sta n nodes w) = sta n nodes (lsuf (set nodes) (tl w)))
      \<and> (\<forall>t. t \<notin> sta n nodes ` set ks \<longrightarrow> b_fail ?st t = b_fail st t)"
    using set' fail' by (intro exI [of _ "ks @ [u @ [b]]"] conjI)
  then show ?thesis using c m0 cols by (simp add: columns_done_def)
qed

lemma columns_start: "columns_done cl n A nodes u 0 st st"
  by (simp add: columns_done_def rows_same_def)

lemma edgeSteps:
  assumes pc: "prefix_closed (set nodes)" and u: "u \<in> set nodes" "u \<noteq> []"
    and len: "length (b_next st) = length nodes * n"
    and row: "row_trie cl n A nodes (b_next st) u"
    and fu: "fu = lsuf (set nodes) (tl u)" and fdone: "row_done cl n A nodes (b_next st) fu"
  shows "m \<le> n \<Longrightarrow> columns_done cl n A nodes u m st
    (foldl (edgeStep (sta n nodes u) (sta n nodes fu)) st [0 ..< m])"
proof (induction m)
  case 0
  then show ?case by (simp add: columns_start)
next
  case (Suc m)
  let ?st = "foldl (edgeStep (sta n nodes u) (sta n nodes fu)) st [0 ..< m]"
  have c: "columns_done cl n A nodes u m st ?st" and m: "m < n" using Suc by simp_all
  have "length fu < length u"
    using u(2) suffix_length_le [OF lsuf_suffix [of "set nodes" "tl u"]] by (cases u) (auto simp: fu)
  moreover have fin: "fu \<in> set nodes" using pc lsuf_mem by (auto simp: fu prefix_closed_def)
  ultimately have frow: "b_next ?st ! (sta n nodes fu + m) = b_next st ! (sta n nodes fu + m)"
    using c m by (auto simp: columns_done_def rows_same_def)
  have urow: "b_next ?st ! (sta n nodes u + m) = b_next st ! (sta n nodes u + m)"
    by (rule columns_cell [OF c m])
  have snoc: "lsuf (set nodes) (fu @ [b]) = lsuf (set nodes) (tl (u @ [b]))" for b
  proof -
    have "tl (u @ [b]) = tl u @ [b]" using u(2) by simp
    then show ?thesis by (simp only: fu lsuf_snoc [OF pc, of "tl u" b])
  qed
  have split: "foldl (edgeStep (sta n nodes u) (sta n nodes fu)) st [0 ..< Suc m] =
      edgeStep (sta n nodes u) (sta n nodes fu) ?st m" by simp
  from m show ?case
  proof (cases rule: column_cases)
    case 1
    have "edgeStep (sta n nodes u) (sta n nodes fu) ?st m =
        ?st\<lparr>b_next := (b_next ?st)[sta n nodes u + m := Some 0]\<rparr>"
      using 1 row fdone urow frow by (simp add: edgeStep_def row_trie_def row_done_def)
    moreover have no: "\<not> (b \<in> A \<and> cl b = m)" for b using 1 cl_alpha by auto
    have "columns_done cl n A nodes u (Suc m) st (?st\<lparr>b_next := (b_next ?st)[sta n nodes u + m := Some 0]\<rparr>)"
      by (rule column_fill [OF m c u(1) len, where y = 0]) (simp, use no in blast)
    ultimately show ?thesis unfolding split by simp
  next
    case (2 b)
    show ?thesis
    proof (cases "u @ [b] \<in> set nodes")
      case True
      have cell: "b_next st ! (sta n nodes u + m) = Some (sta n nodes (u @ [b]))"
        using row 2 True by (simp add: row_trie_def)
      have "the (b_next ?st ! (sta n nodes fu + m)) = sta n nodes (lsuf (set nodes) (tl (u @ [b])))"
        using frow fdone 2 snoc by (simp add: row_done_def)
      with column_child [OF m c u(1) 2(1) 2(2)[symmetric] True cell] show ?thesis
        unfolding split using cell urow by (simp add: edgeStep_def)
    next
      case False
      have x: "b_next ?st ! (sta n nodes fu + m) = Some (sta n nodes (lsuf (set nodes) (u @ [b])))"
        using frow fdone 2 by (simp only: row_done_def lsuf_fail [OF pc u(2) False, folded fu])
      have "b_next ?st ! (sta n nodes u + m) = None" using urow row 2 False by (simp add: row_trie_def)
      moreover have "m \<noteq> 0" using 2 cl_alpha by blast
      moreover have "a = b" if "a \<in> A" "cl a = m" for a using that 2 cl_inj by metis
      ultimately show ?thesis
        unfolding split using column_fill [OF m c u(1) len, of "b_next ?st ! (sta n nodes fu + m)"
            "sta n nodes (lsuf (set nodes) (u @ [b]))"] x False
        by (auto simp: edgeStep_def)
    qed
  qed
qed

lemma rootSteps:
  assumes pc: "prefix_closed (set nodes)" and root: "sta n nodes [] = 0"
    and len: "length (b_next st) = length nodes * n" and row: "row_trie cl n A nodes (b_next st) []"
  shows "m \<le> n \<Longrightarrow> columns_done cl n A nodes [] m st (foldl rootStep st [0 ..< m])"
proof (induction m)
  case 0
  then show ?case by (simp add: columns_start)
next
  case (Suc m)
  let ?st = "foldl rootStep st [0 ..< m]"
  have c: "columns_done cl n A nodes [] m st ?st" and m: "m < n" using Suc by simp_all
  have u: "[] \<in> set nodes" using pc by (simp add: prefix_closed_def)
  have urow: "b_next ?st ! m = b_next st ! m"
    using columns_cell [OF c m] root by simp
  have split: "foldl rootStep st [0 ..< Suc m] = rootStep ?st m" by simp
  from m show ?case
  proof (cases rule: column_cases)
    case 1
    have "rootStep ?st m = ?st\<lparr>b_next := (b_next ?st)[sta n nodes [] + m := Some 0]\<rparr>"
      using 1 row urow root by (simp add: rootStep_def row_trie_def)
    moreover have no: "\<not> (b \<in> A \<and> cl b = m)" for b using 1 cl_alpha by auto
    have "columns_done cl n A nodes [] (Suc m) st (?st\<lparr>b_next := (b_next ?st)[sta n nodes [] + m := Some 0]\<rparr>)"
      by (rule column_fill [OF m c u len, where y = 0]) (simp, use no in blast)
    ultimately show ?thesis unfolding split by simp
  next
    case (2 b)
    show ?thesis
    proof (cases "[b] \<in> set nodes")
      case True
      have cell: "b_next st ! (sta n nodes [] + m) = Some (sta n nodes ([] @ [b]))"
        using row 2 True by (simp add: row_trie_def)
      from column_child [OF m c u 2(1) 2(2)[symmetric] _ cell, of 0] True show ?thesis
        unfolding split using cell urow root by (simp add: rootStep_def)
    next
      case False
      have "b_next ?st ! m = None" using urow row 2 False root by (simp add: row_trie_def)
      then have "rootStep ?st m = ?st\<lparr>b_next := (b_next ?st)[sta n nodes [] + m := Some 0]\<rparr>"
        using root by (simp add: rootStep_def)
      moreover have "a = b" if "a \<in> A" "cl a = m" for a using that 2 cl_inj by metis
      then have "columns_done cl n A nodes [] (Suc m) st (?st\<lparr>b_next := (b_next ?st)[sta n nodes [] + m := Some 0]\<rparr>)"
        by (intro column_fill [OF m c u len, where y = 0]) (simp, use False root in fastforce)
      ultimately show ?thesis unfolding split by simp
    qed
  qed
qed

end

text \<open>
  The invariant of the breadth-first loop: \<open>D\<close> are the words whose rows are complete,
  \<open>Qs\<close> the words in the queue, in order of length.
\<close>

definition bfs_inv ::
  "(char \<Rightarrow> nat) \<Rightarrow> nat \<Rightarrow> char set \<Rightarrow> string list \<Rightarrow> string set \<Rightarrow> string set \<Rightarrow> string list \<Rightarrow> bfsState \<Rightarrow> bool" where
  "bfs_inv cl n A nodes S D Qs st \<longleftrightarrow>
     D \<subseteq> set nodes \<and> [] \<in> D \<and> set Qs \<subseteq> set nodes \<and> distinct Qs \<and> set Qs \<inter> D = {}
     \<and> b_queue st = map (sta n nodes) Qs
     \<and> length (b_next st) = length nodes * n \<and> length (b_hit st) = length nodes * n
     \<and> (\<forall>u\<in>D. row_done cl n A nodes (b_next st) u \<and> b_hit st ! sta n nodes u = (\<exists>p\<in>S. suffix p u))
     \<and> (\<forall>u\<in>set nodes - D. row_trie cl n A nodes (b_next st) u \<and> b_hit st ! sta n nodes u = (u \<in> S))
     \<and> (\<forall>u\<in>set Qs. b_fail st (sta n nodes u) = sta n nodes (lsuf (set nodes) (tl u)))
     \<and> (\<forall>u\<in>D. \<forall>b. u @ [b] \<in> set nodes \<longrightarrow> u @ [b] \<in> D \<union> set Qs)
     \<and> (\<forall>u b. u @ [b] \<in> D \<union> set Qs \<longrightarrow> u \<in> D)
     \<and> sorted (map length Qs) \<and> (\<forall>v\<in>set Qs. length v \<le> Suc (length (hd Qs)))"

lemma rows_same_done:
  "rows_same n nodes u nx nx' \<Longrightarrow> v \<in> set nodes \<Longrightarrow> v \<noteq> u \<Longrightarrow> (\<And>b. cl b < n) \<Longrightarrow>
     row_done cl n A nodes nx' v = row_done cl n A nodes nx v"
  unfolding rows_same_def row_done_def by (metis add.right_neutral gr_implies_not_zero neq0_conv)

lemma rows_same_trie:
  "rows_same n nodes u nx nx' \<Longrightarrow> v \<in> set nodes \<Longrightarrow> v \<noteq> u \<Longrightarrow> (\<And>b. cl b < n) \<Longrightarrow>
     row_trie cl n A nodes nx' v = row_trie cl n A nodes nx v"
  unfolding rows_same_def row_trie_def by (metis add.right_neutral gr_implies_not_zero neq0_conv)

lemma bfs_shorter_done:
  assumes inv: "bfs_inv cl n A nodes S D Qs st" and pc: "prefix_closed (set nodes)" and q: "Qs = [] \<or> length w < length (hd Qs)"
    and w: "w \<in> set nodes"
  shows "w \<in> D"
  using w q
proof (induction w rule: rev_induct)
  case Nil
  then show ?case using inv by (simp add: bfs_inv_def)
next
  case (snoc b w)
  then have "w \<in> D" using pc by (auto simp: prefix_closed_def)
  then have "w @ [b] \<in> D \<union> set Qs" using inv snoc.prems by (auto simp: bfs_inv_def)
  moreover have "w @ [b] \<notin> set Qs"
  proof
    assume m: "w @ [b] \<in> set Qs"
    then obtain q qs where Qs: "Qs = q # qs" by (cases Qs) auto
    then have "length q \<le> length (w @ [b])" using inv m by (auto simp: bfs_inv_def)
    then show False using snoc.prems(2) Qs by simp
  qed
  ultimately show ?case by blast
qed

lemma suffix_split: "u \<noteq> [] \<Longrightarrow> suffix p u \<longleftrightarrow> p = u \<or> suffix p (tl u)"
  by (cases u) (auto simp: suffix_Cons)

context byte_classes
begin

lemma columns_row_done:
  "columns_done cl n A nodes u n st st' \<Longrightarrow> row_done cl n A nodes (b_next st') u"
  using n_pos cl_less by (simp add: columns_done_def row_done_def)

lemma bfsStep_inv:
  assumes inv: "bfs_inv cl n A nodes S D (u # Qs) st" and pc: "prefix_closed (set nodes)"
    and S: "S \<subseteq> set nodes" and alpha: "\<forall>w\<in>set nodes. set w \<subseteq> A"
  shows "\<exists>ks. bfs_inv cl n A nodes S (insert u D) (Qs @ ks) (bfsStep n st)"
proof -
  let ?N = "set nodes"
  define fu where "fu = lsuf ?N (tl u)"
  have u: "u \<in> ?N" "u \<notin> D" "u \<noteq> []" using inv by (auto simp: bfs_inv_def)
  have lt: "length fu < length u"
    using u(3) suffix_length_le [OF lsuf_suffix [of ?N "tl u"]] by (cases u) (auto simp: fu_def)
  have fin: "fu \<in> ?N" using pc lsuf_mem by (auto simp: fu_def prefix_closed_def)
  have fD: "fu \<in> D" using bfs_shorter_done [OF inv pc _ fin] lt by simp
  define st1 where "st1 = st\<lparr>b_queue := map (sta n nodes) Qs,
    b_hit := (b_hit st)[sta n nodes u := b_hit st ! sta n nodes u \<or> b_hit st ! sta n nodes fu]\<rparr>"
  define st2 where "st2 = foldl (edgeStep (sta n nodes u) (sta n nodes fu)) st1 [0 ..< n]"
  have step: "bfsStep n st = st2"
    using inv by (simp add: bfsStep_def bfs_inv_def st2_def st1_def fu_def Let_def)
  have c: "columns_done cl n A nodes u n st1 st2"
    unfolding st2_def
    by (rule edgeSteps [OF pc u(1,3), where m = n])
      (use inv u fD in \<open>auto simp: st1_def fu_def bfs_inv_def\<close>)
  obtain ks where ks: "b_queue st2 = b_queue st1 @ map (sta n nodes) ks" "distinct ks"
    "set ks = {u @ [b] | b. b \<in> A \<and> cl b < n \<and> u @ [b] \<in> ?N}"
    "\<forall>w\<in>set ks. b_fail st2 (sta n nodes w) = sta n nodes (lsuf ?N (tl w))"
    "\<forall>t. t \<notin> sta n nodes ` set ks \<longrightarrow> b_fail st2 t = b_fail st1 t"
    using c unfolding columns_done_def by auto
  have rows: "rows_same n nodes u (b_next st) (b_next st2)" and hit: "b_hit st2 = b_hit st1"
    and len: "length (b_next st2) = length nodes * n"
    using c inv by (auto simp: columns_done_def st1_def bfs_inv_def)
  have fresh: "w \<notin> D \<union> set (u # Qs)" if "w \<in> set ks" for w
    using that ks(3) inv u(2) by (auto simp: bfs_inv_def)
  have hits: "b_hit st1 ! sta n nodes v =
      (if v \<in> insert u D then (\<exists>p\<in>S. suffix p v) else v \<in> S)" if v: "v \<in> ?N" for v
  proof (cases "v = u")
    case True
    have "b_hit st1 ! sta n nodes u = (u \<in> S \<or> (\<exists>p\<in>S. suffix p fu))"
      using inv u fD cell_less [OF u(1) n_pos] by (auto simp: st1_def bfs_inv_def)
    moreover have "suffix p fu \<longleftrightarrow> suffix p (tl u)" if "p \<in> S" for p
      using that S lsuf_greatest [of p ?N "tl u"] lsuf_suffix [of ?N "tl u"]
      by (auto simp: fu_def intro: suffix_order.trans)
    ultimately show ?thesis using True suffix_split [OF u(3)] by auto
  next
    case False
    then have "b_hit st1 ! sta n nodes v = b_hit st ! sta n nodes v"
      using sta_inj [OF u(1) v n_pos] by (simp add: st1_def)
    then show ?thesis using inv v False by (auto simp: bfs_inv_def)
  qed
  have iD: "D \<subseteq> ?N" "\<And>v. v \<in> D \<Longrightarrow> row_done cl n A nodes (b_next st) v"
    and iN: "\<And>v. v \<in> ?N - D \<Longrightarrow> row_trie cl n A nodes (b_next st) v"
    and iQ: "set (u # Qs) \<subseteq> ?N" "\<And>v. v \<in> set Qs \<Longrightarrow> b_fail st (sta n nodes v) = sta n nodes (lsuf ?N (tl v))"
    and iS: "sorted (map length Qs)" "\<And>v. v \<in> set Qs \<Longrightarrow> length u \<le> length v \<and> length v \<le> Suc (length u)"
    using inv unfolding bfs_inv_def by simp_all
  have kl: "length v = Suc (length u)" if "v \<in> set ks" for v using that ks(3) by auto
  have dn: "row_done cl n A nodes (b_next st2) v" if "v \<in> insert u D" for v
  proof (cases "v = u")
    case False
    then have "v \<in> D" using that by simp
    then show ?thesis using rows_same_done [where cl = cl, OF rows _ False cl_less] iD by blast
  qed (use columns_row_done [OF c] in simp)
  have trie: "row_trie cl n A nodes (b_next st2) v" if v: "v \<in> ?N - insert u D" for v
  proof -
    have "v \<in> ?N" "v \<noteq> u" "v \<in> ?N - D" using v by auto
    then show ?thesis using rows_same_trie [where cl = cl, OF rows _ _ cl_less] iN by blast
  qed
  have fail: "b_fail st2 (sta n nodes v) = sta n nodes (lsuf ?N (tl v))" if "v \<in> set (Qs @ ks)" for v
  proof (cases "v \<in> set ks")
    case False
    then have "v \<in> set Qs" using that by simp
    then have "sta n nodes v \<notin> sta n nodes ` set ks"
      using False sta_inj [OF _ _ n_pos] iQ(1) ks(3) by auto
    then show ?thesis using ks(5) iQ(2) [OF \<open>v \<in> set Qs\<close>] by (simp add: st1_def)
  qed (use ks(4) in simp)
  have "bfs_inv cl n A nodes S (insert u D) (Qs @ ks) st2"
    unfolding bfs_inv_def
  proof (intro conjI)
    show "distinct (Qs @ ks)" using inv ks(2) fresh by (auto simp: bfs_inv_def)
    show "set (Qs @ ks) \<inter> insert u D = {}" using inv fresh by (auto simp: bfs_inv_def)
    show "b_queue st2 = map (sta n nodes) (Qs @ ks)" using ks(1) by (simp add: st1_def)
    show "\<forall>v\<in>insert u D. \<forall>b. v @ [b] \<in> ?N \<longrightarrow> v @ [b] \<in> insert u D \<union> set (Qs @ ks)"
      using inv ks(3) alpha cl_less by (fastforce simp: bfs_inv_def)
    show "\<forall>v b. v @ [b] \<in> insert u D \<union> set (Qs @ ks) \<longrightarrow> v \<in> insert u D"
      using inv ks(3) by (auto simp: bfs_inv_def)
    have "sorted (map length ks)" using kl by (simp add: sorted_wrt_map sorted_wrt_iff_nth_less)
    then show "sorted (map length (Qs @ ks))" using iS kl by (auto simp: sorted_append)
    show "\<forall>v\<in>set (Qs @ ks). length v \<le> Suc (length (hd (Qs @ ks)))"
    proof
      fix v assume v: "v \<in> set (Qs @ ks)"
      have "length v \<le> Suc (length u)" using v iS kl by auto
      moreover have "length u \<le> length (hd (Qs @ ks))"
      proof -
        have "hd (Qs @ ks) \<in> set (Qs @ ks)" using v by (intro hd_in_set) auto
        then show ?thesis using iS kl by fastforce
      qed
      ultimately show "length v \<le> Suc (length (hd (Qs @ ks)))" by simp
    qed
    show "insert u D \<subseteq> ?N" using iD(1) u(1) by simp
    show "[] \<in> insert u D" "length (b_hit st2) = length nodes * n"
      using inv hit by (simp_all add: bfs_inv_def st1_def)
    show "set (Qs @ ks) \<subseteq> ?N" using iQ(1) ks(3) by auto
    show "length (b_next st2) = length nodes * n" by (rule len)
    show "\<forall>v\<in>insert u D. row_done cl n A nodes (b_next st2) v
        \<and> b_hit st2 ! sta n nodes v = (\<exists>p\<in>S. suffix p v)"
    proof
      fix v assume v: "v \<in> insert u D"
      then have "v \<in> ?N" using iD(1) u(1) by blast
      from hits [OF this] dn [OF v] v hit show "row_done cl n A nodes (b_next st2) v
        \<and> b_hit st2 ! sta n nodes v = (\<exists>p\<in>S. suffix p v)" by simp
    qed
    show "\<forall>v\<in>?N - insert u D. row_trie cl n A nodes (b_next st2) v \<and> b_hit st2 ! sta n nodes v = (v \<in> S)"
    proof
      fix v assume v: "v \<in> ?N - insert u D"
      then have "v \<in> ?N" by blast
      from hits [OF this] trie [OF v] v hit show "row_trie cl n A nodes (b_next st2) v
        \<and> b_hit st2 ! sta n nodes v = (v \<in> S)" by simp
    qed
    show "\<forall>v\<in>set (Qs @ ks). b_fail st2 (sta n nodes v) = sta n nodes (lsuf ?N (tl v))"
      using fail by blast
  qed
  then show ?thesis using step by auto
qed

lemma bfsLoop_inv:
  assumes "prefix_closed (set nodes)" and "S \<subseteq> set nodes" and "\<forall>w\<in>set nodes. set w \<subseteq> A"
  shows "bfs_inv cl n A nodes S D Qs st \<Longrightarrow> card (set nodes) \<le> card D + k \<Longrightarrow>
     bfs_inv cl n A nodes S (set nodes) [] (bfsLoop n k st)"
proof (induction k arbitrary: D Qs st)
  case 0
  then have "D = set nodes" by (intro card_seteq) (auto simp: bfs_inv_def)
  moreover from this have "Qs = []" using 0 by (cases Qs) (auto simp: bfs_inv_def)
  ultimately show ?case using 0 by simp
next
  case (Suc k)
  show ?case
  proof (cases Qs)
    case Nil
    then have "w \<in> D" if "w \<in> set nodes" for w
      using bfs_shorter_done [OF Suc.prems(1) assms(1) _ that] by simp
    then have "D = set nodes" using Suc.prems(1) by (auto simp: bfs_inv_def)
    then show ?thesis using Suc.prems(1) Nil by (simp add: bfs_inv_def)
  next
    case (Cons u Qs')
    obtain ks where inv: "bfs_inv cl n A nodes S (insert u D) (Qs' @ ks) (bfsStep n st)"
      using bfsStep_inv [OF Suc.prems(1)[unfolded Cons] assms] by auto
    have "finite D" "u \<notin> D"
      using Suc.prems(1) Cons finite_subset by (auto simp: bfs_inv_def)
    then have "card (set nodes) \<le> card (insert u D) + k" using Suc.prems(2) by simp
    from Suc.IH [OF inv this] show ?thesis
      using Suc.prems(1) Cons by (simp add: bfs_inv_def)
  qed
qed

lemma bfs_ok:
  assumes t: "trie_ok cl n A nodes T S" and "[] \<notin> S"
  shows "bfs_inv cl n A nodes S (set nodes) [] (bfs n T)"
proof -
  have pc: "prefix_closed (set nodes)" and S: "S \<subseteq> set nodes" and alpha: "\<forall>w\<in>set nodes. set w \<subseteq> A"
    using t by (auto simp: trie_ok_def)
  have root: "sta n nodes [] = 0" using t sta_root by (auto simp: trie_ok_def)
  have rin: "[] \<in> set nodes" using pc by (simp add: prefix_closed_def)
  define st0 where "st0 = \<lparr>b_next = fst T, b_hit = snd T, b_fail = (\<lambda>_. 0), b_queue = []\<rparr>"
  define st1 where "st1 = foldl rootStep st0 [0 ..< n]"
  have tr: "row_trie cl n A nodes (b_next st0) u \<and> b_hit st0 ! sta n nodes u = (u \<in> S)" if "u \<in> set nodes" for u
    using t that by (simp add: st0_def trie_ok_def row_trie_def)
  have len: "length (b_next st0) = length nodes * n" "length (b_hit st0) = length nodes * n"
    using t by (simp_all add: st0_def trie_ok_def)
  have c: "columns_done cl n A nodes [] n st0 st1"
    unfolding st1_def using rootSteps [OF pc root len(1), where m = n] tr [OF rin] by simp
  obtain ks where ks: "b_queue st1 = map (sta n nodes) ks" "distinct ks"
    "set ks = {[b] | b. b \<in> A \<and> cl b < n \<and> [b] \<in> set nodes}"
    "\<forall>w\<in>set ks. b_fail st1 (sta n nodes w) = sta n nodes (lsuf (set nodes) (tl w))"
    using c unfolding columns_done_def st0_def by auto
  have rows: "rows_same n nodes [] (b_next st0) (b_next st1)" and hit: "b_hit st1 = b_hit st0"
    and len1: "length (b_next st1) = length nodes * n"
    using c len by (auto simp: columns_done_def)
  have same: "length v = 1" if "v \<in> set ks" for v using that ks(3) by auto
  have "bfs_inv cl n A nodes S {[]} ks st1"
    unfolding bfs_inv_def
  proof (intro conjI)
    show "\<forall>u\<in>{[]}. row_done cl n A nodes (b_next st1) u \<and> b_hit st1 ! sta n nodes u = (\<exists>p\<in>S. suffix p u)"
      using columns_row_done [OF c] hit tr [OF rin] assms(2) by auto
    show "\<forall>u\<in>set nodes - {[]}. row_trie cl n A nodes (b_next st1) u \<and> b_hit st1 ! sta n nodes u = (u \<in> S)"
      using tr rows_same_trie [where cl = cl, OF rows _ _ cl_less] hit by auto
    show "sorted (map length ks)" using same by (simp add: sorted_wrt_map sorted_wrt_iff_nth_less)
    show "\<forall>v\<in>set ks. length v \<le> Suc (length (hd ks))" using same by auto
    show "\<forall>u\<in>{[]}. \<forall>b. u @ [b] \<in> set nodes \<longrightarrow> u @ [b] \<in> {[]} \<union> set ks"
      using ks(3) alpha cl_less by fastforce
  qed (use ks rin len len1 hit in auto)
  moreover have "card (set nodes) \<le> card {[] :: string} + length (fst T)"
  proof -
    have "card (set nodes) \<le> length nodes" by (rule card_length)
    also have "\<dots> \<le> length nodes * n" using n_pos by simp
    finally show ?thesis using len(1) by (simp add: st0_def)
  qed
  ultimately show ?thesis
    using bfsLoop_inv [OF pc S alpha] by (simp add: bfs_def st1_def st0_def)
qed

end

subsection \<open>The matcher finds exactly the entries\<close>

text \<open>What the two walks need of the finished table.\<close>

definition automaton :: "keyMatcher \<Rightarrow> nat \<Rightarrow> string list \<Rightarrow> string set \<Rightarrow> bool" where
  "automaton m n nodes S \<longleftrightarrow> prefix_closed (set nodes) \<and> sta n nodes [] = 0 \<and> S \<subseteq> set nodes
     \<and> (\<forall>u\<in>set nodes. km_hit m ! sta n nodes u = (\<exists>p\<in>S. suffix p u)
         \<and> (\<forall>b. km_step m (sta n nodes u) b = sta n nodes (lsuf (set nodes) (u @ [b]))))"

lemma newKeyMatcher_automaton:
  "\<exists>nodes. automaton (newKeyMatcher keys) (snd (classes (patterns keys))) nodes (set (patterns keys))"
proof -
  let ?pats = "patterns keys"
  let ?cl = "fst (classes ?pats)" and ?n = "snd (classes ?pats)" and ?A = "set (concat ?pats)"
  obtain nodes where t: "trie_ok ?cl ?n ?A nodes (trie ?cl ?n ?pats) (set ?pats)"
    using classes.trie_pats_ok [of ?pats keys] by auto
  have "[] \<notin> set ?pats" by (simp add: patterns_def)
  from classes.bfs_ok [OF t this]
  have inv: "bfs_inv ?cl ?n ?A nodes (set ?pats) (set nodes) [] (bfs ?n (trie ?cl ?n ?pats))" .
  have m: "km_class (newKeyMatcher keys) = ?cl" "km_next (newKeyMatcher keys) = b_next (bfs ?n (trie ?cl ?n ?pats))"
    "km_hit (newKeyMatcher keys) = b_hit (bfs ?n (trie ?cl ?n ?pats))"
    by (simp_all add: newKeyMatcher_def Let_def split: prod.splits)
  have root: "sta ?n nodes [] = 0" and pc: "prefix_closed (set nodes)" and S: "set ?pats \<subseteq> set nodes"
    and alpha: "\<forall>u\<in>set nodes. set u \<subseteq> ?A"
    using t sta_root by (auto simp: trie_ok_def)
  have row: "\<And>u. u \<in> set nodes \<Longrightarrow> row_done ?cl ?n ?A nodes (km_next (newKeyMatcher keys)) u"
    and hit: "\<And>u. u \<in> set nodes \<Longrightarrow> km_hit (newKeyMatcher keys) ! sta ?n nodes u = (\<exists>p\<in>set ?pats. suffix p u)"
    using inv m unfolding bfs_inv_def by simp_all
  have "km_step (newKeyMatcher keys) (sta ?n nodes u) b = sta ?n nodes (lsuf (set nodes) (u @ [b]))"
    if u: "u \<in> set nodes" for u b
  proof (cases "b \<in> ?A")
    case True
    then have "km_next (newKeyMatcher keys) ! (sta ?n nodes u + ?cl b) = Some (sta ?n nodes (lsuf (set nodes) (u @ [b])))"
      using row [OF u] unfolding row_done_def by blast
    then show ?thesis by (simp add: km_step_def m(1))
  next
    case False
    have "lsuf (set nodes) (u @ [b]) = []"
    proof (rule ccontr)
      assume ne: "lsuf (set nodes) (u @ [b]) \<noteq> []"
      then have "b \<in> set (lsuf (set nodes) (u @ [b]))"
        using lsuf_suffix [of "set nodes" "u @ [b]"] by (auto simp: suffix_snoc)
      moreover have "lsuf (set nodes) (u @ [b]) \<in> set nodes" using pc lsuf_mem by (auto simp: prefix_closed_def)
      ultimately show False using alpha False by blast
    qed
    moreover have "km_next (newKeyMatcher keys) ! sta ?n nodes u = Some 0"
      using row [OF u] unfolding row_done_def by blast
    ultimately show ?thesis using root classes.cl_notin [OF False] by (simp add: km_step_def m(1))
  qed
  then show ?thesis using root pc S hit by (intro exI [of _ nodes]) (simp add: automaton_def)
qed

definition seen :: "string set \<Rightarrow> string \<Rightarrow> string \<Rightarrow> bool" where
  "seen S w key \<longleftrightarrow> (\<exists>p\<in>S. \<exists>k. 0 < k \<and> k \<le> length key \<and> suffix p (w @ take k key))"

lemma seen_Nil [simp]: "\<not> seen S w []"
  by (simp add: seen_def)

lemma seen_Cons: "seen S w (b # key) \<longleftrightarrow> (\<exists>p\<in>S. suffix p (w @ [b])) \<or> seen S (w @ [b]) key"
proof
  assume "seen S w (b # key)"
  then obtain p k where p: "p \<in> S" "0 < k" "k \<le> Suc (length key)" "suffix p (w @ take k (b # key))"
    by (auto simp: seen_def)
  then obtain j where j: "k = Suc j" by (cases k) auto
  show "(\<exists>p\<in>S. suffix p (w @ [b])) \<or> seen S (w @ [b]) key"
    using p j by (cases "j = 0") (auto simp: seen_def intro!: exI [of _ j])
next
  assume r: "(\<exists>p\<in>S. suffix p (w @ [b])) \<or> seen S (w @ [b]) key"
  have "seen S w (b # key)" if "p \<in> S" "suffix p (w @ [b])" for p
    using that by (auto simp: seen_def intro!: bexI [of _ p] exI [of _ 1])
  moreover have "seen S w (b # key)" if "p \<in> S" "0 < k" "k \<le> length key" "suffix p ((w @ [b]) @ take k key)" for p k
    using that by (auto simp: seen_def intro!: bexI [of _ p] exI [of _ "Suc k"])
  ultimately show "seen S w (b # key)" using r by (auto simp: seen_def)
qed

lemma seen_append: "seen S w xs \<Longrightarrow> seen S w (xs @ ys)"
  by (induction xs arbitrary: w) (auto simp: seen_Cons)

lemma seen_sublist: "[] \<notin> S \<Longrightarrow> seen S [] key \<longleftrightarrow> (\<exists>p\<in>S. sublist p key)"
proof
  assume "seen S [] key"
  then obtain p k where "p \<in> S" "suffix p (take k key)" by (auto simp: seen_def)
  then show "\<exists>p\<in>S. sublist p key"
    by (metis append.assoc append_take_drop_id sublist_def suffix_def)
next
  assume ne: "[] \<notin> S" and "\<exists>p\<in>S. sublist p key"
  then obtain p xs ys where p: "p \<in> S" "key = xs @ p @ ys" by (auto simp: sublist_def)
  moreover have "0 < length p" using ne p by auto
  ultimately show "seen S [] key"
    by (auto simp: seen_def suffix_def intro!: bexI [of _ p] exI [of _ "length (xs @ p)"])
qed

lemma automaton_step:
  assumes "automaton m n nodes S"
  shows "km_step m (sta n nodes (lsuf (set nodes) w)) b = sta n nodes (lsuf (set nodes) (w @ [b]))"
    and "km_hit m ! sta n nodes (lsuf (set nodes) w) \<longleftrightarrow> (\<exists>p\<in>S. suffix p w)"
proof -
  have mem: "lsuf (set nodes) w \<in> set nodes" and pc: "prefix_closed (set nodes)" and S: "S \<subseteq> set nodes"
    using assms lsuf_mem by (auto simp: automaton_def prefix_closed_def)
  show "km_step m (sta n nodes (lsuf (set nodes) w)) b = sta n nodes (lsuf (set nodes) (w @ [b]))"
    using assms mem unfolding automaton_def lsuf_snoc [OF pc, of w b] by blast
  have "suffix p (lsuf (set nodes) w) \<longleftrightarrow> suffix p w" if "p \<in> S" for p
    using that S lsuf_greatest [of p "set nodes" w] lsuf_suffix [of "set nodes" w]
    by (auto intro: suffix_order.trans)
  then show "km_hit m ! sta n nodes (lsuf (set nodes) w) \<longleftrightarrow> (\<exists>p\<in>S. suffix p w)"
    using assms mem unfolding automaton_def by blast
qed

lemma walk_seen:
  "automaton m n nodes S \<Longrightarrow> walk m (sta n nodes (lsuf (set nodes) w)) key \<longleftrightarrow> seen S w key"
  by (induction key arbitrary: w) (auto simp: automaton_step seen_Cons Let_def simp del: suffix_snoc)

lemma walk_root: "automaton m n nodes S \<Longrightarrow> walk m 0 key \<longleftrightarrow> seen S [] key"
  using walk_seen [of m n nodes S "[]" key] by (simp add: automaton_def)

abbreviation is_ascii :: "char \<Rightarrow> bool" where
  "is_ascii c \<equiv> byte c < 128"

lemma findLoop_seen:
  "automaton m n nodes S \<Longrightarrow>
     fst (findLoop ut m key (sta n nodes (lsuf (set nodes) w)) rest) \<longleftrightarrow>
       seen S w (map lowerASCIIByte (takeWhile is_ascii rest))
       \<or> (hasNonASCII rest \<and> seen S [] (ToLower ut key))"
proof (induction rest arbitrary: w)
  case (Cons b rest)
  then show ?case
    by (auto simp: automaton_step walk_root seen_Cons Let_def hasNonASCII_def RuneSelf_def)
qed (simp add: hasNonASCII_def)

lemma ToLower_prefix:
  "hasNonASCII key \<Longrightarrow> \<exists>t. ToLower ut key = map lowerASCIIByte (takeWhile is_ascii key) @ t"
proof -
  assume "hasNonASCII key"
  have "concat (map (\<lambda>r. EncodeRune (ToLowerRune ut r)) (Runes key)) =
      map lowerASCIIByte (takeWhile is_ascii key)
      @ concat (map (\<lambda>r. EncodeRune (ToLowerRune ut r)) (Runes (dropWhile is_ascii key)))"
  proof (induction key)
    case (Cons c key)
    have "EncodeRune (ToLowerRune ut (byte c)) = [lowerASCIIByte c]" if "byte c < 128"
      using that by (auto simp: EncodeRune_def ToLowerRune_def lowerASCIIByte_def ascii_upper_def less_eq_char_def)
    then show ?case using Cons by simp
  qed simp
  then show ?thesis using \<open>hasNonASCII key\<close> by (auto simp: ToLower_def)
qed

lemma find_key_seen:
  assumes "automaton m n nodes S" and "\<not> km_always m"
  shows "fst (find_key ut m key) \<longleftrightarrow> seen S [] (ToLower ut key)"
proof -
  have f: "fst (find_key ut m key) \<longleftrightarrow> seen S [] (map lowerASCIIByte (takeWhile is_ascii key))
       \<or> (hasNonASCII key \<and> seen S [] (ToLower ut key))"
    using findLoop_seen [OF assms(1), of ut key "[]" key] assms by (simp add: find_key_def automaton_def)
  show ?thesis
  proof (cases "hasNonASCII key")
    case True
    then show ?thesis using f ToLower_prefix [OF True, of ut] seen_append by metis
  next
    case False
    then have "takeWhile is_ascii key = key"
      by (auto simp: hasNonASCII_def RuneSelf_def list_ex_iff not_le)
    from f [unfolded this] show ?thesis using False by (simp add: ToLower_def)
  qed
qed

lemma EncodeRune_bytes [runes]: "c \<in> set (EncodeRune r) \<Longrightarrow> byte c = r \<or> 128 \<le> byte c"
  by (auto simp: EncodeRune_def split: if_split_asm)

lemma ToLower_no_upper:
  assumes "\<And>r. 128 \<le> r \<Longrightarrow> \<not> ascii_upper (uToLower ut r)"
  shows "\<not> hasASCIIUpper (ToLower ut key)"
proof -
  have "\<not> (65 \<le> byte c \<and> byte c \<le> 90)" if "c \<in> set (EncodeRune (ToLowerRune ut r))" for c r
    using EncodeRune_bytes [OF that] assms [of r]
    by (auto simp: ToLowerRune_def ascii_upper_def split: if_split_asm)
  then show ?thesis
    by (auto simp: hasASCIIUpper_def ToLower_def list_ex_iff less_eq_char_def lowerASCIIByte_byte)
qed

text \<open>
  C5: The key matcher is exact. For every list of entries and every key, the automaton built by
  \<open>newKeyMatcher\<close> and walked by \<open>find\<close> answers whether the lowercased key contains one
  of the entries, byte for byte. The hypothesis is a fact of the Unicode tables: no code point
  outside ASCII is lowered to an ASCII capital.
\<close>

theorem find_key_exact:
  assumes "\<And>r. 128 \<le> r \<Longrightarrow> \<not> ascii_upper (uToLower ut r)"
  shows "fst (find_key ut (newKeyMatcher keys) key) \<longleftrightarrow> list_ex (Contains (ToLower ut key)) keys"
proof (cases "[] \<in> set keys")
  case True
  then show ?thesis
    by (auto simp: find_key_def newKeyMatcher_def Let_def Contains_sublist list_ex_iff split: prod.splits)
next
  case False
  then have alw: "\<not> km_always (newKeyMatcher keys)" by (simp add: newKeyMatcher_def Let_def split: prod.splits)
  obtain nodes where "automaton (newKeyMatcher keys) (snd (classes (patterns keys))) nodes (set (patterns keys))"
    using newKeyMatcher_automaton by blast
  from find_key_seen [OF this alw, of ut key]
  have "fst (find_key ut (newKeyMatcher keys) key) \<longleftrightarrow> (\<exists>p\<in>set (patterns keys). sublist p (ToLower ut key))"
    by (subst (asm) seen_sublist) (auto simp: patterns_def)
  moreover have "\<not> hasASCIIUpper p" if "sublist p (ToLower ut key)" for p
    using that ToLower_no_upper [OF assms, where key = key] by (auto simp: hasASCIIUpper_def list_ex_iff dest: set_mono_sublist)
  ultimately show ?thesis
    using False by (auto simp: patterns_def Contains_sublist list_ex_iff)
qed

theorem find_key_exact_witness:
  "fst (find_key ascii_only (newKeyMatcher [''token'', ''api_key'']) ''X-API_Key'')
   \<and> \<not> fst (find_key ascii_only (newKeyMatcher [''token'', ''api_key'']) ''monkey'')"
proof -
  have "\<not> ascii_upper (uToLower ascii_only r)" if "128 \<le> r" for r
    using that by (simp add: ascii_only_def ascii_upper_def)
  from find_key_exact [OF this] show ?thesis by (simp only:) code_simp
qed

lemma or_0x20:
  "orByte c 32 = 112 \<longleftrightarrow> lowerASCIIByte c = CHR ''p''" "orByte c 32 = 119 \<longleftrightarrow> lowerASCIIByte c = CHR ''w''"
proof -
  have "\<forall>k \<in> set [0 ..< 256]. (k OR 32 = (112::nat) \<longleftrightarrow> (if 65 \<le> k \<and> k \<le> 90 then k + 32 else k) = 112)
     \<and> (k OR 32 = (119::nat) \<longleftrightarrow> (if 65 \<le> k \<and> k \<le> 90 then k + 32 else k) = 119)"
    by code_simp
  then have "byte c OR 32 = (112::nat) \<longleftrightarrow> byte (lowerASCIIByte c) = 112"
    "byte c OR 32 = (119::nat) \<longleftrightarrow> byte (lowerASCIIByte c) = 119"
    by (simp_all add: lowerASCIIByte_byte)
  moreover have "byte (CHR ''p'') = 112" "byte (CHR ''w'') = 119" by simp_all
  then have "byte (lowerASCIIByte c) = 112 \<longleftrightarrow> lowerASCIIByte c = CHR ''p''"
    "byte (lowerASCIIByte c) = 119 \<longleftrightarrow> lowerASCIIByte c = CHR ''w''" by (metis of_char_eq_iff)+
  ultimately show "orByte c 32 = 112 \<longleftrightarrow> lowerASCIIByte c = CHR ''p''"
    "orByte c 32 = 119 \<longleftrightarrow> lowerASCIIByte c = CHR ''w''" by (simp_all add: orByte_def)
qed

lemma sublist_two: "sublist [a, b] s \<longleftrightarrow> (\<exists>i. Suc i < length s \<and> s ! i = a \<and> s ! Suc i = b)"
proof
  assume "sublist [a, b] s"
  then obtain xs ys where "s = xs @ [a, b] @ ys" by (auto simp: sublist_def)
  then show "\<exists>i. Suc i < length s \<and> s ! i = a \<and> s ! Suc i = b"
    by (intro exI [of _ "length xs"]) (simp add: nth_append)
next
  assume "\<exists>i. Suc i < length s \<and> s ! i = a \<and> s ! Suc i = b"
  then obtain i where i: "Suc i < length s" "s ! i = a" "s ! Suc i = b" by blast
  then have "s = take i s @ [a, b] @ drop (Suc (Suc i)) s"
    by (metis Cons_nth_drop_Suc Suc_lessD append.left_neutral append_Cons append_take_drop_id)
  then show "sublist [a, b] s" by (metis sublist_def)
qed

text \<open>
  The folded search for the two letters of a password abbreviation gives, on an ASCII key, the
  answer of searching the lowercased key, without making the copy.
\<close>

theorem containsFoldPW_lower:
  assumes "\<not> hasNonASCII key"
  shows "containsFoldPW key \<longleftrightarrow> Contains (ToLower ut key) ''pw''"
proof -
  have "containsFoldPW key \<longleftrightarrow> (\<exists>i. Suc i < length key \<and> lowerASCIIByte (key ! i) = CHR ''p''
      \<and> lowerASCIIByte (key ! Suc i) = CHR ''w'')"
    by (auto simp: containsFoldPW_def list_ex_iff or_0x20 Bex_def less_diff_conv)
  then show ?thesis using assms by (auto simp: Contains_sublist ToLower_def sublist_two)
qed

theorem containsFoldPW_lower_witness: "containsFoldPW ''dbPW'' \<longleftrightarrow> Contains (ToLower ascii_only ''dbPW'') ''pw''"
  by (rule containsFoldPW_lower) (simp add: hasNonASCII_def RuneSelf_def)

end
