(* ===== verification/Bigrams.thy ===== *)
theory Bigrams
  imports GoStrings
begin

text \<open>
  The English letter-pair scores of \<^verbatim>\<open>bigrams.go\<close>: the map in the source and the
  128 by 128 table built from it for the hot path. Scores are real numbers; the rounding of
  Go's float64 is not modelled.
\<close>

definition EnglishBigramFreqs :: "(string \<times> real) list" where
  "EnglishBigramFreqs =
   [(''th'', -3.5), (''he'', -3.8), (''in'', -3.9), (''er'', -4.0), (''an'', -4.1), (''re'', -4.1),
     (''nd'', -4.3), (''at'', -4.4), (''on'', -4.4), (''nt'', -4.5), (''ha'', -4.5), (''es'', -4.6),
     (''st'', -4.6), (''en'', -4.7), (''ed'', -4.7), (''to'', -4.7), (''it'', -4.7), (''ou'', -4.8),
     (''ea'', -4.8), (''hi'', -4.8), (''is'', -4.9), (''or'', -4.9), (''ti'', -4.9), (''as'', -4.9),
     (''te'', -5.0), (''et'', -5.0), (''ng'', -5.0), (''of'', -5.0), (''al'', -5.0), (''de'', -5.1),
     (''se'', -5.1), (''le'', -5.1), (''sa'', -5.1), (''si'', -5.2), (''ar'', -5.2), (''ve'', -5.2),
     (''ra'', -5.2), (''ld'', -5.3), (''ur'', -5.3), (''ac'', -5.3), (''ne'', -5.3), (''no'', -5.3),
     (''fo'', -5.3), (''co'', -5.3), (''me'', -5.4), (''ec'', -5.4), (''ot'', -5.4), (''ri'', -5.4),
     (''ro'', -5.4), (''io'', -5.4), (''ic'', -5.4), (''ma'', -5.4), (''ta'', -5.4), (''el'', -5.4),
     (''li'', -5.4), (''om'', -5.4), (''us'', -5.4), (''ce'', -5.5), (''ca'', -5.5), (''il'', -5.5),
     (''na'', -5.5), (''la'', -5.5), (''ge'', -5.5), (''un'', -5.5), (''ch'', -5.5), (''wi'', -5.5),
     (''di'', -5.5), (''pe'', -5.5), (''be'', -5.5), (''so'', -5.5), (''rt'', -5.5), (''wa'', -5.5),
     (''nc'', -5.6), (''wh'', -5.6), (''tr'', -5.6), (''pr'', -5.6), (''ul'', -5.6), (''ni'', -5.6),
     (''ns'', -5.6), (''ts'', -5.6), (''ow'', -5.6), (''em'', -5.6), (''ie'', -5.6), (''ll'', -5.6),
     (''ut'', -5.6), (''po'', -5.6), (''lo'', -5.6), (''ss'', -5.6), (''ad'', -5.6), (''ho'', -5.6),
     (''rs'', -5.6), (''mo'', -5.7), (''we'', -5.7), (''pa'', -5.7), (''im'', -5.7), (''tt'', -5.7),
     (''mi'', -5.7), (''ai'', -5.7), (''su'', -5.7), (''qu'', -5.7), (''pp'', -5.7), (''pl'', -5.7),
     (''da'', -5.7), (''os'', -5.7), (''bl'', -5.7), (''ty'', -5.7), (''nf'', -5.8), (''bu'', -5.7),
     (''rn'', -5.7), (''fe'', -5.8), (''gh'', -5.8), (''ds'', -5.8), (''ke'', -5.8), (''ct'', -5.8),
     (''op'', -5.8), (''sc'', -5.8), (''rr'', -5.8), (''sp'', -5.8), (''vo'', -5.8), (''mp'', -5.8),
     (''am'', -5.8), (''iv'', -5.8), (''id'', -5.8), (''ef'', -5.8), (''ev'', -5.8), (''au'', -5.8),
     (''ck'', -5.8), (''ir'', -5.8), (''ep'', -5.8), (''tu'', -5.8), (''bo'', -5.8), (''ci'', -5.8),
     (''ab'', -5.8), (''eg'', -5.8), (''ye'', -5.8), (''wn'', -5.8), (''dr'', -5.8), (''gr'', -5.8),
     (''od'', -5.8), (''ph'', -5.8), (''av'', -5.8), (''ew'', -5.8), (''do'', -5.8), (''ag'', -5.8),
     (''ex'', -5.9), (''ly'', -5.9), (''mu'', -5.9), (''fr'', -5.9), (''ms'', -6.0), (''sg'', -6.0),
     (''ja'', -6.0), (''ju'', -6.0), (''jy'', -6.0), (''jo'', -6.0), (''aj'', -6.5), (''ay'', -5.5),
     (''ga'', -5.5), (''ym'', -6.0), (''nu'', -5.8), (''um'', -5.5), (''mm'', -6.0), (''t_'', -9.0),
     (''pi'', -5.5), (''eb'', -5.5), (''ug'', -5.5), (''yl'', -5.8), (''oa'', -5.3), (''cv'', -8.0),
     (''vv'', -9.0), (''pw'', -8.0), (''wd'', -7.5), (''tk'', -8.5), (''nm'', -7.5), (''ky'', -7.5),
     (''ey'', -5.5)]"

type_synonym bigramTable = "nat \<Rightarrow> nat \<Rightarrow> real"

definition bigramCell :: "bigramTable \<Rightarrow> string \<times> real \<Rightarrow> bigramTable" where
  "bigramCell t e = (case e of (bg, v) \<Rightarrow>
     if length bg = 2 \<and> byte (bg ! 0) < 128 \<and> byte (bg ! 1) < 128
     then t(byte (bg ! 0) := (t (byte (bg ! 0)))(byte (bg ! 1) := v)) else t)"

definition newBigramTable :: "real \<Rightarrow> bigramTable" where
  "newBigramTable defaultScore = foldl bigramCell (\<lambda>i j. defaultScore) EnglishBigramFreqs"

definition lookupBigram :: "real \<Rightarrow> string \<Rightarrow> real" where
  "lookupBigram defaultScore b =
     (case map_of EnglishBigramFreqs b of Some v \<Rightarrow> v | None \<Rightarrow> defaultScore)"

definition readBigram :: "bigramTable \<Rightarrow> real \<Rightarrow> char \<Rightarrow> char \<Rightarrow> real" where
  "readBigram t defaultScore b0 b1 =
     (if Bit_Operations.or (byte b0) (byte b1) < 128 then t (byte b0) (byte b1) else defaultScore)"

lemma or_less_128: "Bit_Operations.or (a::nat) b < 128 \<longleftrightarrow> a < 128 \<and> b < 128"
proof -
  have less: "n < 128 \<longleftrightarrow> drop_bit 7 n = 0" for n :: nat by (simp add: drop_bit_eq_div div_eq_0_iff)
  show ?thesis unfolding less by (simp add: drop_bit_or or_eq_0_iff)
qed

lemma bigramFreqs_shape:
  "list_all (\<lambda>(bg, v). length bg = 2 \<and> byte (bg ! 0) < 128 \<and> byte (bg ! 1) < 128) EnglishBigramFreqs"
  by code_simp

lemma bigramFreqs_distinct: "distinct (map fst EnglishBigramFreqs)"
  by code_simp

lemma bigramCell_at:
  "byte x < 128 \<Longrightarrow> byte y < 128 \<Longrightarrow> bigramCell t ([x, y], v) (byte b0) (byte b1) =
     (if b0 = x \<and> b1 = y then v else t (byte b0) (byte b1))"
  by (auto simp: bigramCell_def)

lemma bigramCells:
  "list_all (\<lambda>(bg, v). length bg = 2 \<and> byte (bg ! 0) < 128 \<and> byte (bg ! 1) < 128) es \<Longrightarrow>
   distinct (map fst es) \<Longrightarrow>
   foldl bigramCell t es (byte b0) (byte b1) =
     (case map_of es [b0, b1] of Some v \<Rightarrow> v | None \<Rightarrow> t (byte b0) (byte b1))"
proof (induction es arbitrary: t)
  case (Cons e es)
  obtain bg v where e: "e = (bg, v)" by (cases e)
  obtain x y where bg: "bg = [x, y]" using Cons.prems e by (cases bg; cases "tl bg") auto
  have "map_of es [x, y] = None" using Cons.prems e bg by (auto simp: map_of_eq_None_iff)
  then show ?case using Cons e bg by (auto simp: bigramCell_at split: option.splits)
qed simp

text \<open>
  The table read that scores a pair of bytes gives, for every pair and every default score,
  what a lookup in the map gives: a byte outside ASCII takes the default in both.\<close>

theorem readBigram_map:
  "readBigram (newBigramTable d) d b0 b1 = lookupBigram d [b0, b1]"
proof (cases "Bit_Operations.or (byte b0) (byte b1) < 128")
  case True
  then show ?thesis
    using bigramCells [OF bigramFreqs_shape bigramFreqs_distinct, of "\<lambda>i j. d" b0 b1]
    by (simp add: readBigram_def newBigramTable_def lookupBigram_def)
next
  case False
  then have "[b0, b1] \<notin> fst ` set EnglishBigramFreqs"
    using bigramFreqs_shape by (force simp: or_less_128 list_all_iff)
  then have "map_of EnglishBigramFreqs [b0, b1] = None" by (simp add: map_of_eq_None_iff)
  with False show ?thesis by (simp add: readBigram_def lookupBigram_def)
qed

end
