(* ===== verification/Config.thy ===== *)
theory Config
  imports KeyWords Bigrams
begin

text \<open>
  Configuration of the scanner: the defaults, the environment overrides and the derived
  snapshot of \<^verbatim>\<open>scanner.go\<close>, the settings of the language SDKs (\<^verbatim>\<open>sdk_config.go\<close>)
  and the policy file (\<^verbatim>\<open>config_file.go\<close>).

  User patterns are compiled by Go's \<^verbatim>\<open>regexp\<close> package; here compilation is a parameter
  \<open>compile\<close> that returns nothing for a pattern that does not compile, and a compiled
  expression is the pair of the questions the scanner asks it. The keyed hash
  (HMAC-SHA-256) and the random salt are parameters too, and so are the parsed form of a JSON
  text and the parser of decimal numbers. Warnings on the standard error stream are left out.
\<close>

named_theorems config "configuration"

record regexp =
  MatchString :: "string \<Rightarrow> bool"
  FindStringSubmatchIndex :: "string \<Rightarrow> int list option"

type_synonym compiler = "string \<Rightarrow> regexp option"

record CustomRegexConfig =
  Pattern :: string
  rc_Name :: string

record CustomRegexRule =
  Regexp :: regexp
  rr_Name :: string

record Config =
  EntropyThreshold :: real
  ConfidenceThreshold :: real
  MinSecretLength :: int
  Salt :: string
  SensitiveKeys :: "string list"
  DisableBigramCheck :: bool
  BigramDefaultScore :: real
  AdaptiveThreshold :: bool
  SensitiveKeyPatterns :: "string list"
  AdaptiveBaselineSamples :: int
  EntityTypeLabels :: bool
  CustomRegexes :: "CustomRegexRule list"
  SafeRegexes :: "CustomRegexRule list"
  CombinedCustomRegex :: "regexp option"
  CustomRegexNames :: "string list"

text \<open>
  The snapshot the engine reads. \<open>mac\<close> is the hash keyed with the salt, and \<open>unicode\<close> the
  character tables of the run-time system.
\<close>

record configState =
  config :: Config
  sensitiveRegex :: "regexp option"
  mac :: "string \<Rightarrow> string"
  keyMatcher :: keyMatcher
  bigrams :: bigramTable
  unicode :: unicode_tables

definition DefaultEntropyThreshold :: real where "DefaultEntropyThreshold = 3.6"
definition DefaultMinSecretLength :: int where "DefaultMinSecretLength = 6"
definition MaxMinSecretLength :: int where "MaxMinSecretLength = 1024"

definition envTruthy :: "unicode_tables \<Rightarrow> string \<Rightarrow> bool" where
  "envTruthy ut s \<longleftrightarrow> ToLower ut (TrimSpace s) \<in> set [''1'', ''true'', ''yes'', ''y'', ''on'']"

text \<open>\<^verbatim>\<open>strconv.Atoi\<close>: an optional sign and decimal digits, within 64 bits.\<close>

definition Atoi :: "string \<Rightarrow> int option" where
  "Atoi s =
    (let neg = HasPrefix s ''-'';
         ds = (if HasPrefix s ''-'' \<or> HasPrefix s ''+'' then tl s else s);
         m = foldl (\<lambda>a c. a * 10 + (int (byte c) - 48)) 0 ds;
         n = (if neg then - m else m) in
     if ds = [] \<or> \<not> list_all isASCIIDigit ds then None
     else if n < - (2 ^ 63) \<or> n \<ge> 2 ^ 63 then None
     else Some n)"

definition parseInt :: "string \<Rightarrow> int option" where
  "parseInt s = Atoi (TrimSpace s)"

subsection \<open>Rules and patterns\<close>

text \<open>\<open>Inl ()\<close> is the error for patterns that do not compile.\<close>

definition cleanPatterns :: "string list \<Rightarrow> string list" where
  "cleanPatterns ps = filter (\<lambda>t. t \<noteq> []) (map TrimSpace ps)"

definition compileSensitiveKeyPatterns :: "compiler \<Rightarrow> string list \<Rightarrow> unit + regexp option" where
  "compileSensitiveKeyPatterns compile ps =
    (let valid = cleanPatterns ps in
     if valid = [] then Inr None
     else case compile (''(?i)('' @ Join valid ''|'' @ '')'') of
       None \<Rightarrow> Inl () | Some re \<Rightarrow> Inr (Some re))"

text \<open>The compiled rules, the raw rules they come from, and the rules that were skipped.\<close>

fun compileRegexRules ::
  "compiler \<Rightarrow> CustomRegexConfig list \<Rightarrow> CustomRegexRule list \<times> CustomRegexConfig list \<times> CustomRegexConfig list" where
  "compileRegexRules compile [] = ([], [], [])"
| "compileRegexRules compile (r # raw) =
    (let (rules, valid, skipped) = compileRegexRules compile raw in
     case compile (Pattern r) of
       None \<Rightarrow> (rules, valid, r # skipped)
     | Some re \<Rightarrow> (\<lparr>Regexp = re, rr_Name = rc_Name r\<rparr> # rules, r # valid, skipped))"

definition ApplySensitiveKeyPatterns :: "compiler \<Rightarrow> string list \<Rightarrow> Config \<Rightarrow> Config \<times> bool" where
  "ApplySensitiveKeyPatterns compile ps c =
    (let cleaned = cleanPatterns ps in
     (c\<lparr>SensitiveKeyPatterns := cleaned\<rparr>, isl (compileSensitiveKeyPatterns compile cleaned)))"

definition ApplyCustomRegexes :: "compiler \<Rightarrow> CustomRegexConfig list \<Rightarrow> Config \<Rightarrow> Config \<times> CustomRegexConfig list" where
  "ApplyCustomRegexes compile raw c =
    (let (rules, valid, skipped) = compileRegexRules compile raw;
         c1 = c\<lparr>CustomRegexes := rules\<rparr> in
     if valid = [] then (c1\<lparr>CombinedCustomRegex := None, CustomRegexNames := []\<rparr>, skipped)
     else case compile (Join (map (\<lambda>r. ''('' @ Pattern r @ '')'') valid) ''|'') of
       None \<Rightarrow> (c1\<lparr>CombinedCustomRegex := None, CustomRegexNames := []\<rparr>, skipped)
     | Some combined \<Rightarrow> (c1\<lparr>CombinedCustomRegex := Some combined, CustomRegexNames := map rc_Name valid\<rparr>, skipped))"

definition ApplySafeRegexes :: "compiler \<Rightarrow> CustomRegexConfig list \<Rightarrow> Config \<Rightarrow> Config \<times> CustomRegexConfig list" where
  "ApplySafeRegexes compile raw c =
    (let (rules, valid, skipped) = compileRegexRules compile raw in (c\<lparr>SafeRegexes := rules\<rparr>, skipped))"

definition dropInvalidRegexRules :: "compiler \<Rightarrow> CustomRegexConfig list \<Rightarrow> CustomRegexConfig list" where
  "dropInvalidRegexRules compile raw = filter (\<lambda>r. compile (Pattern r) \<noteq> None) raw"

subsection \<open>Defaults and environment\<close>

definition normalizeKeys :: "unicode_tables \<Rightarrow> string list \<Rightarrow> string list" where
  "normalizeKeys ut = map (\<lambda>k. ToLower ut (TrimSpace k))"

definition defaultKeys :: "string list" where
  "defaultKeys =
    [''pass'', ''secret'', ''token'', ''key'', ''cvv'', ''cvc'', ''auth'', ''sign'',
     ''password'', ''passwd'', ''api_key'', ''apikey'', ''access_token'', ''client_secret'',
     ''aws_access_key_id'', ''aws_secret_access_key'', ''gcp_credentials'', ''slack_token'',
     concat (map EncodeRune [0x5BC6, 0x7801]), concat (map EncodeRune [0x53E3, 0x4EE4]),
     concat (map EncodeRune [0x5BC6, 0x94A5]), concat (map EncodeRune [0x4EE4, 0x724C]),
     concat (map EncodeRune [0x30D1, 0x30B9, 0x30EF, 0x30FC, 0x30C9])]"

definition DefaultConfig :: "unicode_tables \<Rightarrow> Config" where
  "DefaultConfig ut =
    \<lparr>EntropyThreshold = DefaultEntropyThreshold, ConfidenceThreshold = 1.0, MinSecretLength = DefaultMinSecretLength,
     Salt = [], SensitiveKeys = normalizeKeys ut defaultKeys, DisableBigramCheck = False, BigramDefaultScore = -7.0,
     AdaptiveThreshold = False, SensitiveKeyPatterns = [], AdaptiveBaselineSamples = 100, EntityTypeLabels = False,
     CustomRegexes = [], SafeRegexes = [], CombinedCustomRegex = None, CustomRegexNames = []\<rparr>"

text \<open>
  What the process offers at start: its variables (empty when unset), 32 random bytes, the
  number parser and the JSON parser for a list of rules.
\<close>

record environment =
  Getenv :: "string \<Rightarrow> string"
  randomSalt :: string
  ParseFloat :: "string \<Rightarrow> real option"
  UnmarshalRules :: "string \<Rightarrow> CustomRegexConfig list option"

definition parseFloat :: "environment \<Rightarrow> string \<Rightarrow> real option" where
  "parseFloat env s = ParseFloat env (TrimSpace s)"

definition envSalt :: "unicode_tables \<Rightarrow> environment \<Rightarrow> Config \<Rightarrow> Config go" where
  "envSalt ut env cfg =
    (let salt = Getenv env ''PII_SALT'' in
     if salt \<noteq> [] then
       (if length salt < 16 \<and> envTruthy ut (Getenv env ''PII_REQUIRE_STRONG_SALT'') then Inl Panic
        else Inr (cfg\<lparr>Salt := salt\<rparr>))
     else if Salt cfg = [] then Inr (cfg\<lparr>Salt := randomSalt env\<rparr>)
     else Inr cfg)"

definition envFloat :: "environment \<Rightarrow> string \<Rightarrow> (real \<Rightarrow> Config \<Rightarrow> Config) \<Rightarrow> Config \<Rightarrow> Config" where
  "envFloat env name upd cfg =
    (if Getenv env name = [] then cfg
     else case parseFloat env (Getenv env name) of None \<Rightarrow> cfg | Some v \<Rightarrow> upd v cfg)"

definition envMinSecretLength :: "environment \<Rightarrow> Config \<Rightarrow> Config" where
  "envMinSecretLength env cfg =
    (if Getenv env ''PII_MIN_SECRET_LENGTH'' = [] then cfg
     else case parseInt (Getenv env ''PII_MIN_SECRET_LENGTH'') of
       None \<Rightarrow> cfg
     | Some n \<Rightarrow> if n > 0 \<and> n \<le> MaxMinSecretLength then cfg\<lparr>MinSecretLength := n\<rparr> else cfg)"

definition envFlag :: "environment \<Rightarrow> string \<Rightarrow> bool" where
  "envFlag env name \<longleftrightarrow> Getenv env name = ''true'' \<or> Getenv env name = ''1''"

definition envAdaptive :: "environment \<Rightarrow> Config \<Rightarrow> Config" where
  "envAdaptive env cfg =
    (if envFlag env ''PII_ADAPTIVE_THRESHOLD'' then
       (let c = cfg\<lparr>AdaptiveThreshold := True\<rparr> in
        if Getenv env ''PII_ADAPTIVE_SAMPLES'' = [] then c
        else case parseInt (Getenv env ''PII_ADAPTIVE_SAMPLES'') of
          None \<Rightarrow> c | Some n \<Rightarrow> if n > 0 then c\<lparr>AdaptiveBaselineSamples := n\<rparr> else c)
     else cfg)"

definition envKeys :: "unicode_tables \<Rightarrow> environment \<Rightarrow> Config \<Rightarrow> Config" where
  "envKeys ut env cfg =
    (if Getenv env ''PII_SENSITIVE_KEYS'' = [] then cfg
     else cfg\<lparr>SensitiveKeys := normalizeKeys ut (Split (Getenv env ''PII_SENSITIVE_KEYS'') CHR '','')\<rparr>)"

definition envPatterns :: "compiler \<Rightarrow> environment \<Rightarrow> Config \<Rightarrow> Config" where
  "envPatterns compile env cfg =
    (if Getenv env ''PII_SENSITIVE_KEY_PATTERNS'' = [] then cfg
     else fst (ApplySensitiveKeyPatterns compile (Split (Getenv env ''PII_SENSITIVE_KEY_PATTERNS'') CHR '','') cfg))"

definition envRules ::
  "compiler \<Rightarrow> environment \<Rightarrow> string \<Rightarrow> (CustomRegexConfig list \<Rightarrow> Config \<Rightarrow> Config \<times> CustomRegexConfig list) \<Rightarrow> Config \<Rightarrow> Config" where
  "envRules compile env name apply_rules cfg =
    (if Getenv env name = [] then cfg
     else case UnmarshalRules env (Getenv env name) of
       None \<Rightarrow> cfg | Some raw \<Rightarrow> fst (apply_rules (dropInvalidRegexRules compile raw) cfg))"

definition envSettings :: "unicode_tables \<Rightarrow> compiler \<Rightarrow> environment \<Rightarrow> Config \<Rightarrow> Config" where
  "envSettings ut compile env cfg =
    (let c1 = envFloat env ''PII_ENTROPY_THRESHOLD'' (\<lambda>v c. c\<lparr>EntropyThreshold := v\<rparr>) cfg;
         c2 = envFloat env ''PII_CONFIDENCE_THRESHOLD'' (\<lambda>v c. c\<lparr>ConfidenceThreshold := v\<rparr>) c1;
         c3 = envMinSecretLength env c2;
         c4 = (if envFlag env ''PII_DISABLE_BIGRAM_CHECK'' then c3\<lparr>DisableBigramCheck := True\<rparr> else c3);
         c5 = envFloat env ''PII_BIGRAM_DEFAULT_SCORE'' (\<lambda>v c. c\<lparr>BigramDefaultScore := v\<rparr>) c4;
         c6 = (if envTruthy ut (Getenv env ''PII_ENTITY_TYPE_LABELS'') then c5\<lparr>EntityTypeLabels := True\<rparr> else c5);
         c7 = envAdaptive env c6;
         c8 = envKeys ut env c7;
         c9 = envPatterns compile env c8;
         c10 = envRules compile env ''PII_CUSTOM_REGEX_LIST'' (ApplyCustomRegexes compile) c9 in
     envRules compile env ''PII_SAFE_REGEX_LIST'' (ApplySafeRegexes compile) c10)"

definition ApplyEnvOverrides :: "unicode_tables \<Rightarrow> compiler \<Rightarrow> environment \<Rightarrow> Config \<Rightarrow> Config go" where
  "ApplyEnvOverrides ut compile env cfg = map_sum id (envSettings ut compile env) (envSalt ut env cfg)"

definition loadConfig :: "unicode_tables \<Rightarrow> compiler \<Rightarrow> environment \<Rightarrow> Config go" where
  "loadConfig ut compile env = ApplyEnvOverrides ut compile env (DefaultConfig ut)"

text \<open>The hash \<open>hmac\<close> takes the key and the message.\<close>

definition buildConfigState ::
  "unicode_tables \<Rightarrow> compiler \<Rightarrow> (string \<Rightarrow> string \<Rightarrow> string) \<Rightarrow> Config \<Rightarrow> configState" where
  "buildConfigState ut compile hmac cfg =
    \<lparr>config = cfg,
     sensitiveRegex = (case compileSensitiveKeyPatterns compile (SensitiveKeyPatterns cfg) of Inl _ \<Rightarrow> None | Inr re \<Rightarrow> re),
     mac = hmac (Salt cfg),
     keyMatcher = newKeyMatcher (SensitiveKeys cfg),
     bigrams = newBigramTable (BigramDefaultScore cfg),
     unicode = ut\<rparr>"

subsection \<open>Settings of the language SDKs\<close>

record SDKConfig =
  sdk_EntropyThreshold :: real
  sdk_Salt :: string
  sdk_ConfidenceThreshold :: real
  sdk_FailPolicy :: string
  sdk_MinSecretLength :: int
  sdk_SensitiveKeys :: "string list"
  sdk_DisableBigramCheck :: "bool option"
  sdk_AdaptiveThreshold :: "bool option"
  sdk_EntityTypeLabels :: "bool option"
  sdk_SensitiveKeyPatterns :: "string list"
  sdk_CustomRegexes :: "CustomRegexConfig list"
  sdk_SafeRegexes :: "CustomRegexConfig list"

definition set_opt :: "('a \<Rightarrow> Config \<Rightarrow> Config) \<Rightarrow> 'a option \<Rightarrow> Config \<Rightarrow> Config" where
  "set_opt upd v c = (case v of None \<Rightarrow> c | Some x \<Rightarrow> upd x c)"

definition sdkFlags :: "'a SDKConfig_scheme \<Rightarrow> Config \<Rightarrow> Config" where
  "sdkFlags sdk c =
    set_opt (\<lambda>b c. c\<lparr>EntityTypeLabels := b\<rparr>) (sdk_EntityTypeLabels sdk)
      (set_opt (\<lambda>b c. c\<lparr>AdaptiveThreshold := b\<rparr>) (sdk_AdaptiveThreshold sdk)
        (set_opt (\<lambda>b c. c\<lparr>DisableBigramCheck := b\<rparr>) (sdk_DisableBigramCheck sdk) c))"

text \<open>\<open>parsed\<close> is what the JSON parser makes of the payload, nothing for invalid JSON.\<close>

definition ConfigFromSDKJSON ::
  "unicode_tables \<Rightarrow> compiler \<Rightarrow> string \<Rightarrow> SDKConfig option \<Rightarrow> Config" where
  "ConfigFromSDKJSON ut compile salt parsed =
    (let cfg = (DefaultConfig ut)\<lparr>Salt := salt\<rparr> in
     case parsed of None \<Rightarrow> cfg
     | Some sdk \<Rightarrow>
        let c1 = (if sdk_EntropyThreshold sdk > 0 then cfg\<lparr>EntropyThreshold := sdk_EntropyThreshold sdk\<rparr> else cfg);
            c2 = (if sdk_Salt sdk \<noteq> [] then c1\<lparr>Salt := sdk_Salt sdk\<rparr> else c1);
            c3 = (if sdk_ConfidenceThreshold sdk > 0 then c2\<lparr>ConfidenceThreshold := sdk_ConfidenceThreshold sdk\<rparr> else c2);
            c4 = (if sdk_MinSecretLength sdk > 0 then c3\<lparr>MinSecretLength := sdk_MinSecretLength sdk\<rparr> else c3);
            c5 = (if sdk_SensitiveKeys sdk \<noteq> [] then c4\<lparr>SensitiveKeys := normalizeKeys ut (sdk_SensitiveKeys sdk)\<rparr> else c4);
            c6 = sdkFlags sdk c5;
            c7 = (if sdk_SensitiveKeyPatterns sdk = [] then c6
                  else case ApplySensitiveKeyPatterns compile (sdk_SensitiveKeyPatterns sdk) c6 of
                    (c, err) \<Rightarrow> if err then c\<lparr>SensitiveKeyPatterns := []\<rparr> else c);
            c8 = (if sdk_CustomRegexes sdk = [] then c7 else fst (ApplyCustomRegexes compile (sdk_CustomRegexes sdk) c7)) in
        if sdk_SafeRegexes sdk = [] then c8 else fst (ApplySafeRegexes compile (sdk_SafeRegexes sdk) c8))"

subsection \<open>The policy file\<close>

definition MaxPolicyFileBytes :: nat where "MaxPolicyFileBytes = 4 * 2 ^ 20"

record policyFile = SDKConfig +
  Revision :: string

datatype policy_error =
    NotReadable | TooLarge | InvalidJSON | NegativeEntropy | NegativeConfidence | BadMinSecretLength | EmptySensitiveKey
  | BadKeyPattern string | BadKeyPatterns | EmptyRule nat | BadRule nat | SkippedRules

fun checkRegexRules :: "compiler \<Rightarrow> nat \<Rightarrow> CustomRegexConfig list \<Rightarrow> policy_error option" where
  "checkRegexRules compile i [] = None"
| "checkRegexRules compile i (r # rules) =
    (if Pattern r = [] then Some (EmptyRule i)
     else if compile (Pattern r) = None then Some (BadRule i)
     else checkRegexRules compile (i + 1) rules)"

definition policyThresholds :: "policyFile \<Rightarrow> Config \<Rightarrow> policy_error + Config" where
  "policyThresholds pf cfg =
    (if sdk_EntropyThreshold pf < 0 then Inl NegativeEntropy
     else let c1 = (if sdk_EntropyThreshold pf > 0 then cfg\<lparr>EntropyThreshold := sdk_EntropyThreshold pf\<rparr> else cfg) in
       if sdk_ConfidenceThreshold pf < 0 then Inl NegativeConfidence
       else let c2 = (if sdk_ConfidenceThreshold pf > 0 then c1\<lparr>ConfidenceThreshold := sdk_ConfidenceThreshold pf\<rparr> else c1) in
         if sdk_MinSecretLength pf < 0 \<or> sdk_MinSecretLength pf > MaxMinSecretLength then Inl BadMinSecretLength
         else Inr (if sdk_MinSecretLength pf > 0 then c2\<lparr>MinSecretLength := sdk_MinSecretLength pf\<rparr> else c2))"

definition policyKeys :: "unicode_tables \<Rightarrow> policyFile \<Rightarrow> Config \<Rightarrow> policy_error + Config" where
  "policyKeys ut pf cfg =
    (if sdk_SensitiveKeys pf = [] then Inr cfg
     else let keys = normalizeKeys ut (sdk_SensitiveKeys pf) in
       if [] \<in> set keys then Inl EmptySensitiveKey else Inr (cfg\<lparr>SensitiveKeys := keys\<rparr>))"

definition policyPatterns :: "compiler \<Rightarrow> policyFile \<Rightarrow> Config \<Rightarrow> policy_error + Config" where
  "policyPatterns compile pf cfg =
    (case List.find (\<lambda>p. compile p = None) (sdk_SensitiveKeyPatterns pf) of
       Some p \<Rightarrow> Inl (BadKeyPattern p)
     | None \<Rightarrow>
        if sdk_SensitiveKeyPatterns pf = [] then Inr cfg
        else case ApplySensitiveKeyPatterns compile (sdk_SensitiveKeyPatterns pf) cfg of
          (c, err) \<Rightarrow> if err then Inl BadKeyPatterns else Inr c)"

definition policyRules ::
  "compiler \<Rightarrow> (CustomRegexConfig list \<Rightarrow> Config \<Rightarrow> Config \<times> CustomRegexConfig list) \<Rightarrow> CustomRegexConfig list \<Rightarrow> Config \<Rightarrow> policy_error + Config" where
  "policyRules compile apply_rules rules cfg =
    (case checkRegexRules compile 0 rules of
       Some e \<Rightarrow> Inl e
     | None \<Rightarrow> if rules = [] then Inr cfg
         else case apply_rules rules cfg of (c, skipped) \<Rightarrow> if skipped \<noteq> [] then Inl SkippedRules else Inr c)"

definition ParsePolicyJSON ::
  "unicode_tables \<Rightarrow> compiler \<Rightarrow> policyFile option \<Rightarrow> policy_error + Config \<times> string" where
  "ParsePolicyJSON ut compile parsed =
    (case parsed of None \<Rightarrow> Inl InvalidJSON
     | Some pf \<Rightarrow>
        andThen (policyThresholds pf (DefaultConfig ut)) (\<lambda>c1.
        andThen (policyKeys ut pf c1) (\<lambda>c2.
        andThen (policyPatterns compile pf (sdkFlags pf c2)) (\<lambda>c3.
        andThen (policyRules compile (ApplyCustomRegexes compile) (sdk_CustomRegexes pf) c3) (\<lambda>c4.
        andThen (policyRules compile (ApplySafeRegexes compile) (sdk_SafeRegexes pf) c4) (\<lambda>c5.
        Inr (c5, Revision pf)))))))"

text \<open>The file is read up to one byte past the limit; \<open>parse\<close> is the JSON parser.\<close>

definition LoadPolicyFile ::
  "unicode_tables \<Rightarrow> compiler \<Rightarrow> (string \<Rightarrow> policyFile option) \<Rightarrow> string option \<Rightarrow> policy_error + Config \<times> string" where
  "LoadPolicyFile ut compile parse file =
    (case file of None \<Rightarrow> Inl NotReadable
     | Some content \<Rightarrow>
        let b = take (MaxPolicyFileBytes + 1) content in
        if length b > MaxPolicyFileBytes then Inl TooLarge else ParsePolicyJSON ut compile (parse b))"

subsection \<open>What the environment pins\<close>

lemma cleanPatterns_keep [config]: "SensitiveKeyPatterns (fst (ApplySensitiveKeyPatterns compile ps c)) = cleanPatterns ps"
  by (simp add: ApplySensitiveKeyPatterns_def Let_def)

text \<open>
  Each variable gives a value or none, and each step of the overrides writes the given value into
  its own fields. That is the whole effect, spelled out by \<open>envSettings_fields\<close>.
\<close>

definition pick :: "'a option \<Rightarrow> 'a \<Rightarrow> 'a" where
  "pick v d = (case v of None \<Rightarrow> d | Some x \<Rightarrow> x)"

lemma pick_simps [config, simp]: "pick None d = d" "pick (Some x) d = x" "pick v (pick v d) = pick v d"
  by (cases v; simp add: pick_def)+

definition floatVar :: "environment \<Rightarrow> string \<Rightarrow> real option" where
  "floatVar env n = (if Getenv env n = [] then None else parseFloat env (Getenv env n))"

definition minLengthVar :: "environment \<Rightarrow> int option" where
  "minLengthVar env = (if Getenv env ''PII_MIN_SECRET_LENGTH'' = [] then None
     else case parseInt (Getenv env ''PII_MIN_SECRET_LENGTH'') of
       None \<Rightarrow> None | Some n \<Rightarrow> if n > 0 \<and> n \<le> MaxMinSecretLength then Some n else None)"

definition samplesVar :: "environment \<Rightarrow> int option" where
  "samplesVar env = (if \<not> envFlag env ''PII_ADAPTIVE_THRESHOLD'' \<or> Getenv env ''PII_ADAPTIVE_SAMPLES'' = [] then None
     else case parseInt (Getenv env ''PII_ADAPTIVE_SAMPLES'') of
       None \<Rightarrow> None | Some n \<Rightarrow> if n > 0 then Some n else None)"

definition keysVar :: "unicode_tables \<Rightarrow> environment \<Rightarrow> string list option" where
  "keysVar ut env = (if Getenv env ''PII_SENSITIVE_KEYS'' = [] then None
     else Some (normalizeKeys ut (Split (Getenv env ''PII_SENSITIVE_KEYS'') CHR '','')))"

definition patternsVar :: "environment \<Rightarrow> string list option" where
  "patternsVar env = (if Getenv env ''PII_SENSITIVE_KEY_PATTERNS'' = [] then None
     else Some (cleanPatterns (Split (Getenv env ''PII_SENSITIVE_KEY_PATTERNS'') CHR '','')))"

definition rulesVar :: "compiler \<Rightarrow> environment \<Rightarrow> string \<Rightarrow> CustomRegexConfig list option" where
  "rulesVar compile env n = (if Getenv env n = [] then None
     else map_option (dropInvalidRegexRules compile) (UnmarshalRules env (Getenv env n)))"

definition rulesOf :: "compiler \<Rightarrow> CustomRegexConfig list \<Rightarrow> CustomRegexRule list" where
  "rulesOf compile raw = fst (compileRegexRules compile raw)"

definition combinedOf :: "compiler \<Rightarrow> CustomRegexConfig list \<Rightarrow> regexp option" where
  "combinedOf compile raw = (case compileRegexRules compile raw of (rules, valid, skipped) \<Rightarrow>
     if valid = [] then None else compile (Join (map (\<lambda>r. ''('' @ Pattern r @ '')'') valid) ''|''))"

definition namesOf :: "compiler \<Rightarrow> CustomRegexConfig list \<Rightarrow> string list" where
  "namesOf compile raw = (case compileRegexRules compile raw of (rules, valid, skipped) \<Rightarrow>
     if combinedOf compile raw = None then [] else map rc_Name valid)"

lemma ApplyCustomRegexes_fields [config]:
  "fst (ApplyCustomRegexes compile raw c) =
     c\<lparr>CustomRegexes := rulesOf compile raw, CombinedCustomRegex := combinedOf compile raw,
       CustomRegexNames := namesOf compile raw\<rparr>"
  by (auto simp: ApplyCustomRegexes_def rulesOf_def combinedOf_def namesOf_def Let_def split: prod.splits option.splits)

lemma ApplySafeRegexes_fields [config]:
  "fst (ApplySafeRegexes compile raw c) = c\<lparr>SafeRegexes := rulesOf compile raw\<rparr>"
  by (auto simp: ApplySafeRegexes_def rulesOf_def Let_def split: prod.splits)

lemma envFloat_fields [config]:
  "envFloat env n (\<lambda>v c. c\<lparr>EntropyThreshold := v\<rparr>) c = c\<lparr>EntropyThreshold := pick (floatVar env n) (EntropyThreshold c)\<rparr>"
  "envFloat env n (\<lambda>v c. c\<lparr>ConfidenceThreshold := v\<rparr>) c = c\<lparr>ConfidenceThreshold := pick (floatVar env n) (ConfidenceThreshold c)\<rparr>"
  "envFloat env n (\<lambda>v c. c\<lparr>BigramDefaultScore := v\<rparr>) c = c\<lparr>BigramDefaultScore := pick (floatVar env n) (BigramDefaultScore c)\<rparr>"
  by (auto simp: envFloat_def floatVar_def split: option.splits)

lemma envStep_fields [config]:
  "envMinSecretLength env c = c\<lparr>MinSecretLength := pick (minLengthVar env) (MinSecretLength c)\<rparr>"
  "envKeys ut env c = c\<lparr>SensitiveKeys := pick (keysVar ut env) (SensitiveKeys c)\<rparr>"
  "envPatterns compile env c = c\<lparr>SensitiveKeyPatterns := pick (patternsVar env) (SensitiveKeyPatterns c)\<rparr>"
  "envAdaptive env c = c\<lparr>AdaptiveThreshold := AdaptiveThreshold c \<or> envFlag env ''PII_ADAPTIVE_THRESHOLD'',
     AdaptiveBaselineSamples := pick (samplesVar env) (AdaptiveBaselineSamples c)\<rparr>"
  by (auto simp: envMinSecretLength_def minLengthVar_def envKeys_def keysVar_def envPatterns_def patternsVar_def
      ApplySensitiveKeyPatterns_def envAdaptive_def samplesVar_def Let_def split: option.splits)

lemma envRules_fields [config]:
  "envRules compile env n (ApplyCustomRegexes compile) c =
     c\<lparr>CustomRegexes := pick (map_option (rulesOf compile) (rulesVar compile env n)) (CustomRegexes c),
       CombinedCustomRegex := pick (map_option (combinedOf compile) (rulesVar compile env n)) (CombinedCustomRegex c),
       CustomRegexNames := pick (map_option (namesOf compile) (rulesVar compile env n)) (CustomRegexNames c)\<rparr>"
  "envRules compile env n (ApplySafeRegexes compile) c =
     c\<lparr>SafeRegexes := pick (map_option (rulesOf compile) (rulesVar compile env n)) (SafeRegexes c)\<rparr>"
  by (auto simp: envRules_def rulesVar_def ApplyCustomRegexes_fields ApplySafeRegexes_fields split: option.splits)

definition rulesFields :: "compiler \<Rightarrow> environment \<Rightarrow> Config \<Rightarrow> Config" where
  "rulesFields compile env c = (let rs = rulesVar compile env ''PII_CUSTOM_REGEX_LIST'' in
     c\<lparr>CustomRegexes := pick (map_option (rulesOf compile) rs) (CustomRegexes c),
       CombinedCustomRegex := pick (map_option (combinedOf compile) rs) (CombinedCustomRegex c),
       CustomRegexNames := pick (map_option (namesOf compile) rs) (CustomRegexNames c),
       SafeRegexes := pick (map_option (rulesOf compile) (rulesVar compile env ''PII_SAFE_REGEX_LIST'')) (SafeRegexes c)\<rparr>)"

lemma envSettings_fields [config]:
  "envSettings ut compile env c = rulesFields compile env
     (c\<lparr>EntropyThreshold := pick (floatVar env ''PII_ENTROPY_THRESHOLD'') (EntropyThreshold c),
        ConfidenceThreshold := pick (floatVar env ''PII_CONFIDENCE_THRESHOLD'') (ConfidenceThreshold c),
        MinSecretLength := pick (minLengthVar env) (MinSecretLength c),
        DisableBigramCheck := DisableBigramCheck c \<or> envFlag env ''PII_DISABLE_BIGRAM_CHECK'',
        BigramDefaultScore := pick (floatVar env ''PII_BIGRAM_DEFAULT_SCORE'') (BigramDefaultScore c),
        EntityTypeLabels := EntityTypeLabels c \<or> envTruthy ut (Getenv env ''PII_ENTITY_TYPE_LABELS''),
        AdaptiveThreshold := AdaptiveThreshold c \<or> envFlag env ''PII_ADAPTIVE_THRESHOLD'',
        AdaptiveBaselineSamples := pick (samplesVar env) (AdaptiveBaselineSamples c),
        SensitiveKeys := pick (keysVar ut env) (SensitiveKeys c),
        SensitiveKeyPatterns := pick (patternsVar env) (SensitiveKeyPatterns c)\<rparr>)"
  by (cases c) (simp add: envSettings_def envFloat_fields envStep_fields envRules_fields rulesFields_def Let_def)


definition env_example :: environment where
  "env_example = \<lparr>Getenv = (\<lambda>n. if n = ''PII_SALT'' then ''0123456789abcdef'' else []),
     randomSalt = replicate 32 CHR 0x00, ParseFloat = (\<lambda>_. None), UnmarshalRules = (\<lambda>_. None)\<rparr>"


subsection \<open>A policy is applied whole or not at all\<close>

lemma compileRegexRules_eq [config]:
  "compileRegexRules compile raw =
     (map (\<lambda>r. \<lparr>Regexp = the (compile (Pattern r)), rr_Name = rc_Name r\<rparr>) (dropInvalidRegexRules compile raw),
      dropInvalidRegexRules compile raw, filter (\<lambda>r. compile (Pattern r) = None) raw)"
  by (induction raw) (auto simp: dropInvalidRegexRules_def Let_def split: option.splits)

lemma checkRegexRules_None [config]:
  "checkRegexRules compile i raw = None \<longleftrightarrow> (\<forall>r\<in>set raw. Pattern r \<noteq> [] \<and> compile (Pattern r) \<noteq> None)"
  by (induction raw arbitrary: i) auto

definition in_force :: "compiler \<Rightarrow> CustomRegexConfig list \<Rightarrow> CustomRegexRule list \<Rightarrow> bool" where
  "in_force compile raw rules \<longleftrightarrow>
     map (\<lambda>r. (Some (Regexp r), rr_Name r)) rules = map (\<lambda>r. (compile (Pattern r), rc_Name r)) raw"

lemma rulesOf_in_force:
  "\<forall>r\<in>set raw. Pattern r \<noteq> [] \<and> compile (Pattern r) \<noteq> None \<Longrightarrow> in_force compile raw (rulesOf compile raw)"
  by (auto simp: in_force_def rulesOf_def compileRegexRules_eq dropInvalidRegexRules_def filter_True)

lemma policyRules_custom [config]:
  "policyRules compile (ApplyCustomRegexes compile) raw c = Inr c' \<Longrightarrow> CustomRegexes c = [] \<Longrightarrow>
     in_force compile raw (CustomRegexes c') \<and>
     c' = c\<lparr>CustomRegexes := CustomRegexes c', CombinedCustomRegex := CombinedCustomRegex c', CustomRegexNames := CustomRegexNames c'\<rparr>"
  using ApplyCustomRegexes_fields [of compile raw c] rulesOf_in_force [of raw compile]
  by (auto simp: policyRules_def checkRegexRules_None in_force_def split: option.splits if_splits prod.splits)

lemma policyRules_safe [config]:
  "policyRules compile (ApplySafeRegexes compile) raw c = Inr c' \<Longrightarrow> SafeRegexes c = [] \<Longrightarrow>
     in_force compile raw (SafeRegexes c') \<and> c' = c\<lparr>SafeRegexes := SafeRegexes c'\<rparr>"
  using ApplySafeRegexes_fields [of compile raw c] rulesOf_in_force [of raw compile]
  by (auto simp: policyRules_def checkRegexRules_None in_force_def split: option.splits if_splits prod.splits)

lemma ToLower_nonempty [config]: "s \<noteq> [] \<Longrightarrow> ToLower ut s \<noteq> []"
proof -
  assume "s \<noteq> []"
  then have "Runes s \<noteq> []" by (subst Runes.simps) simp
  moreover have "EncodeRune r \<noteq> []" for r using EncodeRune_length [of r] by auto
  ultimately show ?thesis using \<open>s \<noteq> []\<close> by (cases "Runes s") (auto simp: ToLower_def)
qed

lemma TrimSpace_id:
  "\<not> IsSpace (fst (DecodeRune k)) \<Longrightarrow> \<not> IsSpace (fst (DecodeLastRune k)) \<Longrightarrow> TrimSpace k = k"
  by (simp add: TrimSpace_def TrimLeftSpace.simps [of k] TrimRightSpace.simps [of k])

lemma DecodeLastRune_three:
  assumes "128 \<le> byte c" and "\<not> RuneStart c" and "\<not> RuneStart b" and "RuneStart a" and "DecodeRune [a, b, c] = (r, 3)"
  shows "DecodeLastRune (s @ [a, b, c]) = (r, 3)"
proof -
  let ?t = "s @ [a, b, c]"
  have upt: "rev [length ?t - 4 ..< length ?t - 1] = Suc (length s) # length s # rev [length s - 1 ..< length s]"
    by (simp add: upt_Suc)
  have "back_start ?t = length s"
    unfolding back_start_def Let_def upt using assms(3,4) by (simp add: nth_append)
  then show ?thesis using assms(1,5) by (simp add: DecodeLastRune_def)
qed

lemma DecodeLastRune_Encode:
  assumes "2048 \<le> r" and "r < 55296"
  shows "DecodeLastRune (s @ EncodeRune r) = (r, 3)"
proof -
  have enc: "EncodeRune r = [char_of (224 + r div 4096), char_of (128 + r div 64 mod 64), char_of (128 + r mod 64)]"
    using assms by (simp add: EncodeRune_def)
  have "DecodeRune (EncodeRune r) = (r, 3)" using Decode_Encode3 [of r "[]"] assms by (simp add: valid_rune_def)
  moreover have "r div 4096 < 16" using assms by simp
  ultimately show ?thesis unfolding enc
    by (intro DecodeLastRune_three) (simp_all add: RuneStart_def)
qed

lemma TrimSpace_ascii:
  "k \<noteq> [] \<Longrightarrow> isASCIILetter (hd k) \<Longrightarrow> isASCIILetter (last k) \<Longrightarrow> TrimSpace k = k"
  by (intro TrimSpace_id)
    (auto simp: neq_Nil_conv isASCIILetter_byte DecodeRune_ascii DecodeLastRune_def IsSpace_def split: if_splits)

lemma TrimSpace_cjk:
  assumes "2048 \<le> q" "q < 55296" "2048 \<le> r" "r < 55296" and "\<not> IsSpace q" "\<not> IsSpace r"
  shows "TrimSpace (EncodeRune q @ s @ EncodeRune r) = EncodeRune q @ s @ EncodeRune r"
proof (rule TrimSpace_id)
  show "\<not> IsSpace (fst (DecodeRune (EncodeRune q @ s @ EncodeRune r)))"
    using Decode_Encode3 [of q] assms by (simp add: valid_rune_def)
  show "\<not> IsSpace (fst (DecodeLastRune (EncodeRune q @ s @ EncodeRune r)))"
    using DecodeLastRune_Encode [of r "EncodeRune q @ s"] assms by simp
qed

lemma defaultKeys_nonempty: "[] \<notin> set (SensitiveKeys (DefaultConfig ut))"
proof -
  have "TrimSpace (EncodeRune q @ s @ EncodeRune r) \<noteq> []"
    if "12288 < q" "q < 55296" "12288 < r" "r < 55296" for q r s
    using TrimSpace_cjk [of q r s] EncodeRune_length [of q] that by (auto simp: IsSpace_def)
  note cjk = this [of _ _ "[]", simplified] this
  have "list_all (\<lambda>k. TrimSpace k \<noteq> []) defaultKeys"
    using cjk(2) [of "0x30D1" "0x30C9" "concat (map EncodeRune [0x30B9, 0x30EF, 0x30FC])"]
    by (simp add: defaultKeys_def TrimSpace_ascii isASCIILetter_byte cjk(1))
  then have "\<forall>k\<in>set defaultKeys. ToLower ut (TrimSpace k) \<noteq> []" by (simp add: list_all_iff ToLower_nonempty)
  then show ?thesis by (force simp: DefaultConfig_def normalizeKeys_def)
qed

definition settings_ok :: "Config \<Rightarrow> bool" where
  "settings_ok c \<longleftrightarrow> Salt c = [] \<and> 1 \<le> MinSecretLength c \<and> MinSecretLength c \<le> MaxMinSecretLength
     \<and> 0 < EntropyThreshold c \<and> 0 < ConfidenceThreshold c \<and> [] \<notin> set (SensitiveKeys c)"

lemma settings_ok_default: "settings_ok (DefaultConfig ut)"
  using defaultKeys_nonempty by (simp add: settings_ok_def DefaultConfig_def DefaultMinSecretLength_def
      MaxMinSecretLength_def DefaultEntropyThreshold_def)

lemma settings_ok_thresholds [config]: "policyThresholds pf c = Inr c' \<Longrightarrow> settings_ok c \<Longrightarrow> settings_ok c'"
  by (auto simp: policyThresholds_def settings_ok_def Let_def split: if_splits)

lemma settings_ok_keys [config]: "policyKeys ut pf c = Inr c' \<Longrightarrow> settings_ok c \<Longrightarrow> settings_ok c'"
  by (auto simp: policyKeys_def settings_ok_def Let_def split: if_splits)

lemma policyPatterns_fields [config]:
  "policyPatterns compile pf c = Inr c' \<Longrightarrow> c' = c\<lparr>SensitiveKeyPatterns := SensitiveKeyPatterns c'\<rparr>"
  by (auto simp: policyPatterns_def ApplySensitiveKeyPatterns_def Let_def split: if_splits option.splits)

lemma settings_ok_update [simp]:
  "settings_ok (c\<lparr>SensitiveKeyPatterns := p\<rparr>) = settings_ok c"
  "settings_ok (c\<lparr>CustomRegexes := r, CombinedCustomRegex := m, CustomRegexNames := n\<rparr>) = settings_ok c"
  "settings_ok (c\<lparr>SafeRegexes := r\<rparr>) = settings_ok c"
  by (simp_all add: settings_ok_def)

lemma settings_ok_patterns [config]: "policyPatterns compile pf c = Inr c' \<Longrightarrow> settings_ok c \<Longrightarrow> settings_ok c'"
  by (metis policyPatterns_fields settings_ok_update(1))

lemma sdkFlags_fields [config]:
  "sdkFlags pf c = c\<lparr>DisableBigramCheck := pick (sdk_DisableBigramCheck pf) (DisableBigramCheck c),
     AdaptiveThreshold := pick (sdk_AdaptiveThreshold pf) (AdaptiveThreshold c),
     EntityTypeLabels := pick (sdk_EntityTypeLabels pf) (EntityTypeLabels c)\<rparr>"
  by (cases "sdk_DisableBigramCheck pf"; cases "sdk_AdaptiveThreshold pf"; cases "sdk_EntityTypeLabels pf")
    (simp_all add: sdkFlags_def set_opt_def)

lemma settings_ok_flags [config]: "settings_ok (sdkFlags pf c) = settings_ok c"
  by (simp add: sdkFlags_fields settings_ok_def)

definition no_rules :: "Config \<Rightarrow> bool" where
  "no_rules c \<longleftrightarrow> CustomRegexes c = [] \<and> SafeRegexes c = []"

lemma no_rules_thresholds [config]: "policyThresholds pf c = Inr c' \<Longrightarrow> no_rules c \<Longrightarrow> no_rules c'"
  by (auto simp: policyThresholds_def no_rules_def Let_def split: if_splits)

lemma no_rules_keys [config]: "policyKeys ut pf c = Inr c' \<Longrightarrow> no_rules c \<Longrightarrow> no_rules c'"
  by (auto simp: policyKeys_def no_rules_def Let_def split: if_splits)

lemma no_rules_patterns [config]:
  assumes "policyPatterns compile pf c = Inr c'" and "no_rules c"
  shows "no_rules c'"
  using assms(2) by (subst policyPatterns_fields [OF assms(1)]) (simp add: no_rules_def)

lemma no_rules_flags [config]: "no_rules (sdkFlags pf c) = no_rules c"
  by (simp add: sdkFlags_fields no_rules_def)

lemma no_rules_default: "no_rules (DefaultConfig ut)"
  by (simp add: no_rules_def DefaultConfig_def)

text \<open>What a policy file sets.\<close>

definition pinned :: "unicode_tables \<Rightarrow> policyFile \<Rightarrow> Config \<Rightarrow> bool" where
  "pinned ut pf c \<longleftrightarrow> (sdk_EntropyThreshold pf > 0 \<longrightarrow> EntropyThreshold c = sdk_EntropyThreshold pf)
     \<and> (sdk_ConfidenceThreshold pf > 0 \<longrightarrow> ConfidenceThreshold c = sdk_ConfidenceThreshold pf)
     \<and> (sdk_MinSecretLength pf > 0 \<longrightarrow> MinSecretLength c = sdk_MinSecretLength pf)
     \<and> (sdk_SensitiveKeys pf \<noteq> [] \<longrightarrow> SensitiveKeys c = normalizeKeys ut (sdk_SensitiveKeys pf))"

lemma pinned_update [simp]:
  "pinned ut pf (c\<lparr>SensitiveKeyPatterns := p\<rparr>) = pinned ut pf c"
  "pinned ut pf (c\<lparr>CustomRegexes := r, CombinedCustomRegex := m, CustomRegexNames := n\<rparr>) = pinned ut pf c"
  "pinned ut pf (c\<lparr>SafeRegexes := r\<rparr>) = pinned ut pf c"
  "pinned ut pf (sdkFlags pf c) = pinned ut pf c"
  by (simp_all add: pinned_def sdkFlags_fields)

lemma ParsePolicyJSON_parts:
  assumes "ParsePolicyJSON ut compile (Some pf) = Inr (cfg, revision)"
  shows "in_force compile (sdk_CustomRegexes pf) (CustomRegexes cfg)
    \<and> in_force compile (sdk_SafeRegexes pf) (SafeRegexes cfg)
    \<and> settings_ok cfg \<and> pinned ut pf cfg \<and> revision = Revision pf"
proof -
  obtain c1 c2 c3 c4 where steps: "policyThresholds pf (DefaultConfig ut) = Inr c1" "policyKeys ut pf c1 = Inr c2"
    "policyPatterns compile pf (sdkFlags pf c2) = Inr c3"
    "policyRules compile (ApplyCustomRegexes compile) (sdk_CustomRegexes pf) c3 = Inr c4"
    "policyRules compile (ApplySafeRegexes compile) (sdk_SafeRegexes pf) c4 = Inr cfg" and revision: "revision = Revision pf"
    using assms by (auto simp: ParsePolicyJSON_def andThen_Inr)
  have ok: "settings_ok c3" using settings_ok_default settings_ok_thresholds [OF steps(1)] settings_ok_keys [OF steps(2)]
      settings_ok_patterns [OF steps(3)] by (simp add: settings_ok_flags)
  have none: "no_rules c3" using no_rules_default no_rules_thresholds [OF steps(1)] no_rules_keys [OF steps(2)]
      no_rules_patterns [OF steps(3)] by (simp add: no_rules_flags)
  have "pinned ut pf c2" using steps(1,2)
    by (auto simp: policyThresholds_def policyKeys_def pinned_def Let_def split: if_splits)
  then have pin: "pinned ut pf c3" by (subst policyPatterns_fields [OF steps(3)]) simp
  have custom: "in_force compile (sdk_CustomRegexes pf) (CustomRegexes c4)"
    and c4: "c4 = c3\<lparr>CustomRegexes := CustomRegexes c4, CombinedCustomRegex := CombinedCustomRegex c4, CustomRegexNames := CustomRegexNames c4\<rparr>"
    using policyRules_custom [OF steps(4)] none by (auto simp: no_rules_def)
  have "SafeRegexes c4 = []" using none by (subst c4) (simp add: no_rules_def)
  then have safe: "in_force compile (sdk_SafeRegexes pf) (SafeRegexes cfg)"
    and cfg: "cfg = c4\<lparr>SafeRegexes := SafeRegexes cfg\<rparr>" using policyRules_safe [OF steps(5)] by auto
  have "settings_ok c4" "pinned ut pf c4" using ok pin by (subst c4, simp)+
  then have "settings_ok cfg" "pinned ut pf cfg" by (subst cfg, simp)+
  moreover have "CustomRegexes cfg = CustomRegexes c4" by (subst cfg) simp
  ultimately show ?thesis using custom safe revision by simp
qed

text \<open>
  C11: A policy file that is accepted is applied whole: every one of its custom and safe rules is in
  force, in order and under its name, and the settings are in range whatever the file says, with no
  empty key and no salt from the file. A file with one bad rule, key or value is refused, so no
  part of it takes effect.\<close>

theorem ParsePolicyJSON_whole:
  assumes "ParsePolicyJSON ut compile (Some pf) = Inr (cfg, revision)"
  shows "in_force compile (sdk_CustomRegexes pf) (CustomRegexes cfg)
    \<and> in_force compile (sdk_SafeRegexes pf) (SafeRegexes cfg)
    \<and> settings_ok cfg \<and> revision = Revision pf"
  using ParsePolicyJSON_parts [OF assms] by blast

definition literal_regexp :: "string \<Rightarrow> regexp" where
  "literal_regexp p = \<lparr>MatchString = (\<lambda>s. Contains s p), FindStringSubmatchIndex = (\<lambda>_. None)\<rparr>"

definition policy_example :: policyFile where
  "policy_example = \<lparr>sdk_EntropyThreshold = 0, sdk_Salt = ''x'', sdk_ConfidenceThreshold = 2, sdk_FailPolicy = [],
     sdk_MinSecretLength = 8, sdk_SensitiveKeys = [''Iban''], sdk_DisableBigramCheck = None, sdk_AdaptiveThreshold = None,
     sdk_EntityTypeLabels = Some True, sdk_SensitiveKeyPatterns = [],
     sdk_CustomRegexes = [\<lparr>Pattern = ''EMP'', rc_Name = ''employee''\<rparr>], sdk_SafeRegexes = [], Revision = ''7''\<rparr>"

theorem ParsePolicyJSON_whole_witness:
  "\<exists>cfg. ParsePolicyJSON ascii_only (\<lambda>p. Some (literal_regexp p)) (Some policy_example) = Inr (cfg, ''7'')
     \<and> in_force (\<lambda>p. Some (literal_regexp p)) (sdk_CustomRegexes policy_example) (CustomRegexes cfg)"
proof -
  have "lowerASCIIByte CHR ''I'' = CHR ''i''" by code_simp
  then have "normalizeKeys ascii_only [''Iban''] = [''iban'']"
    by (simp add: normalizeKeys_def TrimSpace_ascii isASCIILetter_byte ToLower_def hasNonASCII_def RuneSelf_def
        lowerASCIIByte_def [of "CHR ''b''"] lowerASCIIByte_def [of "CHR ''a''"] lowerASCIIByte_def [of "CHR ''n''"])
  then obtain cfg where
    "ParsePolicyJSON ascii_only (\<lambda>p. Some (literal_regexp p)) (Some policy_example) = Inr (cfg, ''7'')"
    by (simp add: ParsePolicyJSON_def policy_example_def policyThresholds_def policyKeys_def policyPatterns_def
        policyRules_def MaxMinSecretLength_def ApplyCustomRegexes_def Let_def)
  then show ?thesis using ParsePolicyJSON_whole by blast
qed

end
