(* ===== verification/Complexity.thy ===== *)
theory Complexity
  imports Config TokenShapes
begin

text \<open>
  The complexity score of \<^verbatim>\<open>scanner.go\<close>: Shannon entropy, the bonus for character
  classes and the letter-pair adjustment, and the rules that score a compound of words by
  its parts (also \<open>isIdentifierName\<close> of \<^verbatim>\<open>sqlident.go\<close>). Scores are real numbers; the
  rounding of Go's float64 is not modelled, so a sum does not depend on the order in which
  Go visits a map.
\<close>

named_theorems score "bounds of the complexity score"

subsection \<open>Entropy, classes and letter pairs\<close>

definition log2 :: "nat \<Rightarrow> real" where
  "log2 n = log 2 (real n)"

text \<open>The term a character seen \<open>c\<close> times among \<open>n\<close> contributes.\<close>

definition entropyTerm :: "nat \<Rightarrow> nat \<Rightarrow> real" where
  "entropyTerm n c = (real c / real n) * (log2 c - log2 n)"

definition asciiCounts :: "string \<Rightarrow> nat list" where
  "asciiCounts token = map (\<lambda>b. count_list (map of_char token) b) [0 ..< RuneSelf]"

definition calculateShannon :: "string \<Rightarrow> real" where
  "calculateShannon token =
    (if token = [] then 0
     else if \<not> hasNonASCII token then
       foldl (\<lambda>entropy c. if c = 0 then entropy else entropy - entropyTerm (length token) c) 0 (asciiCounts token)
     else let rs = Runes token in
       foldl (\<lambda>entropy r. entropy - entropyTerm (length rs) (count_list rs r)) 0 (remdups rs))"

definition calculateClassBonus :: "unicode_tables \<Rightarrow> string \<Rightarrow> real" where
  "calculateClassBonus ut token =
    (let rs = Runes token;
         classes = of_bool (list_ex (IsUpper ut) rs) + of_bool (list_ex (IsLower ut) rs) + of_bool (list_ex (IsDigit ut) rs)
           + of_bool (list_ex (\<lambda>r. IsPunct ut r \<or> IsSymbol ut r) rs) :: nat in
     if classes > 1 then real (classes - 1) * 0.5 else 0)"

definition bigramProb :: "configState \<Rightarrow> string \<Rightarrow> real" where
  "bigramProb st b = lookupBigram (BigramDefaultScore (config st)) b"

definition bigramProbBytes :: "configState \<Rightarrow> char \<Rightarrow> char \<Rightarrow> real" where
  "bigramProbBytes st b0 b1 = readBigram (bigrams st) (BigramDefaultScore (config st)) b0 b1"

definition letterBigram :: "configState \<Rightarrow> char \<Rightarrow> char \<Rightarrow> real" where
  "letterBigram st b0 b1 = bigramProbBytes st (lowerASCIIByte b0) (lowerASCIIByte b1)"

definition isASCIIString :: "string \<Rightarrow> bool" where
  "isASCIIString s \<longleftrightarrow> list_all (\<lambda>c. byte c < RuneSelf) s"

text \<open>The adjacent ASCII characters of a token, lowered; a rune outside ASCII breaks the chain.\<close>

fun asciiPairs :: "char option \<Rightarrow> nat list \<Rightarrow> (char \<times> char) list" where
  "asciiPairs prev [] = []"
| "asciiPairs prev (r # rs) =
    (if r \<ge> RuneSelf then asciiPairs None rs
     else let cur = lowerASCIIByte (char_of r) in
       (case prev of None \<Rightarrow> [] | Some p \<Rightarrow> [(p, cur)]) @ asciiPairs (Some cur) rs)"

definition bytePairs :: "string \<Rightarrow> (char \<times> char) list" where
  "bytePairs s = zip s (tl s)"

definition sumPairs :: "configState \<Rightarrow> (char \<times> char) list \<Rightarrow> real" where
  "sumPairs st ps = sum_list (map (\<lambda>(a, b). bigramProbBytes st a b) ps)"

definition calculateBigramAdjustment :: "configState \<Rightarrow> string \<Rightarrow> real" where
  "calculateBigramAdjustment st token =
    (if DisableBigramCheck (config st) \<or> length token \<le> 3 then 0
     else let ps = (if isASCIIString token then bytePairs (map lowerASCIIByte token) else asciiPairs None (Runes token)) in
       if length ps > 0 then
         (let avg = sumPairs st ps / real (length ps) in
          if avg > -5.8 then -1.5 else if avg < -7.0 then 0.5 else 0)
       else 0)"

definition calculateRawComplexity :: "configState \<Rightarrow> string \<Rightarrow> real" where
  "calculateRawComplexity st token =
    (if length token = 0 then 0
     else calculateShannon token + calculateClassBonus (unicode st) token + calculateBigramAdjustment st token)"

subsection \<open>Parts of a compound\<close>

definition nextCamelPart :: "string \<Rightarrow> nat \<Rightarrow> string \<times> nat" where
  "nextCamelPart token i =
    (if i \<ge> length token then ([], length token)
     else let j = skip_while (\<lambda>c. \<not> isUpperASCII c) token (i + 1) in (slice token i j, j))"

text \<open>The parts a loop over \<open>nextCamelPart\<close> visits from index \<open>i\<close> on.\<close>

function camelParts :: "string \<Rightarrow> nat \<Rightarrow> string list" where
  "camelParts token i =
    (if i \<ge> length token then []
     else fst (nextCamelPart token i) # camelParts token (snd (nextCamelPart token i)))"
  by pat_completeness auto
termination
  by (relation "measure (\<lambda>(t, i). length t - i)")
    (auto simp: nextCamelPart_def Let_def intro!: diff_less_mono2)

definition isCompoundSep :: "char \<Rightarrow> bool" where
  "isCompoundSep c \<longleftrightarrow> c = CHR ''-'' \<or> c = CHR ''.'' \<or> c = CHR ''_'' \<or> c = CHR ''/''"

definition nextCompoundPart :: "string \<Rightarrow> nat \<Rightarrow> string \<times> nat" where
  "nextCompoundPart token i =
    (let start = skip_while isCompoundSep token i in
     if start \<ge> length token then ([], length token)
     else let e = skip_while (\<lambda>c. \<not> isCompoundSep c) token start in (slice token start e, e + 1))"

lemma nextCompoundPart_advance [score]:
  assumes "fst (nextCompoundPart token i) \<noteq> []"
  shows "i < snd (nextCompoundPart token i) \<and> i < length token"
proof -
  define a where "a = skip_while isCompoundSep token i"
  define e where "e = skip_while (\<lambda>c. \<not> isCompoundSep c) token a"
  have "i \<le> a" "a \<le> e" unfolding a_def e_def by (rule skip_while_ge)+
  then show ?thesis using assms
    by (auto simp: nextCompoundPart_def Let_def split: if_splits simp flip: a_def e_def)
qed

function compoundParts :: "string \<Rightarrow> nat \<Rightarrow> string list" where
  "compoundParts token i =
    (if fst (nextCompoundPart token i) = [] then []
     else fst (nextCompoundPart token i) # compoundParts token (snd (nextCompoundPart token i)))"
  by pat_completeness auto
termination
  by (relation "measure (\<lambda>(t, i). length t - i)") (auto dest!: nextCompoundPart_advance intro!: diff_less_mono2)

declare camelParts.simps [simp del] compoundParts.simps [simp del]

definition isIndexedName :: "string \<Rightarrow> bool" where
  "isIndexedName token =
    (if ContainsAny token ''./'' then False
     else let ps = compoundParts token (snd (nextCompoundPart token 0)) in
       list_all (list_all isASCIIDigit) ps \<and> ps \<noteq> [])"

text \<open>
  Every caller of \<open>namesSecret\<close> has turned away tokens of more than 128 bytes, the size of the
  buffer the source lowers into.
\<close>

definition namesSecret :: "configState \<Rightarrow> string \<Rightarrow> bool" where
  "namesSecret st token =
    (let low = map lowerASCIIByte token in
     if list_ex (Contains low) (SensitiveKeys (config st)) then True
     else case sensitiveRegex st of None \<Rightarrow> False | Some re \<Rightarrow> MatchString re token)"

definition compoundMinBigramAvg :: real where "compoundMinBigramAvg = -6.5"

definition letterPairs :: "string \<Rightarrow> (char \<times> char) list" where
  "letterPairs p = filter (\<lambda>(a, b). isASCIILetter a \<and> isASCIILetter b) (bytePairs p)"

definition sumLetters :: "configState \<Rightarrow> (char \<times> char) list \<Rightarrow> real" where
  "sumLetters st ps = sum_list (map (\<lambda>(a, b). letterBigram st a b) ps)"

text \<open>More than two pairs that read like random letters.\<close>

definition pairsReadRandom :: "configState \<Rightarrow> (char \<times> char) list \<Rightarrow> bool" where
  "pairsReadRandom st ps \<longleftrightarrow> length ps > 2 \<and> sumLetters st ps / real (length ps) \<le> compoundMinBigramAvg"

definition isCamelWordCompound :: "configState \<Rightarrow> string \<Rightarrow> bool" where
  "isCamelWordCompound st token =
    (if DisableBigramCheck (config st) \<or> length token > 128 then False
     else let ps = camelParts token 0 in
       if \<not> list_all (\<lambda>p. \<not> length p < 2 \<and> list_all isASCIILetter p) ps then False
       else if length ps < 2 \<or> \<not> list_ex (\<lambda>p. length p \<ge> 3) ps
         \<or> pairsReadRandom st (concat (map bytePairs ps)) then False
       else \<not> namesSecret st token)"

definition isCamelDigitCompound :: "configState \<Rightarrow> string \<Rightarrow> bool" where
  "isCamelDigitCompound st token =
    (if DisableBigramCheck (config st) \<or> length token > 128 \<or> \<not> ContainsAny token ''0123456789''
        \<or> \<not> isCamelCaseWithDigits token then False
     else let ls = map (takeWhile isASCIILetter) (camelParts token 0) in
       if length ls < 2 \<or> \<not> list_ex (\<lambda>l. length l \<ge> 3) ls \<or> pairsReadRandom st (concat (map bytePairs ls)) then False
       else \<not> namesSecret st token)"

definition isTwoLetterPrefixedName :: "configState \<Rightarrow> string \<Rightarrow> bool" where
  "isTwoLetterPrefixedName st p =
    (if length p < 5 \<or> length p > 64 \<or> \<not> isUpperASCII (p ! 0) \<or> \<not> isLowerASCII (p ! 1) \<or> \<not> isUpperASCII (p ! 2) then False
     else let ws = camelParts p 2; ps = concat (map bytePairs ws) in
       if \<not> list_all (\<lambda>w. \<not> length w < 3 \<and> list_all isASCIILetter w) ws then False
       else length ps > 0 \<and> sumLetters st ps / real (length ps) > compoundMinBigramAvg \<and> \<not> namesSecret st p)"

subsection \<open>Compounds of words\<close>

definition lowerAlone :: "string \<Rightarrow> nat \<Rightarrow> nat \<Rightarrow> bool" where
  "lowerAlone p letters j \<longleftrightarrow> isLowerASCII (p ! j) \<and> (j = 0 \<or> \<not> isLowerASCII (p ! (j - 1)))
     \<and> (j + 1 = letters \<or> \<not> isLowerASCII (p ! (j + 1)))"

text \<open>A short letter run and one digit in front of a word, allowed in dotted names.\<close>

definition versionPrefix :: "string \<Rightarrow> bool \<Rightarrow> nat \<Rightarrow> nat \<Rightarrow> bool" where
  "versionPrefix p dotted letters tl_start \<longleftrightarrow>
     \<not> (\<not> dotted \<or> letters = 0 \<or> letters = 2 \<or> letters > 4 \<or> tl_start - letters \<noteq> 1 \<or> length p - tl_start < 4)
     \<and> \<not> (letters = 1 \<and> p ! 0 \<notin> set ''vVsS'')
     \<and> \<not> (letters \<ge> 3 \<and> \<not> isUpperASCII (p ! tl_start))"

definition aloneOK :: "string \<Rightarrow> bool \<Rightarrow> nat \<Rightarrow> bool" where
  "aloneOK p dotted letters =
    (let alone = length (filter (lowerAlone p letters) [0 ..< letters]) in
     letters < 4 \<or> alone = 0 \<or> (alone = 1 \<and> dotted))"

definition wordShapedPart :: "string \<Rightarrow> bool \<Rightarrow> nat option" where
  "wordShapedPart p dotted =
    (if length p > 24 then None
     else let letters = skip_while isASCIILetter p 0; d = skip_while isASCIIDigit p letters in
       if d - letters > 8 then None
       else let i = skip_while isASCIILetter p d in
         if i \<noteq> length p then None
         else if i - d > 2 then
           (if \<not> versionPrefix p dotted letters d then None
            else if aloneOK (drop d p) dotted (i - d) then Some (i - d) else None)
         else if aloneOK p dotted letters then Some letters else None)"

definition partLetters :: "configState \<Rightarrow> string \<Rightarrow> bool \<Rightarrow> string \<Rightarrow> nat option" where
  "partLetters st token dotOnly p = (case wordShapedPart p dotOnly of
     Some l \<Rightarrow> Some l
   | None \<Rightarrow> if \<not> isIndexedName token \<or> \<not> isTwoLetterPrefixedName st p then None else Some (length p))"

definition isWordCompound :: "configState \<Rightarrow> string \<Rightarrow> bool" where
  "isWordCompound st token =
    (if DisableBigramCheck (config st) \<or> length token > 128 \<or> \<not> ContainsAny token ''-._/'' then False
     else let first = fst (nextCompoundPart token 0);
              dotOnly = (\<not> ContainsAny token ''-_/'');
              ps = compoundParts token 0 in
       if \<not> list_all (\<lambda>p. partLetters st token dotOnly p \<noteq> None) ps then False
       else let hasWord = list_ex (\<lambda>p. partLetters st token dotOnly p = Some (length p) \<and> length p \<ge> 3) ps;
                sameLength = (length first \<ge> 4 \<and> \<not> dotOnly \<and> list_all (\<lambda>p. length p = length first) ps) in
         if length ps < 2 \<or> \<not> hasWord \<or> sameLength \<or> pairsReadRandom st (concat (map letterPairs ps)) then False
         else \<not> namesSecret st token)"

definition maxScore :: "real \<Rightarrow> real \<Rightarrow> real" where
  "maxScore best s = (if s > best then s else best)"

definition camelPartsComplexity :: "configState \<Rightarrow> string \<Rightarrow> real" where
  "camelPartsComplexity st token = foldl (\<lambda>best p. maxScore best (calculateRawComplexity st p)) 0 (camelParts token 0)"

definition partComplexity :: "configState \<Rightarrow> string \<Rightarrow> bool \<Rightarrow> real" where
  "partComplexity st part dotted =
    (if isCamelDigitCompound st part \<or> (dotted \<and> isCamelWordCompound st part) then camelPartsComplexity st part
     else calculateRawComplexity st part)"

definition readsAsCamel :: "configState \<Rightarrow> string \<Rightarrow> bool" where
  "readsAsCamel st token \<longleftrightarrow>
     isCamelDigitCompound st token \<or> (\<not> ContainsAny token ''-._/'' \<and> isCamelWordCompound st token)"

definition readsAsWords :: "configState \<Rightarrow> string \<Rightarrow> bool" where
  "readsAsWords st token \<longleftrightarrow> isWordCompound st token \<or> readsAsCamel st token"

definition scorePart :: "configState \<Rightarrow> bool \<Rightarrow> real \<Rightarrow> string \<Rightarrow> real" where
  "scorePart st dotted best part =
    (if length part < 256 \<and> log2 (length part) + 2 \<le> best then best
     else maxScore best (partComplexity st part dotted))"

definition calculateComplexity :: "configState \<Rightarrow> string \<Rightarrow> real" where
  "calculateComplexity st token =
    (if \<not> isWordCompound st token then
       (if readsAsCamel st token then camelPartsComplexity st token else calculateRawComplexity st token)
     else let dotted = (\<not> ContainsAny token ''-_/'' \<or> isIndexedName token) in
       foldl (scorePart st dotted) 0 (compoundParts token 0))"

definition isIdentifierName :: "configState \<Rightarrow> string \<Rightarrow> bool" where
  "isIdentifierName st s =
    (if DisableBigramCheck (config st) \<or> length s < 3 \<or> length s > 64 then False
     else let ps = SplitAny s ''._''; ls = map (takeWhile isASCIILetter) ps in
       if \<not> list_all (\<lambda>p. p \<noteq> [] \<and> list_all isASCIIDigit (dropWhile isASCIILetter p)
            \<and> \<not> length (takeWhile isASCIILetter p) < 2) ps then False
       else if length ps < 2 \<or> \<not> list_ex (\<lambda>l. length l \<ge> 3) ls \<or> pairsReadRandom st (concat (map bytePairs ls)) then False
       else \<not> namesSecret st s)"

subsection \<open>Entropy of the rune frequencies\<close>

text \<open>The Shannon entropy of the frequencies of a list.\<close>

definition frequency :: "'a list \<Rightarrow> 'a \<Rightarrow> real" where
  "frequency xs x = real (count_list xs x) / real (length xs)"

definition shannon :: "'a list \<Rightarrow> real" where
  "shannon xs = (\<Sum>x\<in>set xs. - frequency xs x * log 2 (frequency xs x))"

lemma entropyTerm_frequency:
  "x \<in> set xs \<Longrightarrow> entropyTerm (length xs) (count_list xs x) = frequency xs x * log 2 (frequency xs x)"
proof -
  assume "x \<in> set xs"
  then have "0 < count_list xs x" "0 < length xs" using count_list_0_iff [of xs x] by auto
  then show ?thesis by (simp add: entropyTerm_def frequency_def log2_def log_divide)
qed

lemma foldl_minus: "foldl (\<lambda>e x. e - f x) (a::real) xs = a - sum_list (map f xs)"
  by (induction xs arbitrary: a) auto

lemma foldl_minus_if:
  "foldl (\<lambda>e x. if P x then e else e - f x) (a::real) xs = a - sum_list (map f (filter (\<lambda>x. \<not> P x) xs))"
  by (induction xs arbitrary: a) auto

lemma shannon_distinct:
  assumes "distinct ys" and "set ys = set xs"
  shows "shannon xs = - sum_list (map (\<lambda>x. entropyTerm (length xs) (count_list xs x)) ys)"
proof -
  have "shannon xs = (\<Sum>x\<in>set ys. - entropyTerm (length xs) (count_list xs x))"
    unfolding shannon_def assms(2) by (rule sum.cong) (auto simp: entropyTerm_frequency)
  also have "\<dots> = sum_list (map (\<lambda>x. - entropyTerm (length xs) (count_list xs x)) ys)"
    using assms(1) by (simp add: sum_list_distinct_conv_sum_set)
  also have "\<dots> = - sum_list (map (\<lambda>x. entropyTerm (length xs) (count_list xs x)) ys)"
    by (induction ys) auto
  finally show ?thesis .
qed

lemma hasNonASCII_iff [simp]: "\<not> hasNonASCII s \<longleftrightarrow> (\<forall>c\<in>set s. byte c < 128)"
  by (auto simp: hasNonASCII_def list_ex_iff RuneSelf_def not_le)

lemma calculateShannon_shannon: "calculateShannon token = shannon (Runes token)"
proof (cases "hasNonASCII token")
  case True
  then show ?thesis
    using shannon_distinct [of "remdups (Runes token)" "Runes token"]
    by (auto simp: calculateShannon_def Let_def foldl_minus hasNonASCII_def)
next
  case False
  let ?bs = "map of_char token :: nat list"
  let ?ys = "filter (\<lambda>b. count_list ?bs b \<noteq> 0) [0 ..< 128]"
  have runes: "Runes token = ?bs" using False by (simp add: Runes_ascii)
  have "set ?ys = set ?bs" using False by (auto simp: count_list_0_iff)
  then have "shannon ?bs = - sum_list (map (\<lambda>x. entropyTerm (length ?bs) (count_list ?bs x)) ?ys)"
    by (intro shannon_distinct) simp_all
  also have "\<dots> = calculateShannon token"
    using False by (auto simp: calculateShannon_def foldl_minus_if asciiCounts_def RuneSelf_def filter_map comp_def)
  finally show ?thesis by (simp add: runes)
qed

text \<open>
  C13: The entropy the scorer computes is the Shannon entropy of the rune frequencies of the token:
  the counting array for ASCII tokens and the map for all others give the same quantity.\<close>

theorem calculateShannon_entropy: "calculateShannon token = shannon (Runes token)"
  by (rule calculateShannon_shannon)

subsection \<open>Bounds of the score\<close>

lemma frequency_pos: "x \<in> set xs \<Longrightarrow> 0 < frequency xs x"
  using count_list_0_iff [of xs x] by (auto simp: frequency_def intro!: divide_pos_pos)

lemma frequency_le_1: "frequency xs x \<le> 1"
  using count_le_length [of xs x] by (cases "xs = []") (auto simp: frequency_def divide_le_eq_1)

lemma sum_frequency: "xs \<noteq> [] \<Longrightarrow> (\<Sum>x\<in>set xs. frequency xs x) = 1"
proof -
  assume "xs \<noteq> []"
  have "(\<Sum>x\<in>set xs. frequency xs x) = real (\<Sum>x\<in>set xs. count_list xs x) / real (length xs)"
    by (simp add: frequency_def sum_divide_distrib)
  also have "(\<Sum>x\<in>set xs. count_list xs x) = length xs" by (rule sum_count_set) auto
  finally show ?thesis using \<open>xs \<noteq> []\<close> by simp
qed

lemma shannon_nonneg [score]: "0 \<le> shannon xs"
  unfolding shannon_def
proof (rule sum_nonneg)
  fix x
  assume "x \<in> set xs"
  then have "0 < frequency xs x" by (rule frequency_pos)
  moreover from this have "log 2 (frequency xs x) \<le> 0" using frequency_le_1 [of xs x] by simp
  ultimately show "0 \<le> - frequency xs x * log 2 (frequency xs x)"
    using mult_nonneg_nonpos [of "frequency xs x" "log 2 (frequency xs x)"] by simp
qed

lemma entropy_term_bound:
  assumes "0 < f" and "0 < k"
  shows "- f * ln f \<le> f * ln k + (1 / k - (f::real))"
proof -
  have "ln (1 / (k * f)) \<le> 1 / (k * f) - 1" using assms by (intro ln_le_minus_one) simp
  then have "- ln f - ln k \<le> 1 / (k * f) - 1" using assms by (simp add: ln_div ln_mult)
  then have "f * (- ln f - ln k) \<le> f * (1 / (k * f) - 1)" using assms by (intro mult_left_mono) auto
  also have "f * (1 / (k * f) - 1) = 1 / k - f" using assms by (simp add: field_simps)
  finally show ?thesis by (simp add: algebra_simps)
qed

lemma shannon_le_log_card [score]:
  assumes "xs \<noteq> []"
  shows "shannon xs \<le> log 2 (real (card (set xs)))"
proof -
  let ?k = "real (card (set xs))" and ?f = "frequency xs"
  have k: "0 < ?k" using assms by (simp add: card_gt_0_iff)
  have "ln 2 * shannon xs = (\<Sum>x\<in>set xs. - ?f x * ln (?f x))"
    unfolding shannon_def sum_distrib_left by (rule sum.cong) (simp_all add: log_def)
  also have "\<dots> \<le> (\<Sum>x\<in>set xs. ?f x * ln ?k + (1 / ?k - ?f x))"
  proof (rule sum_mono)
    fix x
    assume "x \<in> set xs"
    then show "- ?f x * ln (?f x) \<le> ?f x * ln ?k + (1 / ?k - ?f x)"
      by (intro entropy_term_bound frequency_pos k)
  qed
  also have "\<dots> = (\<Sum>x\<in>set xs. ?f x) * ln ?k + ((\<Sum>x\<in>set xs. 1 / ?k) - (\<Sum>x\<in>set xs. ?f x))"
    by (simp only: sum.distrib sum_subtractf sum_distrib_right)
  also have "(\<Sum>x\<in>set xs. 1 / ?k) = 1" using assms by simp
  finally have "ln 2 * shannon xs \<le> ln ?k" using assms by (simp add: sum_frequency)
  then show ?thesis by (simp add: log_def pos_le_divide_eq mult.commute)
qed

lemma length_Runes [score]: "length (Runes s) \<le> length s"
proof (induction s rule: Runes.induct)
  case (1 s)
  then show ?case using DecodeRune_width [of s] by (subst Runes.simps) (auto split: if_splits)
qed

lemma Runes_nonempty: "s \<noteq> [] \<Longrightarrow> Runes s \<noteq> []"
  by (subst Runes.simps) simp

lemma classBonus_bounds [score]: "0 \<le> calculateClassBonus ut token" "calculateClassBonus ut token \<le> 1.5"
proof -
  have "0 \<le> s \<and> s \<le> 1.5" if "s = (if n > 1 then real (n - 1) * 0.5 else 0)" "n \<le> 4" for s :: real and n :: nat
    using that by (cases n) auto
  moreover have "of_bool a + of_bool b + of_bool c + of_bool d \<le> (4::nat)" for a b c d
    by (cases a; cases b; cases c; cases d) simp_all
  ultimately show "0 \<le> calculateClassBonus ut token" "calculateClassBonus ut token \<le> 1.5"
    unfolding calculateClassBonus_def Let_def by blast+
qed

lemma bigramAdjustment_values [score]: "calculateBigramAdjustment st token \<in> {-1.5, 0, 0.5}"
  by (simp add: calculateBigramAdjustment_def Let_def)

lemma bigramAdjustment_le [score]: "calculateBigramAdjustment st token \<le> 0.5"
  using bigramAdjustment_values [of st token] by auto

lemma raw_bound [score]:
  assumes "token \<noteq> []"
  shows "calculateRawComplexity st token \<le> log 2 (real (card (set (Runes token)))) + 2
    \<and> log 2 (real (card (set (Runes token)))) \<le> log2 (length token)"
proof
  have "calculateShannon token \<le> log 2 (real (card (set (Runes token))))"
    using assms by (simp add: calculateShannon_shannon shannon_le_log_card Runes_nonempty)
  then show "calculateRawComplexity st token \<le> log 2 (real (card (set (Runes token)))) + 2"
    using classBonus_bounds(2) [of "unicode st" token] bigramAdjustment_le [of st token] assms
    by (simp add: calculateRawComplexity_def)
  have "card (set (Runes token)) \<le> length token" using card_length [of "Runes token"] length_Runes [of token] by simp
  moreover have "0 < card (set (Runes token))" using assms by (simp add: card_gt_0_iff Runes_nonempty)
  ultimately show "log 2 (real (card (set (Runes token)))) \<le> log2 (length token)"
    by (simp add: log2_def log_mono)
qed

text \<open>
  C14: The score of a run is at most two more than the logarithm of the number of distinct characters
  in it, and so at most two more than that of its length in bytes.\<close>

theorem calculateRawComplexity_bound:
  assumes "token \<noteq> []"
  shows "calculateRawComplexity st token \<le> log 2 (real (card (set (Runes token)))) + 2
    \<and> log 2 (real (card (set (Runes token)))) \<le> log2 (length token)"
  using raw_bound [OF assms] .

theorem calculateRawComplexity_bound_witness:
  "''Ab1'' \<noteq> [] \<and> (\<forall>st. calculateRawComplexity st ''Ab1'' \<le> log 2 3 + 2)"
proof -
  have "card (set (Runes ''Ab1'')) = 3" by (simp add: Runes_ascii)
  then show ?thesis using calculateRawComplexity_bound [of "''Ab1''"] by auto
qed

subsection \<open>Skipping parts that cannot win\<close>

lemma log2_mono [score]: "0 < m \<Longrightarrow> m \<le> n \<Longrightarrow> log2 m \<le> log2 n"
  by (simp add: log2_def log_mono)

lemma raw_le [score]: "p \<noteq> [] \<Longrightarrow> length p \<le> n \<Longrightarrow> calculateRawComplexity st p \<le> log2 n + 2"
  using raw_bound [of p st] log2_mono [of "length p" n] by simp

lemma camelPart_length [score]: "p \<in> set (camelParts token i) \<Longrightarrow> p \<noteq> [] \<and> length p \<le> length token"
proof (induction token i rule: camelParts.induct)
  case (1 token i)
  show ?case
  proof (cases "i < length token")
    case True
    define j where "j = skip_while (\<lambda>c. \<not> isUpperASCII c) token (Suc i)"
    have "i < j" unfolding j_def by simp
    moreover have "j \<le> length token" unfolding j_def using True by (intro skip_while_le) simp
    ultimately have "fst (nextCamelPart token i) \<noteq> [] \<and> length (fst (nextCamelPart token i)) \<le> length token"
      using True by (auto simp: nextCamelPart_def slice_def Let_def simp flip: j_def)
    then show ?thesis using 1 True by (auto simp: camelParts.simps [of token i])
  next
    case False
    then show ?thesis using 1 by (auto simp: camelParts.simps [of token i])
  qed
qed

lemma compoundPart_nonempty [score]: "p \<in> set (compoundParts token i) \<Longrightarrow> p \<noteq> []"
  by (induction token i rule: compoundParts.induct) (subst (asm) compoundParts.simps, auto split: if_splits)

lemma foldl_maxScore: "foldl (\<lambda>b x. maxScore b (f x)) b xs = Max (insert b (f ` set xs))"
proof (induction xs arbitrary: b)
  case (Cons x xs)
  then show ?case by (cases "xs = []") (auto simp: maxScore_def insert_commute max_def)
qed simp

lemma maxScore_fold_le: "\<forall>x\<in>set xs. f x \<le> c \<Longrightarrow> b \<le> c \<Longrightarrow> foldl (\<lambda>b x. maxScore b (f x)) b xs \<le> c"
  by (simp add: foldl_maxScore)

lemma log2_nonneg [score]: "0 < n \<Longrightarrow> 0 \<le> log2 n"
  by (simp add: log2_def)

lemma partComplexity_le [score]: "p \<noteq> [] \<Longrightarrow> partComplexity st p dotted \<le> log2 (length p) + 2"
proof -
  assume p: "p \<noteq> []"
  have "camelPartsComplexity st p \<le> log2 (length p) + 2"
    unfolding camelPartsComplexity_def
    by (rule maxScore_fold_le) (use camelPart_length log2_nonneg [of "length p"] p in \<open>auto intro!: raw_le\<close>)
  then show ?thesis using raw_le [OF p] by (simp add: partComplexity_def)
qed

text \<open>
  C15: Skipping the parts of a compound whose length rules them out changes no score: the score of a
  compound of words is the largest of zero and the scores of all its parts.\<close>

theorem calculateComplexity_compound:
  assumes "isWordCompound st token"
  shows "calculateComplexity st token =
    Max (insert 0 ((\<lambda>p. partComplexity st p (\<not> ContainsAny token ''-_/'' \<or> isIndexedName token)) ` set (compoundParts token 0)))"
proof -
  let ?d = "\<not> ContainsAny token ''-_/'' \<or> isIndexedName token"
  have "scorePart st ?d b p = maxScore b (partComplexity st p ?d)" if "p \<in> set (compoundParts token 0)" for b p
    using partComplexity_le [OF compoundPart_nonempty [OF that], of st ?d] by (auto simp: scorePart_def maxScore_def)
  then have "foldl (scorePart st ?d) 0 (compoundParts token 0) =
      foldl (\<lambda>b p. maxScore b (partComplexity st p ?d)) 0 (compoundParts token 0)"
    by (intro foldl_cong) auto
  then show ?thesis using assms by (simp add: calculateComplexity_def foldl_maxScore)
qed

definition word_state :: configState where
  "word_state = buildConfigState ascii_only (\<lambda>_. None) (\<lambda>key msg. msg)
     \<lparr>EntropyThreshold = 3.6, ConfidenceThreshold = 1, MinSecretLength = 6, Salt = [], SensitiveKeys = [''secret''],
      DisableBigramCheck = False, BigramDefaultScore = -7, AdaptiveThreshold = False, SensitiveKeyPatterns = [],
      AdaptiveBaselineSamples = 100, EntityTypeLabels = False, CustomRegexes = [], SafeRegexes = [],
      CombinedCustomRegex = None, CustomRegexNames = []\<rparr>"

theorem calculateComplexity_compound_witness:
  "isWordCompound word_state ''gpt-4'' \<and> calculateComplexity word_state ''gpt-4'' =
     Max {0, partComplexity word_state ''gpt'' True, partComplexity word_state ''4'' True}"
proof -
  have "isWordCompound word_state ''gpt-4''" by code_simp
  moreover have "compoundParts ''gpt-4'' 0 = [''gpt'', ''4'']" by code_simp
  moreover have "isIndexedName ''gpt-4''" by code_simp
  ultimately show ?thesis using calculateComplexity_compound [of word_state "''gpt-4''"] by simp
qed

end
