(* ===== verification/Keys.thy ===== *)
theory Keys
  imports Carves Quoting Complexity
begin

text \<open>
  What a key says about its value, and what a whole value is: the sensitive keys, the keys
  that name a secret outright, the operator's own rules, and the values of URL parameters
  that are numbers or session tokens (\<^verbatim>\<open>scanner.go\<close>, \<^verbatim>\<open>phone.go\<close>,
  \<^verbatim>\<open>idnumber.go\<close>, \<^verbatim>\<open>otp.go\<close>, \<^verbatim>\<open>dob.go\<close>, \<^verbatim>\<open>session.go\<close>).
\<close>

named_theorems keys "keys and whole values"

subsection \<open>Whole values\<close>

text \<open>The loop of \<open>isPhoneValue\<close> over a keyed value: a separator needs a digit before it.\<close>

definition keyedPhoneDigits :: "string \<Rightarrow> bool" where
  "keyedPhoneDigits val \<longleftrightarrow>
     list_all (\<lambda>i. isASCIIDigit (val ! i) \<or> ((val ! i = CHR ''-'' \<or> val ! i = CHR ''.'') \<and> i > 0 \<and> isASCIIDigit (val ! (i - 1))))
       [0 ..< length val]
     \<and> minKeyedDigits \<le> length (filter isASCIIDigit val) \<and> length (filter isASCIIDigit val) \<le> maxPhoneDigits"

definition isPhoneValue :: "string \<Rightarrow> bool \<Rightarrow> bool" where
  "isPhoneValue val keyed =
    (if val = [] \<or> \<not> isASCIIDigit (last val) then False
     else if hd val = CHR ''+'' then matchInternationalPhone val 0 = length val
     else if hd val = CHR ''('' then matchNANPPhone val 0 = length val
     else if \<not> isASCIIDigit (hd val) then False
     else if matchNANPPhone val 0 = length val then True
     else if \<not> keyed then False
     else keyedPhoneDigits val)"

definition isIDNumberValue :: "string \<Rightarrow> bool" where
  "isIDNumberValue val = (if val = [] \<or> \<not> isASCIIDigit (hd val) then False else matchKeyedIDNumber val 0 = length val)"

definition isOTPValue :: "string \<Rightarrow> bool" where
  "isOTPValue val = (if val = [] \<or> \<not> isASCIIDigit (hd val) then False else matchKeyedOTP val 0 = length val)"

definition isDOBValue :: "string \<Rightarrow> bool" where
  "isDOBValue val = (if val = [] \<or> \<not> isASCIIDigit (hd val) then False else matchKeyedDate val 0 = length val)"

definition isSessionNumberValue :: "string \<Rightarrow> bool" where
  "isSessionNumberValue val \<longleftrightarrow> val \<noteq> [] \<and> isASCIIDigit (hd val) \<and> matchSessionNumber val 0 = length val"

definition isSessionTokenValue :: "configState \<Rightarrow> string \<Rightarrow> bool" where
  "isSessionTokenValue st val0 =
    (let val = TrimRight val0 '';,''; ut = unicode st in
     if int (length val) < MinSecretLength (config st) \<or> \<not> looksLikeSecretWord ut val \<or> ContainsAny val '' ;''
        \<or> IndexByte (TrimRight val ''='') CHR ''='' \<noteq> None then False
     else list_ex (IsLetter ut) (Runes val))"

subsection \<open>Sensitive keys\<close>

definition isWordsSecretName :: "configState \<Rightarrow> string \<Rightarrow> bool" where
  "isWordsSecretName st k =
    (if k \<in> set (SensitiveKeys (config st)) then True
     else if \<not> isWordsName k then False
     else list_ex (\<lambda>seg. seg \<in> set [''password'', ''passwd'', ''passphrase'', ''secret'', ''token'']) (FieldsAny k ''_-''))"

definition matchesKeyPattern :: "configState \<Rightarrow> string \<Rightarrow> bool" where
  "matchesKeyPattern st key = (case sensitiveRegex st of None \<Rightarrow> False | Some re \<Rightarrow> MatchString re key)"

definition isSensitiveKey :: "configState \<Rightarrow> string \<Rightarrow> bool" where
  "isSensitiveKey st key =
    (let ut = unicode st; (found, k) = find_key ut (keyMatcher st) key in
     if found then
       (let k = (if k = [] then ToLower ut key else k) in
        if Contains k ''pub'' \<and> Contains k ''key'' then False
        else if length key > 15 \<and> calculateComplexity st key > EntropyThreshold (config st) \<and> \<not> isWordsSecretName st k
          then False
        else True)
     else let k = (if k = [] then key else k) in
       if containsFoldPW k \<and> looksLikeFieldName ut key \<and> hasPasswordAbbrevComponent key then True
       else matchesKeyPattern st key)"

definition isSensitivePairKey :: "configState \<Rightarrow> string \<Rightarrow> bool" where
  "isSensitivePairKey st key =
    (if isSensitiveKey st key then True
     else case LastIndexByte key CHR '':'' of
       None \<Rightarrow> False
     | Some i \<Rightarrow> i + 1 < length key \<and> isSensitiveKey st (drop (i + 1) key))"

text \<open>The words of a key: the words closed so far, the open word, and whether its last rune was lower case or a digit.\<close>

record wordScan =
  ws_words :: "string list"
  ws_cur :: string
  ws_prevLower :: bool

definition wordFlush :: "wordScan \<Rightarrow> wordScan" where
  "wordFlush w = (if ws_cur w = [] then w else w\<lparr>ws_words := ws_words w @ [ws_cur w], ws_cur := []\<rparr>)"

definition wordStep :: "unicode_tables \<Rightarrow> wordScan \<Rightarrow> nat \<Rightarrow> wordScan" where
  "wordStep ut w r =
    (if r \<in> byte ` {CHR ''_'', CHR ''-'', CHR ''.'', CHR '' ''} then (wordFlush w)\<lparr>ws_prevLower := False\<rparr>
     else let w1 = (if IsUpper ut r \<and> ws_prevLower w then wordFlush w else w) in
       w1\<lparr>ws_cur := ws_cur w1 @ EncodeRune (ToLowerRune ut r), ws_prevLower := IsLower ut r \<or> IsDigit ut r\<rparr>)"

definition nameWords :: "unicode_tables \<Rightarrow> string \<Rightarrow> string list" where
  "nameWords ut key =
    ws_words (wordFlush (foldl (wordStep ut) \<lparr>ws_words = [], ws_cur = [], ws_prevLower = False\<rparr> (Runes key)))"

definition weakWord :: "string \<Rightarrow> bool" where
  "weakWord s \<longleftrightarrow> s \<in> set [''key'', ''auth'', ''sign'', ''pass'']"

definition keyNamesSecret :: "configState \<Rightarrow> string \<Rightarrow> bool" where
  "keyNamesSecret st key =
    (let ut = unicode st; lk = ToLower ut key; listed = (\<lambda>s. s \<in> set (SensitiveKeys (config st))) in
     if matchesKeyPattern st key then True
     else if Contains lk ''pw'' \<and> looksLikeFieldName ut key \<and> hasPasswordAbbrevComponent key then True
     else let ws = nameWords ut key in
       if (listed lk \<and> \<not> weakWord lk) \<or> (length ws = 1 \<and> listed (hd ws) \<and> \<not> weakWord (hd ws)) then True
       else list_ex (\<lambda>i. ws ! i \<in> set [''password'', ''passwd'', ''passphrase'', ''secret'', ''token'']
           \<or> list_ex (\<lambda>j. listed (Join (take (j - i) (drop i ws)) ''_'')) [i + 2 ..< length ws + 1])
         [0 ..< length ws])"

definition isShortHashUnderHashKey :: "configState \<Rightarrow> string \<Rightarrow> bool \<Rightarrow> bool" where
  "isShortHashUnderHashKey st tok afterHashKey =
    (if afterHashKey then isShortHex (trimQuotes (TrimSuffix tok '',''))
     else case (case splitCompactPair tok of Some kv \<Rightarrow> Some kv
         | None \<Rightarrow> map_option (\<lambda>(k, v). (trimQuotes k, trimQuotes v)) (CutByte tok CHR ''='')) of
       None \<Rightarrow> False
     | Some (k, v) \<Rightarrow> isShortHex v \<and> isHashKeyName (unicode st) k \<and> \<not> isSensitiveKey st k)"

subsection \<open>The operator's rules\<close>

definition entityLabel :: "configState \<Rightarrow> string \<Rightarrow> string" where
  "entityLabel st entityType = (if EntityTypeLabels (config st) then entityType else [])"

definition matchesSafeRule :: "configState \<Rightarrow> string \<Rightarrow> bool" where
  "matchesSafeRule st content \<longleftrightarrow> list_ex (\<lambda>rule. MatchString (Regexp rule) content) (SafeRegexes (config st))"

definition isSafeRegexWhitelisted :: "configState \<Rightarrow> string \<Rightarrow> bool" where
  "isSafeRegexWhitelisted st content \<longleftrightarrow> (if length content < 3 then False else matchesSafeRule st content)"

definition customRuleName :: "configState \<Rightarrow> string \<Rightarrow> string option" where
  "customRuleName st content = (case CombinedCustomRegex (config st) of
     None \<Rightarrow> None
   | Some re \<Rightarrow> (case FindStringSubmatchIndex re content of
       None \<Rightarrow> None
     | Some loc \<Rightarrow>
        let names = CustomRegexNames (config st) in
        case List.find (\<lambda>i. 2 + i * 2 < length loc \<and> loc ! (2 + i * 2) \<noteq> -1 \<and> names ! i \<noteq> []) [0 ..< length names] of
          Some i \<Rightarrow> Some (names ! i)
        | None \<Rightarrow> Some (entityLabel st ''regex'')))"

text \<open>
  The name reported for a custom rule is read off by counting two positions per rule, so a
  capturing group inside a rule shifts the names of the rules after it. With three rules of which the
  first has one group of its own, Go numbers the groups of the combined expression 1 to 4 with the
  second rule at 3; a match of the second rule is then reported under the name of the third.\<close>

theorem customRuleName_shifted:
  assumes "CombinedCustomRegex (config st) = Some re" and "CustomRegexNames (config st) = [n1, n2, n3]" and "n3 \<noteq> []"
    and "FindStringSubmatchIndex re content = Some [0, l, -1, -1, -1, -1, 0, l, -1, -1]" and "l = int (length content)"
  shows "customRuleName st content = Some n3"
  using assms by (simp add: customRuleName_def)

definition shifted_regexp :: regexp where
  "shifted_regexp = \<lparr>MatchString = (\<lambda>s. s = ''id7''),
     FindStringSubmatchIndex = (\<lambda>s. if s = ''id7'' then Some [0, 3, -1, -1, -1, -1, 0, 3, -1, -1] else None)\<rparr>"

definition shifted_state :: configState where
  "shifted_state = word_state\<lparr>config := (config word_state)\<lparr>CombinedCustomRegex := Some shifted_regexp,
     CustomRegexNames := [''employee'', ''ticket'', ''invoice'']\<rparr>\<rparr>"

theorem customRuleName_shifted_witness:
  "CombinedCustomRegex (config shifted_state) = Some shifted_regexp
   \<and> FindStringSubmatchIndex shifted_regexp ''id7'' = Some [0, 3, -1, -1, -1, -1, 0, 3, -1, -1]
   \<and> customRuleName shifted_state ''id7'' = Some ''invoice''"
proof -
  have re: "CombinedCustomRegex (config shifted_state) = Some shifted_regexp"
    by (simp add: shifted_state_def)
  have names: "CustomRegexNames (config shifted_state) = [''employee'', ''ticket'', ''invoice'']"
    by (simp add: shifted_state_def)
  have loc: "FindStringSubmatchIndex shifted_regexp ''id7'' = Some [0, 3, -1, -1, -1, -1, 0, 3, -1, -1]"
    by (simp add: shifted_regexp_def)
  have "customRuleName shifted_state ''id7'' = Some ''invoice''"
    by (rule customRuleName_shifted [OF re names _ loc]) simp_all
  with re loc show ?thesis by blast
qed

end
