(* ===== verification/Adaptive.thy ===== *)
theory Adaptive
  imports Complex_Main
begin

text \<open>
  The adaptive baseline of \<^verbatim>\<open>adaptive.go\<close>: a bounded sample of scores and the threshold
  derived from it. The lock of the source makes every operation atomic; here an operation is
  a function on the state, and a history is a list of operations.
\<close>

named_theorems baseline "the adaptive baseline"

record BaselineStats =
  samples :: "real list"
  maxSamples :: nat
  ready :: bool

definition newBaselineStats :: "nat \<Rightarrow> BaselineStats" where
  "newBaselineStats n = \<lparr>samples = [], maxSamples = n, ready = False\<rparr>"

definition globalBaseline :: BaselineStats where
  "globalBaseline = newBaselineStats 100"

definition Update :: "real \<Rightarrow> BaselineStats \<Rightarrow> BaselineStats" where
  "Update entropy bs =
    (if length (samples bs) < maxSamples bs then
       (let bs' = bs\<lparr>samples := samples bs @ [entropy]\<rparr> in
        if length (samples bs') = maxSamples bs' then bs'\<lparr>ready := True\<rparr> else bs')
     else bs)"

text \<open>\<open>current\<close> is the threshold of the published configuration.\<close>

definition mean :: "real list \<Rightarrow> real" where
  "mean xs = sum_list xs / real (length xs)"

definition stddev :: "real list \<Rightarrow> real" where
  "stddev xs = sqrt (sum_list (map (\<lambda>v. (v - mean xs) * (v - mean xs)) xs) / real (length xs))"

definition GetThreshold :: "real \<Rightarrow> BaselineStats \<Rightarrow> real \<times> bool" where
  "GetThreshold current bs =
    (if \<not> ready bs then (current, False) else (mean (samples bs) + 2 * stddev (samples bs), True))"

definition Reset :: "BaselineStats \<Rightarrow> BaselineStats" where
  "Reset bs = bs\<lparr>samples := [], ready := False\<rparr>"

definition IsReady :: "BaselineStats \<Rightarrow> bool" where
  "IsReady bs = ready bs"

subsection \<open>Histories\<close>

datatype baseline_op = UpdateOp real | ResetOp

fun run :: "baseline_op list \<Rightarrow> BaselineStats \<Rightarrow> BaselineStats" where
  "run [] bs = bs"
| "run (UpdateOp v # ops) bs = run ops (Update v bs)"
| "run (ResetOp # ops) bs = run ops (Reset bs)"

definition baseline_ok :: "BaselineStats \<Rightarrow> bool" where
  "baseline_ok bs \<longleftrightarrow> length (samples bs) \<le> maxSamples bs
     \<and> (ready bs \<longleftrightarrow> 0 < maxSamples bs \<and> length (samples bs) = maxSamples bs)"

lemma baseline_ok_new [baseline]: "baseline_ok (newBaselineStats n)"
  by (auto simp: baseline_ok_def newBaselineStats_def)

lemma baseline_ok_Update [baseline]: "baseline_ok bs \<Longrightarrow> baseline_ok (Update v bs)"
  by (auto simp: baseline_ok_def Update_def Let_def)

lemma baseline_ok_Reset [baseline]: "baseline_ok (Reset bs)"
  by (auto simp: baseline_ok_def Reset_def)

lemma baseline_ok_run [baseline]: "baseline_ok bs \<Longrightarrow> baseline_ok (run ops bs)"
  by (induction ops bs rule: run.induct) (auto intro: baseline_ok_Update baseline_ok_Reset)

lemma Update_samples [baseline]:
  "baseline_ok bs \<Longrightarrow> samples (Update v bs) = take (maxSamples bs) (samples bs @ [v])"
  by (auto simp: Update_def Let_def baseline_ok_def)

lemma Update_maxSamples [baseline, simp]: "maxSamples (Update v bs) = maxSamples bs" "maxSamples (Reset bs) = maxSamples bs"
  by (simp_all add: Update_def Reset_def Let_def)

lemma run_updates:
  "baseline_ok bs \<Longrightarrow> samples (run (map UpdateOp vs) bs) = take (maxSamples bs) (samples bs @ vs)
     \<and> maxSamples (run (map UpdateOp vs) bs) = maxSamples bs"
proof (induction vs arbitrary: bs)
  case Nil
  then show ?case by (simp add: baseline_ok_def)
next
  case (Cons v vs)
  have "take n (take n xs @ ys) = take n (xs @ ys)" for n and xs ys :: "real list" by (simp add: min_def)
  then show ?case
    using Cons.IH [of "Update v bs"] baseline_ok_Update [OF Cons.prems] by (simp del: take_append add: Update_samples [OF Cons.prems])
qed

text \<open>
  C17: A baseline that was filled after a reset holds the first scores seen since, at most as many as
  its capacity; it is ready exactly when it is full, whatever happened before the reset, and later
  scores no longer change it.\<close>

theorem baseline_since_reset:
  "samples (run (ops @ ResetOp # map UpdateOp vs) (newBaselineStats n)) = take n vs
   \<and> ready (run (ops @ ResetOp # map UpdateOp vs) (newBaselineStats n)) = (0 < n \<and> n \<le> length vs)"
proof -
  have split: "run (xs @ ys) bs = run ys (run xs bs)" for xs ys bs
    by (induction xs bs rule: run.induct) auto
  have cap: "maxSamples (run xs bs) = maxSamples bs" for xs bs by (induction xs bs rule: run.induct) auto
  define bs where "bs = Reset (run ops (newBaselineStats n))"
  have bs: "baseline_ok bs" "samples bs = []" "maxSamples bs = n"
    by (simp_all add: bs_def baseline_ok_Reset cap) (simp_all add: Reset_def newBaselineStats_def)
  let ?r = "run (map UpdateOp vs) bs"
  have r: "samples ?r = take n vs" "maxSamples ?r = n" using run_updates [OF bs(1)] bs by simp_all
  moreover have "ready ?r = (0 < n \<and> n \<le> length vs)"
    using baseline_ok_run [OF bs(1), of "map UpdateOp vs"] r by (auto simp: baseline_ok_def)
  ultimately show ?thesis by (simp add: split bs_def)
qed

subsection \<open>How many scores lie above the threshold\<close>

lemma sum_list_filter_le:
  "\<forall>x\<in>set xs. 0 \<le> f x \<Longrightarrow> \<forall>x\<in>set xs. P x \<longrightarrow> c \<le> f x \<Longrightarrow>
     real (length (filter P xs)) * c \<le> sum_list (map f xs)"
  by (induction xs) (auto simp: algebra_simps)

text \<open>
  C18: The adaptive threshold is above at least three quarters of the scores it was computed from,
  whatever their distribution.\<close>

theorem threshold_above_three_quarters:
  assumes "GetThreshold current bs = (t, True)" and "baseline_ok bs"
  shows "4 * length (filter (\<lambda>v. t < v) (samples bs)) \<le> length (samples bs)"
proof -
  define xs m s where "xs = samples bs" and "m = mean xs" and "s = stddev xs"
  define d where "d = (\<lambda>v. (v - m) * (v - m))"
  have t: "t = m + 2 * s" and n: "0 < length xs"
    using assms by (auto simp: GetThreshold_def baseline_ok_def xs_def m_def s_def split: if_splits)
  have sum0: "0 \<le> sum_list (map d xs)" by (rule sum_list_nonneg) (auto simp: d_def)
  then have var: "s * s * real (length xs) = sum_list (map d xs)"
    using n by (simp add: s_def stddev_def m_def d_def)
  have s0: "0 \<le> s" using sum0 by (simp add: s_def stddev_def m_def d_def)
  let ?k = "length (filter (\<lambda>v. t < v) xs)"
  show ?thesis
  proof (cases "s = 0")
    case True
    then have "sum_list (map d xs) = 0" using var by simp
    then have "\<forall>v\<in>set xs. d v = 0" by (subst (asm) sum_list_nonneg_eq_0_iff) (auto simp: d_def)
    then have "filter (\<lambda>v. t < v) xs = []" using True t by (auto simp: d_def filter_empty_conv)
    then show ?thesis by (simp add: xs_def)
  next
    case False
    have "4 * (s * s) \<le> d v" if "t < v" for v
    proof -
      have "2 * s \<le> v - m" using that t by simp
      then have "2 * s * (2 * s) \<le> (v - m) * (v - m)" using s0 by (intro mult_mono) auto
      then show ?thesis by (simp add: d_def)
    qed
    then have "real ?k * (4 * (s * s)) \<le> s * s * real (length xs)"
      unfolding var by (intro sum_list_filter_le) (auto simp: d_def)
    then have "4 * real ?k \<le> real (length xs)" using False s0 by (simp add: mult.commute mult.left_commute)
    then show ?thesis by (simp add: xs_def)
  qed
qed

theorem threshold_above_three_quarters_witness:
  "GetThreshold 3.6 (run [UpdateOp 1, UpdateOp 1] (newBaselineStats 2)) = (1, True)
   \<and> baseline_ok (run [UpdateOp 1, UpdateOp 1] (newBaselineStats 2))
   \<and> 4 * length (filter (\<lambda>v. 1 < v) (samples (run [UpdateOp 1, UpdateOp 1] (newBaselineStats 2)))) \<le> 2"
proof -
  let ?bs = "run [UpdateOp 1, UpdateOp 1] (newBaselineStats 2)"
  have "GetThreshold 3.6 ?bs = (1, True)"
    by (simp add: GetThreshold_def Update_def newBaselineStats_def mean_def stddev_def)
  moreover have "baseline_ok ?bs" by (rule baseline_ok_run [OF baseline_ok_new])
  moreover have "length (samples ?bs) = 2" by (simp add: Update_def newBaselineStats_def)
  ultimately show ?thesis using threshold_above_three_quarters [of "3.6" ?bs 1] by simp
qed

end
