(* ===== verification/JsonStrings.thy ===== *)
theory JsonStrings
  imports Quoting
begin

text \<open>
  JSON string literals as \<^verbatim>\<open>encoding/json\<close> reads and writes them, and
  \<^verbatim>\<open>strings.ToValidUTF8\<close>: what the scanner uses to look inside a JSON string that holds
  escaped text (\<open>escapedJSONString\<close>, \<open>jsonQuote\<close>) and to repair a token with invalid bytes.

  Reading a literal checks it and decodes it in one pass here; the package checks first and decodes
  afterwards. Both refuse control characters, unknown escapes and a quote before the end.
\<close>

named_theorems json "reading and writing of JSON strings"

subsection \<open>Reading\<close>

definition getu4 :: "string \<Rightarrow> nat option" where
  "getu4 s = (case s of
     b # u # h1 # h2 # h3 # h4 # _ \<Rightarrow>
       if b = bslash \<and> u = CHR ''u'' \<and> list_all isHexByte [h1, h2, h3, h4]
       then Some (foldl (\<lambda>v h. v * 16 + hexByteValue h) 0 [h1, h2, h3, h4]) else None
   | _ \<Rightarrow> None)"

definition IsSurrogate :: "nat \<Rightarrow> bool" where
  "IsSurrogate r \<longleftrightarrow> 55296 \<le> r \<and> r < 57344"

text \<open>\<^verbatim>\<open>utf16.DecodeRune\<close>: the code point of a pair of surrogates.\<close>

definition DecodeUTF16 :: "nat \<Rightarrow> nat option \<Rightarrow> nat option" where
  "DecodeUTF16 r1 r2 = (case r2 of
     Some r \<Rightarrow> if 55296 \<le> r1 \<and> r1 < 56320 \<and> 56320 \<le> r \<and> r < 57344
       then Some ((r1 - 55296) * 1024 + (r - 56320) + 65536) else None
   | None \<Rightarrow> None)"

definition unescapeByte :: "char \<Rightarrow> char option" where
  "unescapeByte e = map_of
     [(dquote, dquote), (bslash, bslash), (CHR ''/'', CHR ''/''), (CHR ''b'', CHR 0x08), (CHR ''f'', CHR 0x0C),
      (CHR ''n'', newline), (CHR ''r'', CHR 0x0D), (CHR ''t'', tab)] e"

text \<open>The bytes the next element of a string body stands for, and how many bytes it takes.\<close>

definition unquoteStep :: "string \<Rightarrow> (string \<times> nat) option" where
  "unquoteStep s = (let c = hd s in
     if byte c < 32 then None
     else if c = bslash then
       (case tl s of
          [] \<Rightarrow> None
        | e # _ \<Rightarrow>
          if e = CHR ''u'' then
            (case getu4 s of
               None \<Rightarrow> None
             | Some rr \<Rightarrow>
                if IsSurrogate rr then
                  (case DecodeUTF16 rr (getu4 (drop 6 s)) of
                     Some dec \<Rightarrow> Some (EncodeRune dec, 12)
                   | None \<Rightarrow> Some (EncodeRune RuneError, 6))
                else Some (EncodeRune rr, 6))
          else map_option (\<lambda>x. ([x], 2)) (unescapeByte e))
     else if byte c < RuneSelf then Some ([c], 1)
     else Some (EncodeRune (fst (DecodeRune s)), snd (DecodeRune s)))"

lemma unquoteStep_width [json]:
  "s \<noteq> [] \<Longrightarrow> unquoteStep s = Some (out, w) \<Longrightarrow> 1 \<le> w"
  using DecodeRune_width [of s]
  by (auto simp: unquoteStep_def Let_def split: if_splits list.splits option.splits)

function unquoteBody :: "string \<Rightarrow> string option" where
  "unquoteBody s =
    (if s = [] then None
     else if hd s = dquote then (if tl s = [] then Some [] else None)
     else case unquoteStep s of
       None \<Rightarrow> None
     | Some (out, w) \<Rightarrow> map_option (\<lambda>t. out @ t) (unquoteBody (drop w s)))"
  by pat_completeness auto
termination
  by (relation "measure length") (use unquoteStep_width in \<open>auto simp: Suc_le_eq\<close>)

declare unquoteBody.simps [simp del]

definition unmarshalString :: "string \<Rightarrow> string option" where
  "unmarshalString tok = (if tok \<noteq> [] \<and> hd tok = dquote then unquoteBody (tl tok) else None)"

definition escapedJSONString :: "string \<Rightarrow> string option" where
  "escapedJSONString tok =
    (if length tok < 4 \<or> hd tok \<noteq> dquote \<or> last tok \<noteq> dquote \<or> \<not> Contains tok [bslash, dquote] then None
     else unmarshalString tok)"

subsection \<open>Writing\<close>

definition hexDigit :: "nat \<Rightarrow> char" where
  "hexDigit n = (if n < 10 then char_of (48 + n) else char_of (87 + n))"

definition quoteByte :: "char \<Rightarrow> string" where
  "quoteByte c =
    (if c = bslash \<or> c = dquote then [bslash, c]
     else if c = CHR 0x08 then [bslash, CHR ''b'']
     else if c = CHR 0x0C then [bslash, CHR ''f'']
     else if c = newline then [bslash, CHR ''n'']
     else if c = CHR 0x0D then [bslash, CHR ''r'']
     else if c = tab then [bslash, CHR ''t'']
     else if byte c < 32 then [bslash, CHR ''u'', CHR ''0'', CHR ''0'', hexDigit (byte c div 16), hexDigit (byte c mod 16)]
     else [c])"

definition quoteStep :: "string \<Rightarrow> string \<times> nat" where
  "quoteStep s =
    (if byte (hd s) < RuneSelf then (quoteByte (hd s), 1)
     else let r = fst (DecodeRune s); w = snd (DecodeRune s) in
       if r = RuneError \<and> w = 1 then (bslash # ''ufffd'', 1)
       else if r = 8232 \<or> r = 8233 then (bslash # ''u202'' @ [hexDigit (r mod 16)], w)
       else (take w s, w))"

lemma quoteStep_width [json]: "s \<noteq> [] \<Longrightarrow> 1 \<le> snd (quoteStep s) \<and> snd (quoteStep s) \<le> length s"
  using DecodeRune_width [of s] by (auto simp: quoteStep_def Let_def Suc_le_eq)

function quoteBody :: "string \<Rightarrow> string" where
  "quoteBody s = (if s = [] then [] else fst (quoteStep s) @ quoteBody (drop (snd (quoteStep s)) s))"
  by pat_completeness auto
termination
  by (relation "measure length") (use quoteStep_width in \<open>auto simp: Suc_le_eq\<close>)

declare quoteBody.simps [simp del]

definition jsonQuote :: "string \<Rightarrow> string" where
  "jsonQuote s = dquote # quoteBody s @ [dquote]"

subsection \<open>Repairing UTF-8\<close>

text \<open>A run of invalid bytes becomes one replacement character.\<close>

definition replacementChar :: string where
  "replacementChar = EncodeRune RuneError"

function validLoop :: "bool \<Rightarrow> string \<Rightarrow> string" where
  "validLoop invalid s =
    (if s = [] then []
     else let w = snd (DecodeRune s) in
       if byte (hd s) < RuneSelf then hd s # validLoop False (tl s)
       else if w = 1 then (if invalid then [] else replacementChar) @ validLoop True (tl s)
       else take w s @ validLoop False (drop w s))"
  by pat_completeness auto
termination
  by (relation "measure (\<lambda>(b, s). length s)") (use DecodeRune_width in \<open>auto simp: Suc_le_eq\<close>)

declare validLoop.simps [simp del]

definition ToValidUTF8 :: "string \<Rightarrow> string" where
  "ToValidUTF8 s = validLoop False s"

subsection \<open>The round trip\<close>

text \<open>A rune that was decoded without an error is spelled by the bytes it was decoded from.\<close>

lemma sextet_join: "a * 64 + b = (r::nat) \<Longrightarrow> b < 64 \<Longrightarrow> r div 64 = a \<and> r mod 64 = b"
  by auto

lemma Encode_Decode2:
  assumes "194 \<le> a" and "a < 224" and "128 \<le> b" and "b \<le> 191"
  shows "EncodeRune ((a - 192) * 64 + (b - 128)) = [char_of a, char_of b]"
proof -
  have "((a - 192) * 64 + (b - 128)) div 64 = a - 192" "((a - 192) * 64 + (b - 128)) mod 64 = b - 128"
    using sextet_join [of "a - 192" "b - 128"] assms by auto
  moreover have "128 \<le> (a - 192) * 64 + (b - 128)" "(a - 192) * 64 + (b - 128) < 2048" using assms by auto
  ultimately show ?thesis using assms by (simp add: EncodeRune_def)
qed

lemma Encode_Decode3:
  assumes "224 \<le> a" and "a < 240" and "128 \<le> b" and "b \<le> 191" and "128 \<le> c" and "c \<le> 191"
    and "a = 224 \<Longrightarrow> 160 \<le> b" and "a = 237 \<Longrightarrow> b \<le> 159"
  shows "EncodeRune ((a - 224) * 4096 + (b - 128) * 64 + (c - 128)) = [char_of a, char_of b, char_of c]"
proof -
  define x y z where "x = a - 224" and "y = b - 128" and "z = c - 128"
  have a: "a = x + 224" "b = y + 128" "c = z + 128" and lt: "x < 16" "y < 64" "z < 64"
    using assms by (auto simp: x_def y_def z_def)
  have lo: "x = 0 \<Longrightarrow> 32 \<le> y" and hi: "x = 13 \<Longrightarrow> y < 32"
    using assms(7,8) a by auto
  let ?r = "x * 4096 + y * 64 + z"
  have r: "?r = (x * 64 + y) * 64 + z" by simp
  have div64: "?r div 64 = x * 64 + y" "?r mod 64 = z" using sextet_join [OF r [symmetric] lt(3)] by auto
  then have "?r div 64 mod 64 = y" "?r div 64 div 64 = x" using lt by auto
  then have parts: "?r div 4096 = x" "?r div 64 mod 64 = y" "?r mod 64 = z"
    using div64 by (simp_all add: div_mult2_eq [symmetric])
  have "2048 \<le> ?r" using lo lt by (cases "x = 0") auto
  moreover have "?r < 65536" using lt by linarith
  moreover have "\<not> (55296 \<le> ?r \<and> ?r \<le> 57343)"
  proof
    assume r: "55296 \<le> ?r \<and> ?r \<le> 57343"
    then have "x = 13" using lt by linarith
    then have "y < 32" "55296 \<le> 13 * 4096 + y * 64 + z" using hi r by auto
    then show False using lt by linarith
  qed
  ultimately have "EncodeRune ?r = [char_of (224 + x), char_of (128 + y), char_of (128 + z)]"
    using parts by (simp add: EncodeRune_def)
  then show ?thesis by (simp add: a x_def [symmetric] y_def [symmetric] z_def [symmetric] add.commute)
qed

lemma Encode_Decode4:
  assumes "240 \<le> a" and "a < 245" and "128 \<le> b" and "b \<le> 191" and "128 \<le> c" and "c \<le> 191" and "128 \<le> d" and "d \<le> 191"
    and "a = 240 \<Longrightarrow> 144 \<le> b" and "a = 244 \<Longrightarrow> b \<le> 143"
  shows "EncodeRune ((a - 240) * 262144 + (b - 128) * 4096 + (c - 128) * 64 + (d - 128))
    = [char_of a, char_of b, char_of c, char_of d]"
proof -
  define x y z u where "x = a - 240" and "y = b - 128" and "z = c - 128" and "u = d - 128"
  have a: "a = x + 240" "b = y + 128" "c = z + 128" "d = u + 128" and lt: "x < 5" "y < 64" "z < 64" "u < 64"
    using assms by (auto simp: x_def y_def z_def u_def)
  have lo: "x = 0 \<Longrightarrow> 16 \<le> y" and hi: "x = 4 \<Longrightarrow> y < 16"
    using assms(9,10) a by auto
  let ?r = "x * 262144 + y * 4096 + z * 64 + u"
  have "?r div 262144 = x" by (rule div_nat_eqI) (use lt in auto)
  moreover have "?r div 4096 = x * 64 + y" by (rule div_nat_eqI) (use lt in auto)
  moreover have "?r div 64 = (x * 64 + y) * 64 + z" by (rule div_nat_eqI) (use lt in auto)
  moreover have "?r mod 64 = u"
    using sextet_join [of "(x * 64 + y) * 64 + z" u ?r] lt by auto
  moreover have "((x * 64 + y) * 64 + z) mod 64 = z" "(x * 64 + y) mod 64 = y"
    using sextet_join [OF refl lt(3), of "x * 64 + y"] sextet_join [OF refl lt(2), of x] by auto
  ultimately have parts: "?r div 262144 = x" "?r div 4096 mod 64 = y" "?r div 64 mod 64 = z" "?r mod 64 = u"
    by (simp_all only:)
  have "65536 \<le> ?r" using lo lt by (cases "x = 0") auto
  moreover have "?r \<le> 1114111" using hi lt by (cases "x = 4") auto
  ultimately have "EncodeRune ?r = [char_of (240 + x), char_of (128 + y), char_of (128 + z), char_of (128 + u)]"
    using parts by (simp add: EncodeRune_def)
  then show ?thesis by (simp add: a add.commute)
qed

lemma decode_lead_Encode:
  assumes "decode_lead a bs = Some (r, w)"
  shows "map of_char (EncodeRune r) = take w (a # bs)"
proof (cases "a < 128")
  case True
  then show ?thesis using assms by (auto simp: decode_lead_def EncodeRune_def)
next
  case False
  then show ?thesis
    using assms Encode_Decode2 [of a] Encode_Decode3 [of a] Encode_Decode4 [of a]
    by (auto simp: decode_lead_def decode2_def decode3_def decode4_def cont_def split: if_splits list.splits)
qed

lemma Encode_Decode [json]:
  assumes "s \<noteq> []" and "DecodeRune s \<noteq> (RuneError, 1)"
  shows "EncodeRune (fst (DecodeRune s)) = take (snd (DecodeRune s)) s"
proof (cases s)
  case (Cons x t)
  then obtain r w where rw: "decode_lead (byte x) (map of_char (take 3 t)) = Some (r, w)"
    using assms(2) by (auto simp: DecodeRune_def split: option.splits)
  have "map of_char (EncodeRune r) = map byte (take w (x # take 3 t))"
    using decode_lead_Encode [OF rw] take_map [of w byte "x # take 3 t"] by (simp del: take_map)
  moreover have "w \<le> 4" using decode_lead_width [OF rw] by (simp add: min_def split: if_splits)
  ultimately show ?thesis
    by (auto simp: Cons DecodeRune_def rw take_Cons' inj_map_eq_map inj_def)
qed (use assms in simp)

lemma decode3_valid:
  assumes "224 \<le> a" and "a < 240" and "128 \<le> b" and "b \<le> 191" and "c \<le> 191" and "a = 237 \<Longrightarrow> b \<le> 159"
  shows "valid_rune ((a - 224) * 4096 + (b - 128) * 64 + (c - 128))"
proof -
  consider "a < 237" | "a = 237" | "237 < a" by linarith
  then show ?thesis
  proof cases
    case 1
    then have "a - 224 \<le> 12" "b - 128 \<le> 63" "c - 128 \<le> 63" using assms by auto
    then show ?thesis unfolding valid_rune_def by linarith
  next
    case 2
    then have "a - 224 = 13" "b - 128 \<le> 31" "c - 128 \<le> 63" using assms by auto
    then show ?thesis unfolding valid_rune_def by linarith
  next
    case 3
    then have "14 \<le> a - 224" "a - 224 \<le> 15" "b - 128 \<le> 63" "c - 128 \<le> 63" using assms by auto
    then show ?thesis unfolding valid_rune_def by linarith
  qed
qed

lemma decode4_valid:
  assumes "240 \<le> a" and "a < 245" and "b \<le> 191" and "c \<le> 191" and "d \<le> 191" and "a = 240 \<Longrightarrow> 144 \<le> b"
    and "a = 244 \<Longrightarrow> b \<le> 143"
  shows "valid_rune ((a - 240) * 262144 + (b - 128) * 4096 + (c - 128) * 64 + (d - 128))"
proof -
  have "c - 128 \<le> 63" "d - 128 \<le> 63" using assms by auto
  moreover have "1 \<le> a - 240 \<or> 16 \<le> b - 128" using assms(1,6) by (cases "a = 240") auto
  moreover have "a - 240 \<le> 3 \<and> b - 128 \<le> 63 \<or> a - 240 = 4 \<and> b - 128 \<le> 15"
    using assms(2,3,7) by (cases "a = 244") auto
  ultimately show ?thesis unfolding valid_rune_def by linarith
qed

lemma decode_lead_valid: "decode_lead a bs = Some (r, w) \<Longrightarrow> valid_rune r"
proof -
  assume d: "decode_lead a bs = Some (r, w)"
  consider "a < 128" | "194 \<le> a" "a < 224" | "224 \<le> a" "a < 240" | "240 \<le> a" "a < 245"
    using d by (fastforce simp: decode_lead_def split: if_splits)
  then show ?thesis
  proof cases
    case 1
    then show ?thesis using d by (simp add: decode_lead_def valid_rune_def)
  next
    case 2
    then show ?thesis using d by (auto simp: decode_lead_def decode2_def cont_def valid_rune_def split: list.splits if_splits)
  next
    case 3
    then obtain b c zs where "bs = b # c # zs" "r = (a - 224) * 4096 + (b - 128) * 64 + (c - 128)"
      "128 \<le> b" "b \<le> 191" "c \<le> 191" "a = 237 \<longrightarrow> b \<le> 159"
      using d by (auto simp: decode_lead_def decode3_def cont_def split: list.splits if_splits)
    then show ?thesis using decode3_valid [of a b c] 3 by simp
  next
    case 4
    then obtain b c e zs where "bs = b # c # e # zs"
      "r = (a - 240) * 262144 + (b - 128) * 4096 + (c - 128) * 64 + (e - 128)"
      "b \<le> 191" "c \<le> 191" "e \<le> 191" "a = 240 \<longrightarrow> 144 \<le> b" "a = 244 \<longrightarrow> b \<le> 143"
      using d by (auto simp: decode_lead_def decode4_def cont_def split: list.splits if_splits)
    then show ?thesis using decode4_valid [of a b c e] 4 by simp
  qed
qed

lemma DecodeRune_valid [json]: "s \<noteq> [] \<Longrightarrow> valid_rune (fst (DecodeRune s))"
proof (cases s)
  case (Cons x t)
  have "valid_rune RuneError" by (simp add: valid_rune_def RuneError_def)
  then show ?thesis
    using decode_lead_valid by (auto simp: Cons DecodeRune_def split: option.splits)
qed simp

lemma hexDigit_hex [json]: "n < 16 \<Longrightarrow> isHexByte (hexDigit n) \<and> hexByteValue (hexDigit n) = n"
  by (auto simp: hexDigit_def isHexByte_def less_eq_char_def hexByteValue_def)

lemma getu4_hex [json]:
  assumes "list_all (\<lambda>n. n < 16) [n1, n2, n3, n4]"
  shows "getu4 (bslash # CHR ''u'' # hexDigit n1 # hexDigit n2 # hexDigit n3 # hexDigit n4 # s)
    = Some (((n1 * 16 + n2) * 16 + n3) * 16 + n4)"
  using assms by (simp add: getu4_def hexDigit_hex)

text \<open>One written element is read back as one element.\<close>

lemma unquoteBody_step:
  assumes "q \<noteq> []" and "hd q \<noteq> dquote" and "unquoteStep (q @ rest) = Some (out, length q)"
  shows "unquoteBody (q @ rest) = map_option (\<lambda>t. out @ t) (unquoteBody rest)"
  using assms by (subst unquoteBody.simps) simp

lemma unquoteStep_u:
  assumes "list_all (\<lambda>n. n < 16) [n1, n2, n3, n4]" and "r = ((n1 * 16 + n2) * 16 + n3) * 16 + n4" and "\<not> IsSurrogate r"
  shows "unquoteStep (bslash # CHR ''u'' # hexDigit n1 # hexDigit n2 # hexDigit n3 # hexDigit n4 # rest) = Some (EncodeRune r, 6)"
  using assms by (simp add: unquoteStep_def getu4_hex)

lemma hexDigit_values:
  "hexDigit 0 = CHR ''0''" "hexDigit 2 = CHR ''2''" "hexDigit 13 = CHR ''d''" "hexDigit 15 = CHR ''f''"
  by code_simp+

lemma unquoteStep_ufffd: "unquoteStep ((bslash # ''ufffd'') @ rest) = Some (EncodeRune RuneError, 6)"
  using unquoteStep_u [of 15 15 15 13 RuneError rest] by (simp add: hexDigit_values IsSurrogate_def RuneError_def)

lemma unquoteStep_u2028:
  assumes "r = 8232 \<or> r = 8233"
  shows "unquoteStep ((bslash # ''u202'' @ [hexDigit (r mod 16)]) @ rest) = Some (EncodeRune r, 6)"
  using unquoteStep_u [of 2 0 2 "r mod 16" r rest] assms by (auto simp: IsSurrogate_def hexDigit_values)

lemma unquoteStep_escape:
  "e \<noteq> CHR ''u'' \<Longrightarrow> unescapeByte e = Some x \<Longrightarrow> unquoteStep ([bslash, e] @ rest) = Some ([x], 2)"
  by (simp add: unquoteStep_def)

lemma unquoteStep_plain:
  assumes "32 \<le> byte c" and "byte c < 128" and "c \<noteq> bslash"
  shows "unquoteStep ([c] @ rest) = Some ([c], 1)"
  using assms by (simp add: unquoteStep_def RuneSelf_def)

lemma quoteByte_escape:
  assumes "c \<in> set [bslash, dquote, CHR 0x08, CHR 0x0C, newline, CHR 0x0D, tab]"
  shows "\<exists>e. quoteByte c = [bslash, e] \<and> e \<noteq> CHR ''u'' \<and> unescapeByte e = Some c"
  using assms by (auto simp: quoteByte_def unescapeByte_def)

lemma unquoteStep_quoteByte:
  assumes "byte c < 128"
  shows "unquoteStep (quoteByte c @ rest) = Some (EncodeRune (byte c), length (quoteByte c))"
proof -
  let ?escaped = "[bslash, dquote, CHR 0x08, CHR 0x0C, newline, CHR 0x0D, tab]"
  have enc: "EncodeRune (byte c) = [c]" using assms by (simp add: EncodeRune_def)
  consider "c \<in> set ?escaped" | "c \<notin> set ?escaped" "32 \<le> byte c" | "c \<notin> set ?escaped" "byte c < 32" by linarith
  then show ?thesis
  proof cases
    case 1
    then obtain e where "quoteByte c = [bslash, e]" "e \<noteq> CHR ''u''" "unescapeByte e = Some c"
      using quoteByte_escape by blast
    then show ?thesis using unquoteStep_escape [of e c rest] enc by simp
  next
    case 2
    then have "quoteByte c = [c]" by (simp add: quoteByte_def)
    with 2 assms show ?thesis using unquoteStep_plain [of c rest] enc by simp
  next
    case 3
    then have "quoteByte c = [bslash, CHR ''u'', hexDigit 0, hexDigit 0, hexDigit (byte c div 16), hexDigit (byte c mod 16)]"
      by (simp add: quoteByte_def hexDigit_values)
    moreover have "byte c div 16 < 16" "\<not> IsSurrogate (byte c)" using 3 by (auto simp: IsSurrogate_def)
    ultimately show ?thesis
      using unquoteStep_u [of 0 0 "byte c div 16" "byte c mod 16" "byte c" rest] by simp
  qed
qed

lemma quoteByte_front: "quoteByte c \<noteq> [] \<and> hd (quoteByte c) \<noteq> dquote"
  by (simp add: quoteByte_def)

lemma unquoteStep_quoteStep:
  assumes "s \<noteq> []"
  defines "q \<equiv> fst (quoteStep s)"
  shows "unquoteStep (q @ rest) = Some (EncodeRune (fst (DecodeRune s)), length q) \<and> q \<noteq> [] \<and> hd q \<noteq> dquote
    \<and> snd (quoteStep s) = snd (DecodeRune s)"
proof (cases "byte (hd s) < RuneSelf")
  case True
  then have "DecodeRune s = (byte (hd s), 1)" using assms by (cases s) (auto simp: DecodeRune_ascii RuneSelf_def)
  then show ?thesis
    using True unquoteStep_quoteByte [of "hd s" rest] quoteByte_front [of "hd s"]
    by (simp add: q_def quoteStep_def RuneSelf_def)
next
  case high: False
  define r w where "r = fst (DecodeRune s)" and "w = snd (DecodeRune s)"
  consider "r = RuneError \<and> w = 1" | "\<not> (r = RuneError \<and> w = 1)" "r = 8232 \<or> r = 8233"
    | "\<not> (r = RuneError \<and> w = 1)" "r \<noteq> 8232" "r \<noteq> 8233" by blast
  then show ?thesis
  proof cases
    case 1
    then show ?thesis
      using high unquoteStep_ufffd [of rest] by (simp add: q_def quoteStep_def r_def [symmetric] w_def [symmetric])
  next
    case 2
    then show ?thesis
      using high unquoteStep_u2028 [of r rest] by (auto simp: q_def quoteStep_def Let_def r_def [symmetric] w_def [symmetric])
  next
    case 3
    have "EncodeRune r = take w s" unfolding r_def w_def
      by (rule Encode_Decode [OF assms(1)]) (use 3 in \<open>auto simp: r_def w_def prod_eq_iff\<close>)
    moreover have "DecodeRune (EncodeRune r @ rest) = (r, length (EncodeRune r))"
      using Decode_Encode DecodeRune_valid [OF assms(1)] by (simp add: r_def)
    moreover have "q = take w s" "snd (quoteStep s) = w"
      using high 3 by (auto simp: q_def quoteStep_def Let_def r_def [symmetric] w_def [symmetric])
    moreover have "1 \<le> w" using DecodeRune_width [OF assms(1)] by (simp add: w_def)
    moreover from this have "hd (take w s) = hd s" "take w s \<noteq> []" using assms(1) by (cases s; cases w; simp)+
    moreover have "hd (take w s @ rest) = hd s" using calculation by (metis hd_append2)
    moreover have "hd s \<noteq> dquote" "hd s \<noteq> bslash" using high by (auto simp: RuneSelf_def)
    ultimately show ?thesis using high
      by (simp add: unquoteStep_def RuneSelf_def r_def [symmetric] w_def [symmetric])
  qed
qed

text \<open>The string with every byte that is no rune replaced by the replacement character.\<close>

definition wellFormed :: "string \<Rightarrow> string" where
  "wellFormed s = concat (map EncodeRune (Runes s))"

lemma wellFormed_Cons:
  "s \<noteq> [] \<Longrightarrow> wellFormed s = EncodeRune (fst (DecodeRune s)) @ wellFormed (drop (snd (DecodeRune s)) s)"
  unfolding wellFormed_def by (subst Runes.simps) simp

lemma wellFormed_valid: "ValidUTF8 s \<Longrightarrow> wellFormed s = s"
proof (induction s rule: ValidUTF8.induct)
  case (1 s)
  show ?case
  proof (cases "s = []")
    case False
    then have "DecodeRune s \<noteq> (RuneError, 1)" and "ValidUTF8 (drop (snd (DecodeRune s)) s)"
      using 1(2) by (subst (asm) ValidUTF8.simps; simp)+
    then show ?thesis using 1(1) False by (simp add: wellFormed_Cons Encode_Decode)
  qed (simp add: wellFormed_def)
qed

lemma unquoteBody_quoteBody: "unquoteBody (quoteBody s @ [dquote]) = Some (wellFormed s)"
proof (induction s rule: quoteBody.induct)
  case (1 s)
  show ?case
  proof (cases "s = []")
    case True
    then show ?thesis by (simp add: quoteBody.simps unquoteBody.simps wellFormed_def)
  next
    case False
    let ?rest = "quoteBody (drop (snd (quoteStep s)) s) @ [dquote]"
    have "quoteBody s @ [dquote] = fst (quoteStep s) @ ?rest" using False by (subst quoteBody.simps) simp
    moreover have step: "unquoteStep (fst (quoteStep s) @ ?rest) = Some (EncodeRune (fst (DecodeRune s)), length (fst (quoteStep s)))"
      and q: "fst (quoteStep s) \<noteq> []" "hd (fst (quoteStep s)) \<noteq> dquote" "snd (quoteStep s) = snd (DecodeRune s)"
      using unquoteStep_quoteStep [OF False, of ?rest] by blast+
    ultimately show ?thesis
      using unquoteBody_step [OF q(1,2) step] 1 [OF False] q(3) wellFormed_Cons [OF False] by simp
  qed
qed

text \<open>
  C20: A string written as a JSON literal reads back as itself, for every valid UTF-8 string; bytes
  that are no rune come back as replacement characters and everything else is kept.\<close>

theorem jsonQuote_roundtrip:
  "unmarshalString (jsonQuote s) = Some (wellFormed s) \<and> (ValidUTF8 s \<longrightarrow> unmarshalString (jsonQuote s) = Some s)"
  using unquoteBody_quoteBody [of s] wellFormed_valid [of s] by (simp add: unmarshalString_def jsonQuote_def)

theorem jsonQuote_roundtrip_witness:
  "unmarshalString (jsonQuote [CHR ''a'', dquote, bslash, newline, CHR 0x01, CHR 0xC3, CHR 0xA9])
     = Some [CHR ''a'', dquote, bslash, newline, CHR 0x01, CHR 0xC3, CHR 0xA9]"
proof -
  have "ValidUTF8 [CHR ''a'', dquote, bslash, newline, CHR 0x01, CHR 0xC3, CHR 0xA9]"
    by (simp add: ValidUTF8.simps DecodeRune_def decode_lead_def decode2_def cont_def RuneError_def)
  then show ?thesis using jsonQuote_roundtrip by blast
qed

end
