(* ===== verification/Output.thy ===== *)
theory Output
  imports Keys Adaptive JsonStrings
begin

text \<open>
  The effects of the redaction engine. A scan writes to a string builder, reports every redaction to
  a callback and reads and feeds the adaptive baseline; it can also panic. An operation of the engine
  is a function from the \<open>world\<close> that holds these three to a result and a new world, or an error.

  The law \<open>writes E b m\<close> says of an operation \<open>m\<close> that it fails only with an error of \<open>E\<close>, that it
  only appends to the builder, and that it appends a newline only if \<open>b\<close>. The collection \<open>writes\<close>
  holds one rule per way of composing operations, so that the law of a composed operation follows
  from the laws of its parts.
\<close>

named_theorems writes "what an operation may write"

record world =
  sb :: string
  events :: "string list"
  baseline :: BaselineStats

type_synonym 'a op = "world \<Rightarrow> ('a \<times> world) go"

subsection \<open>Composition\<close>

definition ret :: "'a \<Rightarrow> 'a op" where
  "ret a w = Inr (a, w)"

definition thenDo :: "'a op \<Rightarrow> ('a \<Rightarrow> 'b op) \<Rightarrow> 'b op" where
  "thenDo m f w = andThen (m w) (\<lambda>(a, w'). f a w')"

definition raise :: "go_error \<Rightarrow> 'a op" where
  "raise e w = Inl e"

definition void :: "'a op \<Rightarrow> unit op" where
  "void m = thenDo m (\<lambda>_. ret ())"

text \<open>The statements of a block, one after the other, and then its result.\<close>

fun steps :: "unit op list \<Rightarrow> 'a \<Rightarrow> 'a op" where
  "steps [] a = ret a"
| "steps (m # ms) a = thenDo m (\<lambda>_. steps ms a)"

abbreviation block :: "unit op list \<Rightarrow> unit op" where
  "block ms \<equiv> steps ms ()"

text \<open>The items of a list, with a separator written between them.\<close>

fun separated :: "unit op \<Rightarrow> unit op list \<Rightarrow> unit op list" where
  "separated sep [] = []"
| "separated sep [m] = [m]"
| "separated sep (m # n # ms) = m # sep # separated sep (n # ms)"

definition lift_go :: "'a go \<Rightarrow> 'a op" where
  "lift_go x w = (case x of Inl e \<Rightarrow> Inl e | Inr a \<Rightarrow> Inr (a, w))"

definition WriteString :: "string \<Rightarrow> unit op" where
  "WriteString s w = Inr ((), w\<lparr>sb := sb w @ s\<rparr>)"

definition callback :: "string \<Rightarrow> unit op" where
  "callback strategy w = Inr ((), w\<lparr>events := events w @ [strategy]\<rparr>)"

definition readBaseline :: "(BaselineStats \<Rightarrow> 'a op) \<Rightarrow> 'a op" where
  "readBaseline f w = f (baseline w) w"

definition updateBaseline :: "real \<Rightarrow> unit op" where
  "updateBaseline score w = Inr ((), w\<lparr>baseline := Update score (baseline w)\<rparr>)"

text \<open>An operation run on a builder of its own, which is its result.\<close>

definition capture :: "unit op \<Rightarrow> string op" where
  "capture m w = andThen (m (w\<lparr>sb := []\<rparr>)) (\<lambda>(_, w'). Inr (sb w', w'\<lparr>sb := sb w\<rparr>))"

subsection \<open>The marker\<close>

definition hexByte :: "char \<Rightarrow> string" where
  "hexByte c = [hexDigit (byte c div 16), hexDigit (byte c mod 16)]"

definition marker :: "configState \<Rightarrow> string \<Rightarrow> string \<Rightarrow> string" where
  "marker st sensitiveData name =
    ''[HIDDEN'' @ (if name \<noteq> [] then CHR '':'' # name else []) @ '':''
      @ concat (map hexByte (take 3 (mac st sensitiveData))) @ '']''"

definition redactWithHMAC :: "configState \<Rightarrow> string \<Rightarrow> string \<Rightarrow> string \<Rightarrow> unit op" where
  "redactWithHMAC st sensitiveData name strategy =
    block [callback (if strategy = [] then ''entropy'' else strategy), WriteString (marker st sensitiveData name)]"

subsection \<open>Laws of composition\<close>

lemma run_simps [simp]:
  "ret a w = Inr (a, w)"
  "raise e w = Inl e"
  "thenDo (ret a) f = f a"
  "thenDo (raise e) f = raise e"
  "WriteString s w = Inr ((), w\<lparr>sb := sb w @ s\<rparr>)"
  "callback s w = Inr ((), w\<lparr>events := events w @ [s]\<rparr>)"
  by (auto simp: ret_def thenDo_def raise_def WriteString_def callback_def fun_eq_iff)

lemma thenDo_run [simp]: "m w = Inr (a, w') \<Longrightarrow> thenDo m f w = f a w'" "m w = Inl e \<Longrightarrow> thenDo m f w = Inl e"
  by (simp_all add: thenDo_def)

definition writes :: "go_error set \<Rightarrow> bool \<Rightarrow> 'a op \<Rightarrow> bool" where
  "writes E b m \<longleftrightarrow> (\<forall>w. case m w of
     Inl e \<Rightarrow> e \<in> E
   | Inr (a, w') \<Rightarrow> (\<exists>out. sb w' = sb w @ out \<and> (newline \<in> set out \<longrightarrow> b)))"

lemma writesE:
  assumes "writes E b m" and "m w = Inr (a, w')"
  obtains out where "sb w' = sb w @ out" and "newline \<in> set out \<Longrightarrow> b"
  using assms unfolding writes_def by (auto dest!: spec [of _ w])

lemma writes_error: "writes E b m \<Longrightarrow> m w = Inl e \<Longrightarrow> e \<in> E"
  unfolding writes_def by (auto dest!: spec [of _ w])

lemma writesI:
  assumes "\<And>w e. m w = Inl e \<Longrightarrow> e \<in> E"
    and "\<And>w a w'. m w = Inr (a, w') \<Longrightarrow> \<exists>out. sb w' = sb w @ out \<and> (newline \<in> set out \<longrightarrow> b)"
  shows "writes E b m"
  using assms by (auto simp: writes_def split: sum.split)

lemma writes_mono: "writes E b m \<Longrightarrow> (b \<Longrightarrow> b') \<Longrightarrow> writes E b' m"
  by (fastforce simp: writes_def split: sum.splits)

lemma writes_ret [writes, intro!]: "writes E b (ret a)"
  by (auto simp: writes_def)

lemma writes_raise [writes]: "e \<in> E \<Longrightarrow> writes E b (raise e)"
  by (simp add: writes_def)

lemma writes_thenDo [writes]:
  assumes "writes E b m" and "\<And>a. writes E b (f a)"
  shows "writes E b (thenDo m f)"
proof (rule writesI)
  fix w e assume "thenDo m f w = Inl e"
  then show "e \<in> E"
    using writes_error [OF assms(1)] writes_error [OF assms(2)] by (cases "m w") (auto simp: thenDo_def)
next
  fix w a w' assume "thenDo m f w = Inr (a, w')"
  then obtain x w1 where m: "m w = Inr (x, w1)" and f: "f x w1 = Inr (a, w')"
    by (auto simp: thenDo_def andThen_Inr)
  from writesE [OF assms(1) m] obtain o1 where o1: "sb w1 = sb w @ o1" "newline \<in> set o1 \<Longrightarrow> b" by metis
  from writesE [OF assms(2) f] obtain o2 where o2: "sb w' = sb w1 @ o2" "newline \<in> set o2 \<Longrightarrow> b" by metis
  from o1 o2 show "\<exists>out. sb w' = sb w @ out \<and> (newline \<in> set out \<longrightarrow> b)"
    by (intro exI [of _ "o1 @ o2"]) auto
qed

lemma writes_steps [writes]: "list_all (writes E b) ms \<Longrightarrow> writes E b (steps ms a)"
  by (induction ms) (auto intro: writes_thenDo)

lemma writes_void [writes]: "writes E b m \<Longrightarrow> writes E b (void m)"
  unfolding void_def by (intro writes_thenDo writes_ret)

lemma list_all_separated: "P sep \<Longrightarrow> list_all P ms \<Longrightarrow> list_all P (separated sep ms)"
  by (induction sep ms rule: separated.induct) auto

lemma writes_WriteString [writes]: "(newline \<in> set s \<Longrightarrow> b) \<Longrightarrow> writes E b (WriteString s)"
  by (auto simp: writes_def)

lemma writes_callback [writes, intro!]: "writes E b (callback s)"
  by (auto simp: writes_def)

lemma writes_readBaseline [writes]: "(\<And>bs. writes E b (f bs)) \<Longrightarrow> writes E b (readBaseline f)"
  by (auto simp: writes_def readBaseline_def)

lemma writes_updateBaseline [writes, intro!]: "writes E b (updateBaseline score)"
  by (auto simp: writes_def updateBaseline_def)

lemma writes_capture [writes]:
  assumes "writes E b' m"
  shows "writes E b (capture m)"
proof (rule writesI)
  fix w e assume "capture m w = Inl e"
  then have "m (w\<lparr>sb := []\<rparr>) = Inl e" by (auto simp: capture_def andThen_def split: sum.splits)
  then show "e \<in> E" using assms by (auto simp: writes_def dest!: spec [of _ "w\<lparr>sb := []\<rparr>"])
next
  fix w a w' assume "capture m w = Inr (a, w')"
  then show "\<exists>out. sb w' = sb w @ out \<and> (newline \<in> set out \<longrightarrow> b)"
    by (auto simp: capture_def andThen_Inr)
qed

lemma writes_if [writes]: "(p \<Longrightarrow> writes E b m) \<Longrightarrow> (\<not> p \<Longrightarrow> writes E b n) \<Longrightarrow> writes E b (if p then m else n)"
  by simp

lemma hexDigit_no_newline: "n < 16 \<Longrightarrow> hexDigit n \<noteq> newline"
  using hexDigit_hex [of n] by (auto simp: isHexByte_def less_eq_char_def)

lemma hexByte_no_newline [simp]: "newline \<notin> set (hexByte c)"
proof -
  have "byte c div 16 < 16" using byte_less_256 [of c] by linarith
  then show ?thesis using hexDigit_no_newline [of "byte c div 16"] hexDigit_no_newline [of "byte c mod 16"]
    by (auto simp: hexByte_def)
qed

lemma marker_newline: "newline \<in> set (marker st data name) \<longleftrightarrow> newline \<in> set name"
  by (auto simp: marker_def)

lemma writes_redact [writes]: "(newline \<in> set name \<Longrightarrow> b) \<Longrightarrow> writes E b (redactWithHMAC st data name strategy)"
  unfolding redactWithHMAC_def by (auto intro!: writes simp: marker_newline)

end
