(* ===== verification/Values.thy ===== *)
theory Values
  imports Output
begin

text \<open>
  How the engine treats one value: a single token (\<open>processSingleToken\<close>), a binary blob, the key half
  of a pair, the path and the query of a URL (\<^verbatim>\<open>scanner.go\<close>). Nothing here calls back into
  the tokenizer except the rest of a URL token after white space, which is the argument \<open>scan\<close> of
  \<open>maskURLParameters\<close>.
\<close>

named_theorems names "names in redaction markers"

subsection \<open>A single token\<close>

definition quoteOf :: "string \<Rightarrow> string" where
  "quoteOf original =
    (if HasPrefix original [dquote] then [dquote] else if HasPrefix original [squote] then [squote] else [])"

definition quoteChar :: "unicode_tables \<Rightarrow> string \<Rightarrow> bool \<Rightarrow> string \<Rightarrow> string" where
  "quoteChar ut original autoQuote content =
    (if quoteOf original \<noteq> [] then quoteOf original
     else if autoQuote \<and> (isDigits ut content \<or> ToLower ut content \<in> {''true'', ''false'', ''null''}) then [dquote]
     else [])"

definition customName :: "configState \<Rightarrow> string \<Rightarrow> string option" where
  "customName st content = (case CombinedCustomRegex (config st) of
     Some _ \<Rightarrow> customRuleName st content
   | None \<Rightarrow> map_option (\<lambda>rule. if rr_Name rule = [] then entityLabel st ''regex'' else rr_Name rule)
       (List.find (\<lambda>rule. MatchString (Regexp rule) content) (CustomRegexes (config st))))"

text \<open>The signature label, the bytes it covers and the punctuation kept after them.\<close>

definition shapeLabel :: "string \<Rightarrow> string \<times> string \<times> string" where
  "shapeLabel content =
    (let lbl = matchSignature content in
     if lbl = [] \<and> (case IndexByte content CHR ''@'' of Some i \<Rightarrow> i > 0 | None \<Rightarrow> False) then
       (let (body, trail) = (if length content > 1 \<and> last content \<in> {CHR ''.'', CHR '',''}
          then (butlast content, [last content]) else (content, [])) in
        if isEmailAddress body then (''email'', body, trail) else ([], content, []))
     else (lbl, content, []))"

text \<open>
  What the identifier and base64 rules make of an unforced token: it stays as it is (nothing), or it
  is forced or not.
\<close>

definition hybridForce :: "configState \<Rightarrow> string \<Rightarrow> bool \<Rightarrow> bool option" where
  "hybridForce st content contextSensitive =
    (if length content = 36 \<and> uuidRegex content then (if \<not> contextSensitive then None else Some True)
     else if length content > 64 \<and> HasSuffix content ''='' \<and> \<not> ContainsAny content [CHR ''-'', CHR ''_'', CHR '' '', tab, newline] then
       (if contextSensitive \<or> ConfidenceThreshold (config st) \<le> 1.2 then Some True else None)
     else Some False)"

definition tokenThreshold :: "configState \<Rightarrow> BaselineStats \<Rightarrow> bool \<Rightarrow> bool \<Rightarrow> real" where
  "tokenThreshold st bs forced contextSensitive =
    (let base = EntropyThreshold (config st) in
     (if forced then 1.0
      else if contextSensitive then base - 1.3
      else if AdaptiveThreshold (config st) then
        (case GetThreshold base bs of (t, isReady) \<Rightarrow> if isReady then t else base)
      else base) * ConfidenceThreshold (config st))"

definition scoreToken :: "configState \<Rightarrow> string \<Rightarrow> string \<Rightarrow> bool \<Rightarrow> bool \<Rightarrow> string \<Rightarrow> bool \<Rightarrow> unit op" where
  "scoreToken st content original forced contextSensitive strategy autoQuote =
    readBaseline (\<lambda>bs.
      let score = calculateComplexity st content in
      if forced \<or> score > tokenThreshold st bs forced contextSensitive then
        (let q = quoteChar (unicode st) original autoQuote content;
             entityType = (if forced then ''key'' else if contextSensitive then ''context'' else ''entropy'') in
         block [WriteString q, redactWithHMAC st content (entityLabel st entityType) strategy, WriteString q])
      else block [if \<not> forced \<and> AdaptiveThreshold (config st) then updateBaseline score else ret (),
                  WriteString original])"

definition processSingleToken :: "configState \<Rightarrow> string \<Rightarrow> string \<Rightarrow> bool \<Rightarrow> bool \<Rightarrow> bool \<Rightarrow> unit op" where
  "processSingleToken st content original forcedSensitive contextSensitive autoQuote =
    (let ut = unicode st; strategy = (if forcedSensitive then ''key'' else ''entropy'') in
     if content = [] \<or> isRedacted content then WriteString original
     else if \<not> forcedSensitive \<and> isSafe ut content then WriteString original
     else if matchesSafeRule st content then WriteString original
     else case customName st content of
       Some name \<Rightarrow>
         let q = quoteChar ut original autoQuote content in
         block [WriteString q, redactWithHMAC st content name ''regex'', WriteString q]
     | None \<Rightarrow> (case shapeLabel content of (lbl, body, trail) \<Rightarrow>
         if lbl \<noteq> [] then
           block [WriteString (quoteOf original), redactWithHMAC st body (entityLabel st lbl) ''signature'',
                  WriteString trail, WriteString (quoteOf original)]
         else if forcedSensitive then scoreToken st content original True contextSensitive strategy autoQuote
         else if int (length content) < MinSecretLength (config st) then WriteString original
         else if Contains content '' '' then WriteString original
         else case hybridForce st content contextSensitive of
           None \<Rightarrow> WriteString original
         | Some forced \<Rightarrow> scoreToken st content original forced contextSensitive strategy autoQuote))"

definition processBinaryBlob :: "configState \<Rightarrow> string \<Rightarrow> bool \<Rightarrow> unit op" where
  "processBinaryBlob st content contextSensitive =
    (if matchesSafeRule st content then WriteString content
     else readBaseline (\<lambda>bs.
       if calculateComplexity st content \<le> tokenThreshold st bs False contextSensitive then WriteString content
       else redactWithHMAC st content (entityLabel st (if contextSensitive then ''context'' else ''entropy'')) ''entropy''))"

definition writeKeyHalf :: "configState \<Rightarrow> string \<Rightarrow> unit op" where
  "writeKeyHalf st key =
    (if key = [] \<or> (looksLikeFieldName (unicode st) key \<and> matchSignature key = []) then WriteString key
     else processSingleToken st key key False False False)"

subsection \<open>The parts of a URL\<close>

definition int_index :: "nat option \<Rightarrow> int" where
  "int_index i = (case i of None \<Rightarrow> -1 | Some n \<Rightarrow> int n)"

text \<open>The source computes with \<open>-1\<close> for a quote that is not there, so the result is an integer.\<close>

definition urlClosingTail :: "string \<Rightarrow> int" where
  "urlClosingTail url =
    (let d = int_index (LastIndexByte url dquote); s = int_index (LastIndexByte url squote);
         q = (if s > d then s else d) in
     if q < int_index (IndexByte url CHR ''?'') then int (length url)
     else if \<not> list_all (\<lambda>c. c \<in> set '':,.;)]}>'') (drop (nat (q + 1)) url) then int (length url)
     else let escapes = length (takeWhile (\<lambda>c. c = bslash) (rev (take (nat q) url))) in
       if escapes mod 2 = 1 then q - 1 else q)"

text \<open>The last at-sign of the user information, from one that is known.\<close>

function lastAt :: "string \<Rightarrow> nat \<Rightarrow> nat" where
  "lastAt s i = (case IndexByte (drop (i + 1) s) CHR ''@'' of
     None \<Rightarrow> i
   | Some n \<Rightarrow> if ContainsAny (slice s (i + 1) (i + 1 + n)) [CHR ''/'', CHR ''?'', CHR ''#'', CHR '' '', tab] then i
       else lastAt s (i + 1 + n))"
  by pat_completeness auto
termination
  by (relation "measure (\<lambda>(s, i). length s - i)") (auto simp: IndexByte_Some)

declare lastAt.simps [simp del]

definition urlPassword :: "unicode_tables \<Rightarrow> string \<Rightarrow> (nat \<times> nat) option" where
  "urlPassword ut s = (case Index s ''://'' of
     None \<Rightarrow> None
   | Some i \<Rightarrow>
      let auth = i + 3 in
      case IndexByte (drop auth s) CHR ''@'' of
        None \<Rightarrow> None
      | Some rel \<Rightarrow>
         let ats = lastAt s (auth + rel) in
         case IndexByte (slice s auth ats) CHR '':'' of
           None \<Rightarrow> None
         | Some colon \<Rightarrow>
            if ContainsAny (slice s auth (auth + colon)) (''/?#=& '' @ [tab]) \<or> ContainsAny (slice s auth ats) [CHR '' '', tab]
            then None
            else let start = auth + colon + 1; pw = slice s start ats in
              if start = ats then None
              else case IndexByte pw CHR ''/'' of
                Some sl \<Rightarrow> if sl > 0 \<and> isDigits ut (take sl pw) then None else Some (start, ats)
              | None \<Rightarrow> Some (start, ats))"

lemma lastAt_bounds: "i < length s \<Longrightarrow> i \<le> lastAt s i \<and> lastAt s i < length s"
proof (induction s i rule: lastAt.induct)
  case (1 s i)
  then show ?case
    by (subst (1 2) lastAt.simps) (fastforce simp: IndexByte_Some split: option.splits)
qed

lemma urlPassword_bounds: "urlPassword ut s = Some (a, e) \<Longrightarrow> 0 < a \<and> a < e \<and> e < length s"
proof -
  assume "urlPassword ut s = Some (a, e)"
  then obtain i rel colon where rel: "IndexByte (drop (i + 3) s) CHR ''@'' = Some rel"
    and colon: "IndexByte (slice s (i + 3) (lastAt s (i + 3 + rel))) CHR '':'' = Some colon"
    and a: "a = i + 3 + colon + 1" and e: "e = lastAt s (i + 3 + rel)" and "a \<noteq> e"
    by (auto simp: urlPassword_def Let_def split: option.splits if_splits)
  have "i + 3 + rel < length s" using rel by (auto simp: IndexByte_Some)
  then have "e < length s" using lastAt_bounds e by blast
  moreover have "colon < e - (i + 3)" using colon e by (auto simp: IndexByte_Some slice_def)
  ultimately show ?thesis using a \<open>a \<noteq> e\<close> by auto
qed

subsection \<open>Paths\<close>

definition isSecretPathSegment :: "configState \<Rightarrow> string \<Rightarrow> bool" where
  "isSecretPathSegment st seg =
    (if length seg < 20 \<or> length seg > 128 then False
     else if \<not> list_all (\<lambda>c. isASCIIDigit c \<or> isASCIILetter c \<or> c = CHR ''-'' \<or> c = CHR ''_'') seg then False
     else if \<not> list_ex isASCIILetter seg \<or> \<not> list_ex isASCIIDigit seg then False
     else if isGitHash seg \<or> isGitHashRange seg \<or> isMongoObjectID seg \<or> (length seg = 36 \<and> uuidRegex seg) then False
     else if (length seg = 64 \<or> length seg = 128) \<and> isHexString seg then False
     else if isSnakeCaseWords seg then False
     else calculateComplexity st seg > EntropyThreshold (config st))"

definition hasSecretPathSegment :: "configState \<Rightarrow> string \<Rightarrow> bool" where
  "hasSecretPathSegment st path =
    (if length path < minSignatureLength then False else list_ex (isSecretPathSegment st) (Split path CHR ''/''))"

definition writePathSegment :: "configState \<Rightarrow> string \<Rightarrow> unit op" where
  "writePathSegment st seg = (case urlPathSignature seg of (keep, lbl) \<Rightarrow>
     if lbl = [] then
       (if isSecretPathSegment st seg then redactWithHMAC st seg (entityLabel st ''url'') ''entropy'' else WriteString seg)
     else block [WriteString (take keep seg), redactWithHMAC st (drop keep seg) (entityLabel st lbl) ''signature''])"

definition writeURLPath :: "configState \<Rightarrow> string \<Rightarrow> unit op" where
  "writeURLPath st path =
    (if \<not> hasPathSignature path \<and> \<not> hasSecretPathSegment st path then WriteString path
     else block (separated (WriteString ''/'') (map (writePathSegment st) (Split path CHR ''/''))))"

subsection \<open>Queries\<close>

text \<open>Which rule hides the value of a parameter: the label and the strategy, or nothing.\<close>

definition paramRule :: "configState \<Rightarrow> string \<Rightarrow> string \<Rightarrow> (string \<times> string) option" where
  "paramRule st key val =
    (let ut = unicode st in
     if val = [] \<or> isRedacted val \<or> isSafeRegexWhitelisted st val then None
     else if isEmailAddress val then Some (''email'', ''signature'')
     else if isPhoneValue val (isPhoneKey ut key) then Some (''phone'', ''signature'')
     else if isIDNumberValue val \<and> isIDKey ut key then Some (''id-number'', ''signature'')
     else if isSessionNumberValue val \<and> isSessionKey ut key then Some (''key'', ''signature'')
     else if isOTPValue val \<and> isOTPKey ut key then Some (''key'', ''signature'')
     else if isDOBValue val \<and> isDOBKey ut key then Some (''dob'', ''signature'')
     else if isSensitiveKey st key then Some (''key'', ''key'')
     else if calculateComplexity st val > EntropyThreshold (config st) then Some (''url'', ''entropy'')
     else if isSessionTokenValue st val \<and> isSessionKey ut key then Some (''key'', ''signature'')
     else None)"

definition writeParam :: "configState \<Rightarrow> string \<Rightarrow> unit op" where
  "writeParam st param = (case CutByte param CHR ''='' of
     None \<Rightarrow> WriteString param
   | Some (key, val) \<Rightarrow> (case paramRule st key val of
       None \<Rightarrow> WriteString param
     | Some (lbl, strategy) \<Rightarrow>
         block [WriteString key, WriteString ''='', redactWithHMAC st val (entityLabel st lbl) strategy]))"

definition writeSection :: "configState \<Rightarrow> string \<Rightarrow> unit op" where
  "writeSection st section =
    block (WriteString ''?'' # separated (WriteString ''&'') (map (writeParam st) (Split section CHR ''&'')))"

definition maskPassword :: "configState \<Rightarrow> string \<Rightarrow> unit op" where
  "maskPassword st pw =
    (if isRedacted pw then WriteString pw
     else if matchSignature pw \<noteq> [] then redactWithHMAC st pw (entityLabel st (matchSignature pw)) ''signature''
     else redactWithHMAC st pw (entityLabel st ''key'') ''key'')"

text \<open>A slice \<^verbatim>\<open>url[:tail]\<close> with a negative bound panics.\<close>

function maskURLParameters :: "configState \<Rightarrow> (string \<Rightarrow> unit op) \<Rightarrow> string \<Rightarrow> unit op" where
  "maskURLParameters st scan url =
    (case urlPassword (unicode st) url of
       Some (pwStart, pwEnd) \<Rightarrow>
         block [WriteString (take pwStart url), maskPassword st (slice url pwStart pwEnd),
                maskURLParameters st scan (drop pwEnd url)]
     | None \<Rightarrow>
       let tail = urlClosingTail url in
       if tail < 0 then raise Panic
       else if \<not> Contains url ''?'' then
         block [writeURLPath st (take (nat tail) url), WriteString (drop (nat tail) url)]
       else if tail < int (length url) then
         block [maskURLParameters st scan (take (nat tail) url), WriteString (drop (nat tail) url)]
       else case indexWhitespace url of
         Some i \<Rightarrow> block [maskURLParameters st scan (take i url), scan (drop i url)]
       | None \<Rightarrow>
           (case Split url CHR ''?'' of
              [] \<Rightarrow> ret ()
            | path # sections \<Rightarrow> block (writeURLPath st path # map (writeSection st) sections)))"
  by pat_completeness auto
termination
  by (relation "measure (\<lambda>(st, scan, url). length url)")
    (auto simp: indexWhitespace_def IndexByte_Some dest!: urlPassword_bounds split: option.splits if_splits)

declare maskURLParameters.simps [simp del]

subsection \<open>What values write\<close>

text \<open>
  The names of custom rules are the only text of the configuration that reaches the output; a name
  may hold a newline. The other labels are fixed words.
\<close>

definition names_ok :: "configState \<Rightarrow> bool" where
  "names_ok st \<longleftrightarrow> (\<forall>n \<in> set (CustomRegexNames (config st)). newline \<notin> set n)
     \<and> (\<forall>r \<in> set (CustomRegexes (config st)). newline \<notin> set (rr_Name r))"

abbreviation nl :: "bool \<Rightarrow> string \<Rightarrow> bool" where
  "nl b s \<equiv> (newline \<in> set s \<longrightarrow> b)"

lemma entityLabel_nl [names]: "newline \<notin> set l \<Longrightarrow> newline \<notin> set (entityLabel st l)"
  by (simp add: entityLabel_def)

lemma customName_nl [names]: "names_ok st \<Longrightarrow> customName st content = Some n \<Longrightarrow> newline \<notin> set n"
  by (auto simp: names_ok_def customName_def customRuleName_def entityLabel_def Let_def find_Some_iff
      split: option.splits if_splits)

lemma signatureRules_nl: "list_all (\<lambda>r. newline \<notin> set (sr_label r)) signatureRules"
  by (simp add: signatureRules_def)

lemma matchSignature_nl [names]: "newline \<notin> set (matchSignature s)"
  using signatureRules_nl
  by (auto simp: matchSignature_def list_all_iff find_Some_iff Let_def split: option.splits if_splits)

lemma urlPathSignature_nl [names]: "newline \<notin> set (snd (urlPathSignature s))"
  using matchSignature_nl by (auto simp: urlPathSignature_def Let_def split: option.splits if_splits)

lemma quoteOf_nl [names]: "newline \<notin> set (quoteOf original)" and quoteChar_nl [names]: "newline \<notin> set (quoteChar ut original autoQuote content)"
  by (simp_all add: quoteOf_def quoteChar_def)

lemma shapeLabel_nl [names]:
  assumes "shapeLabel content = (lbl, body, trail)"
  shows "newline \<notin> set lbl" and "newline \<notin> set trail" and "nl (newline \<in> set content) body"
  using assms matchSignature_nl [of content]
  by (auto simp: shapeLabel_def Let_def in_set_butlastD split: if_splits)

lemma writes_scoreToken [writes]:
  "nl b original \<Longrightarrow> writes E b (scoreToken st content original forced ctx strategy autoQuote)"
  unfolding scoreToken_def Let_def
  by (intro writes) (auto simp: quoteChar_nl entityLabel_nl intro!: writes)

lemma writes_single [writes]:
  assumes "names_ok st \<or> b" and "nl b original"
  shows "writes E b (processSingleToken st content original forced ctx autoQuote)"
proof -
  have custom: "newline \<in> set n \<Longrightarrow> b" if "customName st content = Some n" for n
    using assms(1) customName_nl [OF _ that] by auto
  have shape: "newline \<notin> set lbl" "newline \<notin> set trail" if "shapeLabel content = (lbl, body, trail)" for lbl body trail
    using shapeLabel_nl [OF that] by auto
  show ?thesis
    unfolding processSingleToken_def Let_def
    using assms(2) by (auto simp: names dest: custom shape intro!: writes split: option.split prod.split)
qed

lemma writes_binary [writes]: "nl b content \<Longrightarrow> writes E b (processBinaryBlob st content ctx)"
  unfolding processBinaryBlob_def by (auto simp: entityLabel_nl intro!: writes)

lemma writes_keyHalf [writes]: "names_ok st \<or> b \<Longrightarrow> nl b key \<Longrightarrow> writes E b (writeKeyHalf st key)"
  unfolding writeKeyHalf_def by (auto intro!: writes)

lemma Split_set: "p \<in> set (Split s c) \<Longrightarrow> set p \<subseteq> set s"
proof (induction s arbitrary: p)
  case (Cons x s)
  then show ?case by (cases "Split s c") (fastforce split: if_splits)+
qed simp

lemma Split_nl: "p \<in> set (Split s c) \<Longrightarrow> newline \<in> set p \<Longrightarrow> newline \<in> set s"
  using Split_set by blast

lemma writes_pathSegment [writes]: "nl b seg \<Longrightarrow> writes E b (writePathSegment st seg)"
  unfolding writePathSegment_def using urlPathSignature_nl [of seg]
  by (auto simp: entityLabel_nl intro!: writes split: prod.split dest: in_set_takeD)

lemma writes_URLPath [writes]: "nl b path \<Longrightarrow> writes E b (writeURLPath st path)"
  unfolding writeURLPath_def
  by (auto intro!: writes list_all_separated simp: list.pred_map list_all_iff dest: Split_nl)

lemma paramRule_nl: "paramRule st key val = Some (lbl, strategy) \<Longrightarrow> newline \<notin> set lbl"
  by (auto simp: paramRule_def Let_def split: if_splits)

lemma CutByte_nl: "CutByte s c = Some (k, v) \<Longrightarrow> set k \<subseteq> set s \<and> set v \<subseteq> set s"
  by (auto simp: CutByte_def dest: in_set_takeD in_set_dropD split: option.splits)

lemma writes_param [writes]: "nl b param \<Longrightarrow> writes E b (writeParam st param)"
  unfolding writeParam_def
  by (auto intro!: writes simp: entityLabel_nl dest: paramRule_nl CutByte_nl split: option.split)

lemma writes_section [writes]: "nl b section \<Longrightarrow> writes E b (writeSection st section)"
  unfolding writeSection_def
  by (auto intro!: writes list_all_separated simp: list.pred_map list_all_iff dest: Split_nl)

lemma writes_password [writes]: "nl b pw \<Longrightarrow> writes E b (maskPassword st pw)"
  unfolding maskPassword_def by (auto intro!: writes simp: entityLabel_nl matchSignature_nl)

lemma sublist_tl: "sublist t u \<Longrightarrow> sublist (tl t) (tl u)"
proof -
  assume "sublist t u"
  then obtain p q where u: "u = p @ t @ q" by (auto simp: sublist_def)
  show ?thesis
  proof (cases p)
    case Nil
    then show ?thesis using u by (cases t) auto
  next
    case (Cons x p')
    then have "tl u = (p' @ take 1 t) @ tl t @ q" using u by (cases t) auto
    then show ?thesis by (metis sublist_appendI)
  qed
qed

lemma sublist_nl: "sublist t u \<Longrightarrow> nl b u \<Longrightarrow> nl b t"
  using set_mono_sublist by blast

lemma indexWhitespace_hd: "indexWhitespace s = Some i \<Longrightarrow> i < length s \<and> hd (drop i s) \<in> {CHR '' '', tab}"
  by (auto simp: indexWhitespace_def IndexByte_Some hd_drop_conv_nth split: option.splits if_splits)

lemma maskURLParameters_Nil [simp]: "maskURLParameters st scan [] = raise Panic"
  by (subst maskURLParameters.simps) (simp add: urlPassword_def urlClosingTail_def int_index_def)

text \<open>
  The rest of a URL token is handed back to the tokenizer only from a blank after its first byte: at
  the first byte the empty front part panics.
\<close>

lemma writes_mask [writes]:
  assumes "Panic \<in> E" and "nl b url"
    and "\<And>t. sublist t (tl url) \<Longrightarrow> t \<noteq> [] \<Longrightarrow> hd t \<in> {CHR '' '', tab} \<Longrightarrow> writes E b (scan t)"
  shows "writes E b (maskURLParameters st scan url)"
  using assms(2,3)
proof (induction url rule: length_induct)
  case (1 url)
  have IH: "writes E b (maskURLParameters st scan u)" if "length u < length url" "sublist u url" for u
  proof -
    have "writes E b (scan t)" if "sublist t (tl u)" "t \<noteq> []" "hd t \<in> {CHR '' '', tab}" for t
      using 1(3) [of t] that sublist_tl [OF \<open>sublist u url\<close>] sublist_order.order.trans by blast
    then show ?thesis using 1(1) that sublist_nl [OF that(2) 1(2)] by blast
  qed
  have rest: "writes E b (scan (drop i url))" if i: "indexWhitespace url = Some i" "i \<noteq> 0" for i
  proof (rule 1(3))
    have "drop i url = drop (i - 1) (tl url)" using that(2) by (simp add: drop_Suc [symmetric])
    then show "sublist (drop i url) (tl url)" by simp
  qed (use indexWhitespace_hd [OF i(1)] in auto)
  have blank: "writes E b (block [maskURLParameters st scan (take i url), scan (drop i url)])"
    if i: "indexWhitespace url = Some i" for i
    using rest [OF i] IH [of "take i url"] indexWhitespace_hd [OF i] assms(1)
    by (cases "i = 0") (auto intro!: writes)
  have plain: "writes E b (block (writeURLPath st path # map (writeSection st) sections))"
    if split: "Split url CHR ''?'' = path # sections" for path sections
  proof -
    have "\<forall>p \<in> set (path # sections). nl b p"
      unfolding split [symmetric] using Split_nl [of _ url "CHR ''?''"] 1(2) by blast
    then show ?thesis by (auto intro!: writes simp: list_all_iff)
  qed
  have drop: "nl b (drop n url)" and take: "nl b (take n url)" for n
    using 1(2) by (auto dest: in_set_dropD in_set_takeD)
  show ?case
  proof (cases "urlPassword (unicode st) url")
    case (Some ae)
    then obtain a e where ae: "urlPassword (unicode st) url = Some (a, e)" by (cases ae) auto
    have "writes E b (maskURLParameters st scan (drop e url))"
      using urlPassword_bounds [OF ae] by (intro IH) auto
    moreover have "nl b (slice url a e)" using 1(2) by (auto simp: slice_def dest: in_set_dropD in_set_takeD)
    ultimately show ?thesis
      using take [of a] by (subst maskURLParameters.simps) (auto simp: ae intro!: writes)
  next
    case None
    then show ?thesis
      using blank plain assms(1) IH take drop 1(2)
      by (subst maskURLParameters.simps) (auto simp: Let_def intro!: writes split: option.split list.split)
  qed
qed

subsection \<open>A forced value leaves only its marker\<close>

lemma quote_cases: "quoteOf original \<in> {[], [dquote], [squote]}" "quoteChar ut original autoQuote content \<in> {[], [dquote], [squote]}"
  by (simp_all add: quoteOf_def quoteChar_def)

lemma shapeLabel_split:
  assumes "shapeLabel content = (lbl, body, trail)" and "content \<noteq> []"
  shows "content = body @ trail \<and> trail \<in> {[], ''.'', '',''}"
proof -
  have "butlast content @ [last content] = content" using assms(2) by simp
  then show ?thesis using assms(1) by (auto simp: shapeLabel_def Let_def split: if_splits)
qed

definition hides :: "configState \<Rightarrow> string \<Rightarrow> unit op \<Rightarrow> bool" where
  "hides st content m \<longleftrightarrow> (\<forall>w. \<exists>q body trail name strategy.
     m w = Inr ((), w\<lparr>sb := sb w @ q @ marker st body name @ trail @ q, events := events w @ [strategy]\<rparr>)
     \<and> q \<in> {[], [dquote], [squote]} \<and> content = body @ trail \<and> trail \<in> {[], ''.'', '',''})"

lemma block_marker:
  "block [WriteString q, redactWithHMAC st body name strategy, WriteString trail, WriteString q] w
    = Inr ((), w\<lparr>sb := sb w @ q @ marker st body name @ trail @ q,
        events := events w @ [if strategy = [] then ''entropy'' else strategy]\<rparr>)"
  by (simp add: redactWithHMAC_def thenDo_def)

lemma hidesI:
  assumes "q \<in> {[], [dquote], [squote]}" and "content = body @ trail" and "trail \<in> {[], ''.'', '',''}"
  shows "hides st content (block [WriteString q, redactWithHMAC st body name strategy, WriteString trail, WriteString q])"
  unfolding hides_def block_marker using assms by blast

lemma block_no_trail: "block [a, m, b] = block [a, m, WriteString [], b]"
  by (rule ext) (auto simp: thenDo_def andThen_def split: sum.split)

lemma scoreToken_forced: "hides st content (scoreToken st content original True ctx strategy autoQuote)"
proof -
  have "scoreToken st content original True ctx strategy autoQuote =
    (let q = quoteChar (unicode st) original autoQuote content in
     block [WriteString q, redactWithHMAC st content (entityLabel st ''key'') strategy, WriteString q])"
    by (rule ext) (simp add: scoreToken_def readBaseline_def Let_def)
  then show ?thesis
    using hidesI [of "quoteChar (unicode st) original autoQuote content" content content "[]"] quote_cases
    by (simp add: block_no_trail Let_def del: steps.simps)
qed



end
