(* ===== verification/Tokenizer.thy ===== *)
theory Tokenizer
  imports Values Carves
begin

text \<open>
  The tokenizer of \<^verbatim>\<open>scanner.go\<close>: a line is cut at its card and telephone numbers
  (\<open>scanLine\<close>), what lies between is cut into tokens (\<open>scanSegmentFrom\<close>), and each token goes to a
  token processor, the argument \<open>app\<close>. The processor is the engine's \<open>processAndAppend\<close>; keeping it
  open separates what the tokenizer guarantees from what the engine does with a token.
\<close>

named_theorems tokens "cutting segments into tokens"

declare steps.simps [simp del] thenDo_run [simp del]

record segmentState =
  pendingKeySensitive :: bool
  pendingContextSensitive :: bool
  isInValuePos :: bool
  valueOfQuotedKey :: bool
  lastTokenQuoted :: bool
  pendingGenericKey :: bool
  nextValueIsSensitive :: bool
  pendingBearer :: bool
  bearerAfterKey :: bool
  pendingBasic :: bool
  pendingScheme :: bool
  sepAfterSensitiveKey :: bool
  prevClean :: string
  pendingHashKey :: bool
  pendingSessionKey :: bool
  pendingAfterCopula :: bool
  prevStrongSecretWord :: bool
  afterMarker :: bool
  bracketAfterContext :: bool
  st_keyNamesSecret :: bool

definition initState :: segmentState where
  "initState = \<lparr>pendingKeySensitive = False, pendingContextSensitive = False, isInValuePos = False,
     valueOfQuotedKey = False, lastTokenQuoted = False, pendingGenericKey = False, nextValueIsSensitive = False,
     pendingBearer = False, bearerAfterKey = False, pendingBasic = False, pendingScheme = False,
     sepAfterSensitiveKey = False, prevClean = [], pendingHashKey = False, pendingSessionKey = False,
     pendingAfterCopula = False, prevStrongSecretWord = False, afterMarker = False, bracketAfterContext = False,
     st_keyNamesSecret = False\<rparr>"

subsection \<open>Chains of assignments\<close>

definition isFieldByte :: "char \<Rightarrow> bool" where
  "isFieldByte c \<longleftrightarrow> isASCIILetter c \<or> isASCIIDigit c \<or> c = CHR ''_'' \<or> c = CHR ''.'' \<or> c = CHR ''-''"

definition assignmentFollows :: "string \<Rightarrow> bool" where
  "assignmentFollows s =
    (if length s < 2 \<or> (\<not> isASCIILetter (s ! 0) \<and> s ! 0 \<noteq> CHR ''_'') then False
     else let i = skip_while (\<lambda>c. c \<noteq> CHR ''='' \<and> isFieldByte c) s 1 in i < length s \<and> s ! i = CHR ''='')"

definition isBareAssignment :: "string \<Rightarrow> bool" where
  "isBareAssignment tok \<longleftrightarrow> CHR ''='' \<in> set tok \<and> CHR ''?'' \<notin> set tok \<and> \<not> Contains tok ''://''"

definition chainBoundary :: "string \<Rightarrow> nat \<Rightarrow> nat \<Rightarrow> nat" where
  "chainBoundary segment start i =
    (let c = segment ! i in
     if c = bslash then
       (if HasPrefix (drop i segment) [bslash, CHR ''n''] \<and> assignmentFollows (drop (i + 2) segment) then 2 else 0)
     else if c = newline then (if assignmentFollows (drop (i + 1) segment) then 1 else 0)
     else if c = CHR ''&'' then
       (if i > start \<and> assignmentFollows (drop (i + 1) segment) \<and> isBareAssignment (slice segment start i) then 1 else 0)
     else 0)"

function chainLoop :: "string \<Rightarrow> nat \<Rightarrow> bool" where
  "chainLoop tok i = (case IndexAny (drop i tok) [CHR ''&'', bslash, newline] of
     None \<Rightarrow> False
   | Some j \<Rightarrow> if chainBoundary tok 0 (i + j) > 0 then True else chainLoop tok (i + j + 1))"
  by pat_completeness auto
termination
proof (relation "measure (\<lambda>(tok, i). length tok - i)", goal_cases)
  case (2 tok i j)
  have "IndexAny s cs = Some n \<Longrightarrow> n < length s" for s cs n
    by (induction s arbitrary: n) (auto split: if_splits)
  from this [OF 2(1)] show ?case by auto
qed simp

declare chainLoop.simps [simp del]

definition hasChainBoundary :: "string \<Rightarrow> bool" where
  "hasChainBoundary tok = chainLoop tok 0"

subsection \<open>One step of the scan\<close>

text \<open>
  What the loop of \<open>scanSegmentFrom\<close> does at index \<open>i\<close>: it moves on inside the current token, or it
  cuts the token that began at \<open>start\<close>, writes some bytes of its own and starts a new one.
\<close>

datatype segAction =
    Advance nat bool bool nat
  | CutToken string nat "segmentState \<Rightarrow> segmentState"

definition markerState :: "segmentState \<Rightarrow> segmentState" where
  "markerState s = s\<lparr>pendingKeySensitive := False, pendingContextSensitive := False, pendingBearer := False,
     pendingBasic := False, pendingScheme := False, isInValuePos := False, afterMarker := True\<rparr>"

definition separatorState :: "nat \<Rightarrow> segmentState \<Rightarrow> segmentState" where
  "separatorState r s = (let s1 = s\<lparr>afterMarker := False\<rparr> in
     if (r = byte CHR ''('' \<or> r = byte CHR ''['') \<and> pendingContextSensitive s1 then s1\<lparr>bracketAfterContext := True\<rparr> else s1)"

definition quotedStep :: "string \<Rightarrow> nat \<Rightarrow> bool \<Rightarrow> nat \<Rightarrow> segAction" where
  "quotedStep segment i seenInvalid qc =
    (let r = fst (DecodeRune (drop i segment)); width = runeWidth segment i in
     if r = byte bslash then
       (if i + width < length segment then
          (let r2 = DecodeRune (drop (i + width) segment) in
           Advance (i + width + snd r2) (seenInvalid \<or> (fst r2 = RuneError \<and> snd r2 = 1)) True qc)
        else Advance (i + width) seenInvalid True qc)
     else Advance (i + width) seenInvalid
       (\<not> (r = qc \<and> (r \<noteq> byte squote \<or> apostropheCloses segment (i + width)))) qc)"

text \<open>The end of a single-quoted literal that holds a JSON document.\<close>

definition jsonLiteralEnd :: "string \<Rightarrow> nat \<Rightarrow> nat option" where
  "jsonLiteralEnd segment i =
    (if segment ! i = squote \<and> i + 1 < length segment \<and> (segment ! (i + 1) = CHR ''{'' \<or> segment ! (i + 1) = CHR ''['') then
       (case jsonDocumentEnd segment (i + 1) of
          Some e \<Rightarrow> if e < length segment \<and> segment ! e = squote then Some (e + 1) else None
        | None \<Rightarrow> None)
     else None)"

definition markerEnd :: "string \<Rightarrow> nat \<Rightarrow> nat option" where
  "markerEnd segment i =
    (if HasPrefix (drop i segment) ''[HIDDEN'' then IndexByte (drop i segment) CHR '']'' else None)"

text \<open>A marker in the password slot of a URL.\<close>

definition passwordMarker :: "string \<Rightarrow> nat \<Rightarrow> nat \<Rightarrow> nat \<Rightarrow> bool" where
  "passwordMarker segment start i e \<longleftrightarrow> i > start \<and> HasPrefix (drop (i + e + 1) segment) ''@''
     \<and> HasSuffix (slice segment start i) '':'' \<and> Contains (slice segment start i) ''://''"

definition isEscapedCRLF :: "string \<Rightarrow> bool" where
  "isEscapedCRLF s \<longleftrightarrow> HasPrefix s [bslash, CHR ''r'', bslash, CHR ''n'']"

definition plainStep :: "string \<Rightarrow> nat \<Rightarrow> nat \<Rightarrow> bool \<Rightarrow> nat \<Rightarrow> segAction" where
  "plainStep segment i start seenInvalid qc =
    (let r = fst (DecodeRune (drop i segment)); width = runeWidth segment i in
     case jsonLiteralEnd segment i of
       Some e \<Rightarrow> Advance e seenInvalid False qc
     | None \<Rightarrow>
     if r = byte dquote \<or> (r = byte squote \<and> apostropheOpens segment (i + width)) then Advance (i + width) seenInvalid True r
     else case markerEnd segment i of
       Some e \<Rightarrow>
         if passwordMarker segment start i e then Advance (i + e + 1) seenInvalid False qc
         else CutToken (slice segment i (i + e + 1)) (e + 1) markerState
     | None \<Rightarrow>
     if isEscapedCRLF (drop i segment) then CutToken [bslash, CHR ''r'', bslash, CHR ''n''] 4 id
     else if chainBoundary segment start i > 0
       then CutToken (slice segment i (i + chainBoundary segment start i)) (chainBoundary segment start i) id
     else if isSepRune r then CutToken (EncodeRune r) width (if i = start then separatorState r else id)
     else Advance (i + width) seenInvalid False qc)"

definition segStep :: "string \<Rightarrow> nat \<Rightarrow> nat \<Rightarrow> bool \<Rightarrow> bool \<Rightarrow> nat \<Rightarrow> segAction" where
  "segStep segment i start seenInvalid inQuote qc =
    (let rw = DecodeRune (drop i segment) in
     if fst rw = RuneError then Advance (i + 1) (seenInvalid \<or> snd rw = 1) inQuote qc
     else if inQuote then quotedStep segment i seenInvalid qc
     else plainStep segment i start seenInvalid qc)"

lemma jsonEndLoop_bound: "jsonEndLoop d q j s = Some e \<Longrightarrow> j < e \<and> e \<le> j + length s"
  by (induction d q j s rule: jsonEndLoop.induct) (auto split: if_splits list.splits)

lemma jsonLiteralEnd_bound [tokens]: "jsonLiteralEnd segment i = Some e \<Longrightarrow> i < e \<and> e \<le> length segment"
  by (auto simp: jsonLiteralEnd_def jsonDocumentEnd_def dest!: jsonEndLoop_bound split: if_splits option.splits)

lemma markerEnd_bound [tokens]: "markerEnd segment i = Some e \<Longrightarrow> i + e < length segment"
  by (auto simp: markerEnd_def IndexByte_Some split: if_splits)

lemma assignmentFollows_length [tokens]: "assignmentFollows s \<Longrightarrow> 2 \<le> length s"
  by (auto simp: assignmentFollows_def split: if_splits)

lemma chainBoundary_bound [tokens]: "i < length segment \<Longrightarrow> i + chainBoundary segment start i \<le> length segment"
  by (auto simp: chainBoundary_def Let_def dest!: assignmentFollows_length)

lemma isEscapedCRLF_length [tokens]: "isEscapedCRLF s \<Longrightarrow> 4 \<le> length s"
  by (auto simp: isEscapedCRLF_def HasPrefix_def dest!: prefix_length_le)

text \<open>Every step makes progress and stays inside the segment.\<close>

lemma quotedStep_progress [tokens]:
  assumes "i < length segment"
  obtains i' bad' q' where "quotedStep segment i bad qc = Advance i' bad' q' qc" and "i < i'" and "i' \<le> length segment"
proof -
  define w where "w = runeWidth segment i"
  have w: "1 \<le> w" "i + w \<le> length segment" using runeWidth_pos [OF assms] by (auto simp: w_def)
  have "i + w < length segment \<Longrightarrow> i + w + snd (DecodeRune (drop (i + w) segment)) \<le> length segment"
    using DecodeRune_width [of "drop (i + w) segment"] by auto
  with w that show ?thesis
    by (cases "fst (DecodeRune (drop i segment)) = byte bslash"; cases "i + w < length segment")
      (auto simp: quotedStep_def Let_def w_def [symmetric])
qed

lemma plainStep_progress [tokens]:
  assumes "i < length segment"
  shows "case plainStep segment i start bad qc of
     Advance i' bad' q' qc' \<Rightarrow> i < i' \<and> i' \<le> length segment
   | CutToken out w upd \<Rightarrow> 0 < w \<and> i + w \<le> length segment"
  using assms runeWidth_pos [OF assms] chainBoundary_bound [OF assms, of start] isEscapedCRLF_length [of "drop i segment"]
  by (auto simp: plainStep_def Let_def dest!: jsonLiteralEnd_bound markerEnd_bound split: option.split)

lemma segStep_progress [tokens]:
  assumes "i < length segment"
  shows "case segStep segment i start bad inQ qc of
     Advance i' bad' q' qc' \<Rightarrow> i < i' \<and> i' \<le> length segment
   | CutToken out w upd \<Rightarrow> 0 < w \<and> i + w \<le> length segment"
proof -
  obtain i' bad' q' where "quotedStep segment i bad qc = Advance i' bad' q' qc" "i < i'" "i' \<le> length segment"
    using quotedStep_progress [OF assms] .
  then show ?thesis
    using plainStep_progress [OF assms, of start bad qc] assms by (auto simp: segStep_def Let_def)
qed

subsection \<open>The scan\<close>

definition flushToken ::
  "(string \<Rightarrow> segmentState \<Rightarrow> segmentState op) \<Rightarrow> string \<Rightarrow> nat \<Rightarrow> nat \<Rightarrow> bool \<Rightarrow> segmentState \<Rightarrow> segmentState op" where
  "flushToken app segment start e seenInvalid s =
    (if e > start then app (if seenInvalid then ToValidUTF8 (slice segment start e) else slice segment start e) s else ret s)"

function segLoop ::
  "(string \<Rightarrow> segmentState \<Rightarrow> segmentState op) \<Rightarrow> string \<Rightarrow> nat \<Rightarrow> nat \<Rightarrow> bool \<Rightarrow> bool \<Rightarrow> nat \<Rightarrow> segmentState \<Rightarrow> (bool \<times> nat) op" where
  "segLoop app segment i start seenInvalid inQuote qc s =
    (if i < length segment then
       (case segStep segment i start seenInvalid inQuote qc of
          Advance i' bad' q' qc' \<Rightarrow> segLoop app segment i' start bad' q' qc' s
        | CutToken out w upd \<Rightarrow>
            thenDo (flushToken app segment start i seenInvalid s) (\<lambda>s'.
            thenDo (WriteString out) (\<lambda>_.
            segLoop app segment (i + w) (i + w) False inQuote qc (upd s'))))
     else thenDo (flushToken app segment start (length segment) seenInvalid s) (\<lambda>_. ret (inQuote, qc)))"
  by pat_completeness auto
termination
proof (relation "measure (\<lambda>(app, segment, i, start, bad, q, qc, s). length segment - i)", goal_cases)
  case (2 app segment i start bad q qc s i' bad' q' qc')
  then show ?case using segStep_progress [of i segment start bad q qc] by auto
next
  case (3 app segment i start bad q qc s out w upd)
  then show ?case using segStep_progress [of i segment start bad q qc] by auto
qed simp

declare segLoop.simps [simp del]

definition scanSegmentFrom ::
  "(string \<Rightarrow> segmentState \<Rightarrow> segmentState op) \<Rightarrow> string \<Rightarrow> bool \<Rightarrow> nat \<Rightarrow> (bool \<times> nat) op" where
  "scanSegmentFrom app segment inQuote qc = segLoop app segment 0 0 False inQuote qc initState"

definition scanSegment :: "(string \<Rightarrow> segmentState \<Rightarrow> segmentState op) \<Rightarrow> string \<Rightarrow> unit op" where
  "scanSegment app segment = void (scanSegmentFrom app segment False 0)"

subsection \<open>Lines\<close>

definition redactCarve :: "configState \<Rightarrow> string \<Rightarrow> string \<Rightarrow> unit op" where
  "redactCarve st lbl secret =
    (if isSafeRegexWhitelisted st secret then WriteString secret
     else case customRuleName st secret of
       Some name \<Rightarrow> redactWithHMAC st secret name ''regex''
     | None \<Rightarrow> if lbl \<noteq> [] then redactWithHMAC st secret (entityLabel st lbl) ''signature''
         else redactWithHMAC st secret (entityLabel st ''card'') ''luhn'')"

text \<open>A number between two equal quotes takes them with it.\<close>

definition carveBounds :: "string \<Rightarrow> carve \<Rightarrow> nat \<times> nat \<times> string" where
  "carveBounds line cv =
    (let q = line ! (Start cv - 1) in
     if Start cv > 0 \<and> End cv < length line \<and> (q = dquote \<or> q = squote) \<and> line ! End cv = q
     then (Start cv - 1, End cv + 1, [q]) else (Start cv, End cv, []))"

fun carveLoop ::
  "configState \<Rightarrow> (string \<Rightarrow> segmentState \<Rightarrow> segmentState op) \<Rightarrow> string \<Rightarrow> nat \<Rightarrow> bool \<Rightarrow> nat \<Rightarrow> carve list \<Rightarrow> unit op" where
  "carveLoop st app line chunkStart inQuote qc [] =
    (if chunkStart < length line then void (scanSegmentFrom app (drop chunkStart line) inQuote qc) else ret ())"
| "carveLoop st app line chunkStart inQuote qc (cv # cvs) =
    (case carveBounds line cv of (start, e, quote) \<Rightarrow>
      thenDo (if start > chunkStart then scanSegmentFrom app (slice line chunkStart start) inQuote qc
              else ret (inQuote, qc)) (\<lambda>(inQuote', qc').
      thenDo (block [WriteString quote, redactCarve st (cv_label cv) (slice line (Start cv) (End cv)), WriteString quote]) (\<lambda>_.
      carveLoop st app line e inQuote' qc' cvs)))"

definition cardRanges :: "configState \<Rightarrow> string \<Rightarrow> Range list" where
  "cardRanges st line =
    (let ranges = FindLuhnSequences (unicode st) line in
     if ConfidenceThreshold (config st) > 1.2 then
       (let lowerLine = ToLower (unicode st) line in
        if list_ex (Contains lowerLine) [''card'', ''cc'', ''pan'', ''visa''] then ranges else [])
     else ranges)"

definition scanCarves :: "configState \<Rightarrow> (string \<Rightarrow> segmentState \<Rightarrow> segmentState op) \<Rightarrow> string \<Rightarrow> unit op" where
  "scanCarves st app line =
    carveLoop st app line 0 False 0 (mergeCarves (cardRanges st line) (findShapedNumbers (unicode st) line))"

definition diffMarkers :: "string \<Rightarrow> nat" where
  "diffMarkers line = length (takeWhile (\<lambda>c. c = CHR ''+'' \<or> c = CHR ''-'') (take 2 line))"

definition scanLine :: "configState \<Rightarrow> (string \<Rightarrow> segmentState \<Rightarrow> segmentState op) \<Rightarrow> string \<Rightarrow> nat \<Rightarrow> unit op" where
  "scanLine st app logLine depth =
    (if length logLine = 0 then ret ()
     else if depth = 0 \<and> isGitDiffHeader logLine then WriteString logLine
     else if depth = 0 \<and> isPrivateKeyMarker logLine
       then redactWithHMAC st logLine (entityLabel st ''private-key'') ''signature''
     else let n = (if depth = 0 then diffMarkers logLine else 0) in
       if n > 0 \<and> n < length logLine then block [WriteString (take n logLine), scanCarves st app (drop n logLine)]
       else scanCarves st app logLine)"

subsection \<open>User agents\<close>

lemma skip_while_gt: "i < length s \<Longrightarrow> p (s ! i) \<Longrightarrow> i < skip_while p s i"
  using skip_while_ge [of "Suc i" p s] by (subst skip_while_step) simp

function agentLoop :: "(string \<Rightarrow> unit op) \<Rightarrow> string \<Rightarrow> nat \<Rightarrow> nat \<Rightarrow> nat \<Rightarrow> unit op" where
  "agentLoop scan ua i runStart paren =
    (if i \<ge> length ua then (if runStart < length ua then scan (drop runStart ua) else ret ())
     else if ua ! i = CHR '' '' \<or> ua ! i = tab then agentLoop scan ua (i + 1) runStart paren
     else let j = skip_while (\<lambda>c. c \<noteq> CHR '' '' \<and> c \<noteq> tab) ua i;
              word = slice ua i j;
              coreStart = i + length (takeWhile (\<lambda>c. c = CHR ''('') word);
              core = TrimRight (slice ua coreStart j) '';),'';
              coreEnd = coreStart + length core;
              depthAtCore = paren + CountByte (slice ua i coreStart) CHR ''('';
              paren' = (paren + CountByte word CHR ''('') - CountByte word CHR '')'';
              isMail = (case IndexByte core CHR ''@'' of Some n \<Rightarrow> n > 0 \<and> isEmailAddress core | None \<Rightarrow> False) in
       if isUserAgentProduct core \<or> (depthAtCore > 0 \<and> isMail) then
         block [if coreStart > runStart then scan (slice ua runStart coreStart) else ret (), WriteString core,
                agentLoop scan ua j coreEnd paren']
       else agentLoop scan ua j runStart paren')"
  by pat_completeness auto
termination
  by (relation "measure (\<lambda>(scan, ua, i, r, p). length ua - i)")
    (auto intro!: diff_less_mono2 skip_while_gt)

declare agentLoop.simps [simp del]

definition scanUserAgent :: "(string \<Rightarrow> unit op) \<Rightarrow> string \<Rightarrow> unit op" where
  "scanUserAgent scan ua = agentLoop scan ua 0 0 0"

subsection \<open>What the tokenizer writes\<close>

text \<open>What a cut writes is the piece of the segment it steps over.\<close>

lemma HasPrefix_take: "HasPrefix s t \<Longrightarrow> take (length t) s = t"
  by (auto simp: HasPrefix_def prefix_def)

lemma plainStep_cut:
  assumes "i < length segment" and "DecodeRune (drop i segment) \<noteq> (RuneError, 1)"
    and "plainStep segment i start bad qc = CutToken out w upd"
  shows "out = slice segment i (i + w)"
proof -
  have "isEscapedCRLF (drop i segment) \<Longrightarrow> take 4 (drop i segment) = [bslash, CHR ''r'', bslash, CHR ''n'']"
    using HasPrefix_take [of "drop i segment" "[bslash, CHR ''r'', bslash, CHR ''n'']"] by (simp add: isEscapedCRLF_def eval_nat_numeral)
  moreover have "EncodeRune (fst (DecodeRune (drop i segment))) = take (runeWidth segment i) (drop i segment)"
    using Encode_Decode assms(1,2) by (simp add: runeWidth_def)
  ultimately show ?thesis
    using assms(3) by (auto simp: plainStep_def Let_def slice_def split: option.splits if_splits)
qed

lemma segStep_cut [tokens]:
  assumes "i < length segment" and "segStep segment i start bad inQ qc = CutToken out w upd"
  shows "out = slice segment i (i + w)" and "\<not> inQ"
proof -
  obtain i' bad' q' where quoted: "quotedStep segment i bad qc = Advance i' bad' q' qc"
    using quotedStep_progress [OF assms(1)] .
  with assms(2) have "fst (DecodeRune (drop i segment)) \<noteq> RuneError" and q: "\<not> inQ"
    and plain: "plainStep segment i start bad qc = CutToken out w upd"
    by (auto simp: segStep_def Let_def split: if_splits)
  then have "DecodeRune (drop i segment) \<noteq> (RuneError, 1)" by auto
  from plainStep_cut [OF assms(1) this plain] show "out = slice segment i (i + w)" .
  show "\<not> inQ" by (rule q)
qed

lemma slice_sublist [tokens]: "sublist (slice s a e) s"
proof -
  have "sublist (slice s a e) (drop a s)" by (simp add: slice_def)
  then show ?thesis using sublist_drop sublist_order.order.trans by blast
qed

text \<open>
  The interface of a token processor: on the tokens it is made for (\<open>T\<close>) it keeps the law of the
  engine's operations. Whatever the tokenizer does with such a processor keeps the law as well, on
  text all of whose pieces are such tokens (\<open>fit\<close>).
\<close>

definition fit :: "bool \<Rightarrow> (string \<Rightarrow> bool) \<Rightarrow> string \<Rightarrow> bool" where
  "fit b T segment \<longleftrightarrow> nl b segment \<and> (\<forall>t. sublist t segment \<longrightarrow> T t \<and> T (ToValidUTF8 t))"

lemma fit_sublist: "fit b T u \<Longrightarrow> sublist t u \<Longrightarrow> fit b T t"
  unfolding fit_def using sublist_nl sublist_order.order.trans by blast

lemma fit_pieces:
  assumes "fit b T s"
  shows "fit b T (drop n s)" and "fit b T (take n s)" and "fit b T (slice s i j)" and "nl b (slice s i j)"
  using fit_sublist [OF assms, of "drop n s"] fit_sublist [OF assms, of "take n s"]
    fit_sublist [OF assms slice_sublist, of i j] by (simp_all add: fit_def)

lemma findShapedNumbers_label: "r \<in> set (findShapedNumbers ut line) \<Longrightarrow> newline \<notin> set (label r)"
proof -
  assume "r \<in> set (findShapedNumbers ut line)"
  then have "shaped_at ut line (Start r) (End r) (label r)"
    using shapedLoop_sound [of 0 line ut] by (simp add: findShapedNumbers_loop)
  from shaped_at_sound [OF this] show ?thesis by (auto simp: label_digits_def)
qed

text \<open>A user agent hands the tokenizer only pieces of itself.\<close>

lemma writes_agentLoop:
  assumes "nl b ua" and "\<And>t. sublist t ua \<Longrightarrow> writes E b (scan t)"
  shows "writes E b (agentLoop scan ua i runStart paren)"
proof (induction "length ua - i" arbitrary: i runStart paren rule: less_induct)
  case less
  have scan: "writes E b (scan (slice ua p q))" "writes E b (scan (drop p ua))" for p q
    using assms(2) slice_sublist by auto
  have core: "nl b (TrimRight (slice ua p q) cs)" for p q cs
    using sublist_nl [OF slice_sublist assms(1), of p q] by (auto simp: TrimRight_def dest!: set_dropWhileD)
  show ?case
  proof (cases "i < length ua")
    case True
    define j where "j = skip_while (\<lambda>c. c \<noteq> CHR '' '' \<and> c \<noteq> tab) ua i"
    have "writes E b (agentLoop scan ua j r p)" if "ua ! i \<noteq> CHR '' ''" "ua ! i \<noteq> tab" for r p
    proof -
      have "i < j" using True that skip_while_gt [of i ua] by (simp add: j_def)
      then show ?thesis using less True by auto
    qed
    then show ?thesis
      using less True scan core by (subst agentLoop.simps) (auto simp: Let_def j_def [symmetric] intro!: writes)
  next
    case False
    then show ?thesis using scan by (subst agentLoop.simps) (auto intro!: writes)
  qed
qed

lemma writes_agent [writes]:
  "nl b ua \<Longrightarrow> (\<And>t. sublist t ua \<Longrightarrow> writes E b (scan t)) \<Longrightarrow> writes E b (scanUserAgent scan ua)"
  unfolding scanUserAgent_def by (rule writes_agentLoop)

locale token_writer =
  fixes app :: "string \<Rightarrow> segmentState \<Rightarrow> segmentState op" and E :: "go_error set" and b :: bool
    and T :: "string \<Rightarrow> bool"
  assumes app_writes: "T t \<Longrightarrow> writes E b (app t s)"
begin

lemma flush_writes: "fit b T segment \<Longrightarrow> writes E b (flushToken app segment start e bad s)"
  unfolding flushToken_def fit_def using slice_sublist by (auto intro!: writes app_writes)

lemma segLoop_writes:
  assumes "fit b T segment"
  shows "writes E b (segLoop app segment i start bad inQ qc s)"
proof (induction "length segment - i" arbitrary: i start bad inQ qc s rule: less_induct)
  case less
  show ?case
  proof (cases "i < length segment")
    case i: True
    note progress = segStep_progress [OF i, of start bad inQ qc]
    show ?thesis
    proof (cases "segStep segment i start bad inQ qc")
      case (Advance i' bad' q' qc')
      then have "i < i'" using progress by simp
      then show ?thesis using less i Advance by (subst segLoop.simps) simp
    next
      case (CutToken out w upd)
      then have "0 < w" using progress by simp
      moreover have "nl b out" using segStep_cut(1) [OF i CutToken] fit_pieces(4) [OF assms] by simp
      ultimately show ?thesis
        using less i CutToken flush_writes [OF assms] by (subst segLoop.simps) (auto intro!: writes)
    qed
  next
    case False
    then show ?thesis using flush_writes [OF assms] by (subst segLoop.simps) (auto intro!: writes)
  qed
qed

lemma scanSegmentFrom_writes: "fit b T segment \<Longrightarrow> writes E b (scanSegmentFrom app segment inQ qc)"
  unfolding scanSegmentFrom_def by (rule segLoop_writes)

lemma scanSegment_writes: "fit b T segment \<Longrightarrow> writes E b (scanSegment app segment)"
  unfolding scanSegment_def by (intro writes scanSegmentFrom_writes)

lemma redactCarve_writes:
  assumes "names_ok st \<or> b" and "newline \<notin> set lbl" and "nl b secret"
  shows "writes E b (redactCarve st lbl secret)"
proof -
  have "newline \<notin> set name" if "customRuleName st secret = Some name" "names_ok st" for name
    using that by (auto simp: customRuleName_def names_ok_def entityLabel_def Let_def find_Some_iff split: option.splits if_splits)
  then show ?thesis
    using assms unfolding redactCarve_def by (auto simp: entityLabel_nl intro!: writes split: option.split)
qed

lemma carveLoop_writes:
  assumes "fit b T line" and "names_ok st \<or> b"
  shows "\<forall>cv \<in> set cvs. newline \<notin> set (cv_label cv) \<Longrightarrow> writes E b (carveLoop st app line chunkStart inQ qc cvs)"
proof (induction cvs arbitrary: chunkStart inQ qc)
  case Nil
  then show ?case using fit_pieces [OF assms(1)] by (auto intro!: writes scanSegmentFrom_writes)
next
  case (Cons cv cvs)
  obtain start e quote where bounds: "carveBounds line cv = (start, e, quote)" by (metis prod_cases3)
  then have "newline \<notin> set quote" by (auto simp: carveBounds_def Let_def split: if_splits)
  moreover have "writes E b (redactCarve st (cv_label cv) (slice line (Start cv) (End cv)))"
    using Cons.prems fit_pieces [OF assms(1)] by (intro redactCarve_writes assms(2)) auto
  ultimately show ?case
    using Cons scanSegmentFrom_writes [OF fit_pieces(3) [OF assms(1)]] bounds
    by (auto intro!: writes split: prod.split)
qed

lemma scanCarves_writes:
  assumes "fit b T line" and "names_ok st \<or> b"
  shows "writes E b (scanCarves st app line)"
proof -
  have "newline \<notin> set (cv_label cv)" if "cv \<in> set (mergeCarves cs ns)" "\<forall>n \<in> set ns. newline \<notin> set (label n)" for cv cs ns
    using that by (induction cs ns rule: mergeCarves.induct) (auto simp: card_carve_def number_carve_def split: if_splits)
  moreover have "\<forall>n \<in> set (findShapedNumbers (unicode st) line). newline \<notin> set (label n)"
    using findShapedNumbers_label by blast
  ultimately show ?thesis unfolding scanCarves_def by (intro carveLoop_writes [OF assms]) blast
qed

lemma scanLine_writes:
  assumes "fit b T line" and "names_ok st \<or> b"
  shows "writes E b (scanLine st app line depth)"
proof -
  have "nl b line" using assms(1) by (simp add: fit_def)
  then show ?thesis
    using scanCarves_writes [OF _ assms(2)] fit_pieces [OF assms(1)] assms(1) unfolding scanLine_def Let_def
    by (auto intro!: writes simp: entityLabel_nl dest: in_set_takeD)
qed

end

end
