(* ===== verification/Engine.thy ===== *)
theory Engine
  imports Tokenizer
begin

text \<open>
  The redaction engine of \<^verbatim>\<open>scanner.go\<close>: what happens to a token, depending on its shape
  and on what came before it in the segment.

  The functions of the source call each other in a cycle that always goes through
  \<open>processTokenLogic\<close>. Here every function on the cycle takes the next turn of it as an argument
  \<open>next\<close>, and the cycle is closed by \<open>engine\<close>, which counts the turns down. The source bounds the
  depth of the recursion by \<open>maxTokenRecursionDepth\<close>; that this bounds the number of turns is shown
  further on, so that the count never runs out.
\<close>

named_theorems engine_law "what the parts of the engine write"

type_synonym tokenLogic = "string \<Rightarrow> bool \<Rightarrow> bool \<Rightarrow> bool \<Rightarrow> bool \<Rightarrow> bool \<Rightarrow> nat \<Rightarrow> bool op"

subsection \<open>Words and case folding\<close>

text \<open>
  \<^verbatim>\<open>strings.EqualFold\<close> against a word of ASCII letters: besides the two cases of a letter, the
  Kelvin sign folds to k and the long s to s.
\<close>

definition foldsTo :: "nat \<Rightarrow> char \<Rightarrow> bool" where
  "foldsTo r c \<longleftrightarrow> (r < RuneSelf \<and> lowerASCIIByte (char_of r) = lowerASCIIByte c)
     \<or> (r = 8490 \<and> lowerASCIIByte c = CHR ''k'') \<or> (r = 383 \<and> lowerASCIIByte c = CHR ''s'')"

definition EqualFold :: "string \<Rightarrow> string \<Rightarrow> bool" where
  "EqualFold s word \<longleftrightarrow> list_all2 foldsTo (Runes s) word"

definition TrimBytes :: "string \<Rightarrow> string \<Rightarrow> string" where
  "TrimBytes s cs = TrimRight (dropWhile (\<lambda>c. c \<in> set cs) s) cs"

function TrimRightFunc :: "(nat \<Rightarrow> bool) \<Rightarrow> string \<Rightarrow> string" where
  "TrimRightFunc p s = (if s \<noteq> [] \<and> p (fst (DecodeLastRune s))
     then TrimRightFunc p (take (length s - snd (DecodeLastRune s)) s) else s)"
  by pat_completeness auto
termination
  by (relation "measure (\<lambda>(p, s). length s)") (use DecodeLastRune_width in \<open>auto simp: Suc_le_eq\<close>)

declare TrimRightFunc.simps [simp del]

text \<open>The lowered form of a token; short ASCII tokens keep their own bytes for the bigram score.\<close>

definition forBigrams :: "unicode_tables \<Rightarrow> string \<Rightarrow> string" where
  "forBigrams ut s = (if length s \<le> 64 \<and> \<not> hasNonASCII s then s else ToLower ut s)"

definition ContextKeywords :: "string list" where
  "ContextKeywords = [''error'', ''failed'', ''exception'', ''invalid'', ''fatal'', ''panic'', ''warning'', ''bad'',
     ''denied'', ''unauthorized'', ''broken'', ''password'', ''secret'', ''token'', ''key'', ''auth'']"

definition isWhole :: "string \<Rightarrow> bool" where
  "isWhole trimmed \<longleftrightarrow> trimmed = ''='' \<or> trimmed = '':''"

definition endsInSep :: "string \<Rightarrow> bool" where
  "endsInSep trimmed \<longleftrightarrow> HasSuffix trimmed '':'' \<or> HasSuffix trimmed ''=''"

definition cleanToken :: "string \<Rightarrow> string" where
  "cleanToken trimmed = trimQuotes (if endsInSep trimmed then butlast trimmed else trimmed)"

subsection \<open>A token in its segment\<close>

text \<open>A sensitive key with an authorization scheme as its value, in one token.\<close>

definition schemePair :: "configState \<Rightarrow> string \<Rightarrow> string option" where
  "schemePair st trimmed =
    (if trimmed \<noteq> [] \<and> last trimmed \<in> {CHR ''c'', CHR ''C'', CHR ''r'', CHR ''R''} then
       (case CutByte trimmed CHR ''='' of
          Some (k, v) \<Rightarrow> if k \<noteq> [] \<and> (EqualFold v ''basic'' \<or> EqualFold v ''bearer'') \<and> isSensitiveKey st (trimQuotes k)
            then Some v else None
        | None \<Rightarrow> None)
     else None)"

definition schemePairState :: "string \<Rightarrow> segmentState \<Rightarrow> segmentState" where
  "schemePairState v s = s\<lparr>pendingKeySensitive := False, pendingContextSensitive := False, pendingAfterCopula := False,
     prevStrongSecretWord := False, pendingHashKey := False, bracketAfterContext := False, afterMarker := False,
     isInValuePos := False, pendingBearer := EqualFold v ''bearer'', bearerAfterKey := EqualFold v ''bearer'',
     pendingBasic := EqualFold v ''basic'', pendingScheme := False, sepAfterSensitiveKey := False, prevClean := []\<rparr>"

definition schemeSlot :: "segmentState \<Rightarrow> bool" where
  "schemeSlot s \<longleftrightarrow> pendingKeySensitive s \<or> sepAfterSensitiveKey s"

definition readsAsEnglish :: "configState \<Rightarrow> string \<Rightarrow> bool" where
  "readsAsEnglish st clean \<longleftrightarrow> calculateBigramAdjustment st (forBigrams (unicode st) clean) < 0"

text \<open>The force of the key before the token, after the rules that give it up.\<close>

definition keyForce :: "configState \<Rightarrow> segmentState \<Rightarrow> string \<Rightarrow> bool" where
  "keyForce st s clean \<longleftrightarrow>
    (let ut = unicode st; lower = ToLower ut clean; prose = (\<not> isInValuePos s) in
     pendingKeySensitive s
     \<and> \<not> (int (length clean) < MinSecretLength (config st) \<and> isAllLetters ut clean
          \<and> (prose \<or> \<not> st_keyNamesSecret s \<or> lower \<in> set valueLiterals))
     \<and> \<not> (prose \<and> length (Runes clean) < 3)
     \<and> \<not> (prose \<and> isAllLetters ut clean \<and> (readsAsEnglish st clean \<or> \<not> hasASCII clean))
     \<and> \<not> (prose \<and> EqualFold (prevClean s) ''key'' \<and> isIdentifierName st (TrimBytes clean [CHR 0x60, bslash, squote, dquote]))
     \<and> \<not> (schemeSlot s \<and> lower \<in> set longAuthSchemes))"

definition credentialShape :: "configState \<Rightarrow> string \<Rightarrow> bool" where
  "credentialShape st clean \<longleftrightarrow> looksLikeSecretWord (unicode st) clean \<and> \<not> isISO8601Timestamp (unicode st) clean
     \<and> \<not> isSchemeParameter clean"

definition isSchemeCredential :: "configState \<Rightarrow> segmentState \<Rightarrow> string \<Rightarrow> bool" where
  "isSchemeCredential st s clean \<longleftrightarrow>
    (let enough = (\<lambda>n. int (length clean) \<ge> n); minLength = MinSecretLength (config st); bearer = int minBearerCredentialLength in
     (pendingBearer s \<and> enough bearer)
     \<or> (bearerAfterKey s \<and> enough minLength \<and> credentialShape st clean)
     \<or> (pendingBasic s \<and> enough minLength \<and> isBase64Body (TrimRight clean ''='') \<and> CountByte clean CHR ''='' \<le> 2
        \<and> \<not> (isAllLetters (unicode st) clean \<and> readsAsEnglish st clean))
     \<or> (pendingScheme s \<and> enough bearer \<and> credentialShape st clean))"

definition copulaValue :: "configState \<Rightarrow> segmentState \<Rightarrow> string \<Rightarrow> bool" where
  "copulaValue st s clean \<longleftrightarrow>
    (let core = TrimRightFunc (\<lambda>r. IsPunct (unicode st) r \<and> r \<noteq> byte CHR ''_'') clean in
     pendingAfterCopula s \<and> int (length core) \<ge> MinSecretLength (config st) \<and> looksLikeSecretWord (unicode st) core)"

definition isForced :: "configState \<Rightarrow> segmentState \<Rightarrow> string \<Rightarrow> bool" where
  "isForced st s clean \<longleftrightarrow> keyForce st s clean \<or> isSchemeCredential st s clean
     \<or> (pendingSessionKey s \<and> isSessionTokenValue st clean) \<or> copulaValue st s clean"

text \<open>A pair that carries the value of a generic key; looking at its key can panic.\<close>

definition overrideOf :: "configState \<Rightarrow> segmentState \<Rightarrow> string \<Rightarrow> bool op" where
  "overrideOf st s trimmed =
    (if nextValueIsSensitive s then
       (case pairKey trimmed of None \<Rightarrow> ret False | Some k \<Rightarrow> lift_go (isGenericValueKey (unicode st) k))
     else ret False)"

definition dispatchToken :: "configState \<Rightarrow> tokenLogic \<Rightarrow> nat \<Rightarrow> string \<Rightarrow> segmentState \<Rightarrow> bool \<Rightarrow> bool op" where
  "dispatchToken st next depth token s override =
    (let trimmed = TrimSpace token; clean = cleanToken trimmed;
         context = (pendingContextSensitive s \<and> \<not> (bracketAfterContext s \<and> readsAsWords st clean)) in
     if afterMarker s \<and> HasPrefix trimmed ''&'' \<and> \<not> Contains trimmed ''='' then steps [WriteString token] False
     else if isShortHashUnderHashKey st trimmed (pendingHashKey s) then steps [WriteString token] False
     else next token (isForced st s clean) context (isInValuePos s \<or> isSchemeCredential st s clean)
            (isInValuePos s \<and> valueOfQuotedKey s) override depth)"

subsection \<open>The state after a token\<close>

definition isGenericName :: "unicode_tables \<Rightarrow> string \<Rightarrow> bool" where
  "isGenericName ut s \<longleftrightarrow> ToLower ut s \<in> {''key'', ''name'', ''setting''}"

definition startsQuoted :: "string \<Rightarrow> bool" where
  "startsQuoted trimmed \<longleftrightarrow> trimmed \<noteq> [] \<and> (hd trimmed = dquote \<or> hd trimmed = squote)"

text \<open>A compact or logfmt pair whose key is generic and whose value names a secret.\<close>

definition namesNextValue :: "configState \<Rightarrow> string \<Rightarrow> bool" where
  "namesNextValue st trimmed =
    (case (case splitCompactPair trimmed of
        Some kv \<Rightarrow> Some kv
      | None \<Rightarrow> map_option (\<lambda>(k, v). (trimQuotes k, trimQuotes v)) (CutByte trimmed CHR ''='')) of
       None \<Rightarrow> False
     | Some (k, v) \<Rightarrow> v \<noteq> [] \<and> isGenericName (unicode st) k \<and> isSensitiveKey st v)"

definition keyState :: "configState \<Rightarrow> string \<Rightarrow> bool \<Rightarrow> segmentState \<Rightarrow> segmentState" where
  "keyState st trimmed isKey s =
    (let clean = cleanToken trimmed; generic = isGenericName (unicode st) clean in
     if isKey then s\<lparr>pendingKeySensitive := True, st_keyNamesSecret := HasPrefix trimmed [dquote] \<and> keyNamesSecret st clean,
       nextValueIsSensitive := False, pendingGenericKey := generic\<rparr>
     else
       let s1 = s\<lparr>pendingKeySensitive := False\<rparr>;
           s2 = (if isInValuePos s1 \<and> pendingGenericKey s1
                 then s1\<lparr>nextValueIsSensitive := nextValueIsSensitive s1 \<or> isSensitiveKey st clean, pendingGenericKey := False\<rparr>
                 else s1);
           s3 = (if generic \<and> endsInSep trimmed then s2\<lparr>pendingGenericKey := True\<rparr> else s2) in
       if namesNextValue st trimmed then s3\<lparr>nextValueIsSensitive := True\<rparr> else s3)"

text \<open>What the token says about the next one; \<open>old\<close> is the state before the token.\<close>

definition wordState :: "configState \<Rightarrow> string \<Rightarrow> bool \<Rightarrow> segmentState \<Rightarrow> segmentState \<Rightarrow> segmentState" where
  "wordState st trimmed isKey old s =
    (let ut = unicode st; clean = cleanToken trimmed; lower = ToLower ut clean;
         pair = (if endsInSep trimmed then pairKey trimmed else None) in
     s\<lparr>pendingBearer := lower = ''bearer'',
       bearerAfterKey := lower = ''bearer'' \<and> schemeSlot old,
       pendingBasic := lower = ''basic'' \<and> schemeSlot old,
       pendingScheme := schemeSlot old \<and> isAuthSchemeWord clean,
       pendingAfterCopula := (prevStrongSecretWord old \<and> (lower \<in> set copulaWords \<or> trimmed = ''=''))
         \<or> (isWhole trimmed \<and> prevClean old \<noteq> [] \<and> isSensitiveKey st (prevClean old)),
       prevStrongSecretWord := isKey \<and> lower \<in> set strongSecretWords,
       pendingHashKey := (case pair of None \<Rightarrow> False | Some k \<Rightarrow> isHashKeyName ut k \<and> \<not> isSensitiveKey st k),
       pendingSessionKey := (case pair of None \<Rightarrow> False | Some k \<Rightarrow> isSessionKey ut k),
       pendingContextSensitive := lower \<in> set ContextKeywords\<rparr>)"

definition positionState :: "string \<Rightarrow> segmentState \<Rightarrow> segmentState" where
  "positionState trimmed s =
    (let s1 = (if isWhole trimmed then s\<lparr>isInValuePos := True, valueOfQuotedKey := lastTokenQuoted s\<rparr>
               else if endsInSep trimmed \<or> HasSuffix trimmed fullWidthColon
                 then s\<lparr>isInValuePos := True, valueOfQuotedKey := startsQuoted trimmed\<rparr>
               else if trimmed \<noteq> [] then s\<lparr>isInValuePos := False\<rparr> else s) in
     s1\<lparr>lastTokenQuoted := startsQuoted trimmed\<rparr>)"

definition processAndAppend :: "configState \<Rightarrow> tokenLogic \<Rightarrow> nat \<Rightarrow> string \<Rightarrow> segmentState \<Rightarrow> segmentState op" where
  "processAndAppend st next depth token s =
    (let trimmed = TrimSpace token; clean = cleanToken trimmed in
     case schemePair st trimmed of
       Some v \<Rightarrow> steps [WriteString token] (schemePairState v s)
     | None \<Rightarrow>
        thenDo (overrideOf st s trimmed) (\<lambda>override.
        thenDo (dispatchToken st next depth token s override) (\<lambda>isKey.
        let s1 = s\<lparr>sepAfterSensitiveKey := isWhole trimmed
                \<and> (pendingKeySensitive s \<or> (prevClean s \<noteq> [] \<and> isSensitiveKey st (prevClean s))),
              prevClean := clean, nextValueIsSensitive := nextValueIsSensitive s \<and> \<not> override,
              afterMarker := False, bracketAfterContext := False\<rparr> in
        ret (positionState trimmed (wordState st trimmed isKey s (keyState st trimmed isKey s1))))))"

subsection \<open>Pairs\<close>

abbreviation segmentAt :: "configState \<Rightarrow> tokenLogic \<Rightarrow> nat \<Rightarrow> string \<Rightarrow> unit op" where
  "segmentAt st next depth \<equiv> scanSegment (processAndAppend st next depth)"

abbreviation lineAt :: "configState \<Rightarrow> tokenLogic \<Rightarrow> nat \<Rightarrow> string \<Rightarrow> unit op" where
  "lineAt st next depth line \<equiv> scanLine st (processAndAppend st next depth) line depth"

definition phraseAt :: "configState \<Rightarrow> tokenLogic \<Rightarrow> nat \<Rightarrow> string \<Rightarrow> unit op" where
  "phraseAt st next depth s =
    (if startsWithProductToken s then scanUserAgent (segmentAt st next depth) s else segmentAt st next depth s)"

definition hasPair :: "string \<Rightarrow> bool" where
  "hasPair val \<longleftrightarrow> Contains val ''='' \<or> Contains val '':''"

definition hasSepRune :: "string \<Rightarrow> bool" where
  "hasSepRune s \<longleftrightarrow> list_ex isSepRune (Runes s)"

text \<open>The value of a pair inside quotes.\<close>

definition quotedPairValue :: "configState \<Rightarrow> tokenLogic \<Rightarrow> string \<Rightarrow> bool \<Rightarrow> bool \<Rightarrow> nat \<Rightarrow> unit op" where
  "quotedPairValue st next val keySensitive overrideSensitivity depth =
    (if keySensitive then processSingleToken st val val True False False
     else if hasPair val \<and> hasSepRune val then lineAt st next (depth + 1) val
     else if hasPair val then void (next val False False False False overrideSensitivity (depth + 1))
     else lineAt st next (depth + 1) val)"

definition quotedEqualPair ::
  "configState \<Rightarrow> tokenLogic \<Rightarrow> string \<Rightarrow> bool \<Rightarrow> bool \<Rightarrow> nat \<Rightarrow> bool op option" where
  "quotedEqualPair st next rawToken forcedSensitive overrideSensitivity depth =
    (let quote = [hd rawToken]; trimmed = trimQuotes rawToken in
     if isPaddedBase64Blob trimmed \<or> isElidedBase64 trimmed then
       Some (steps [WriteString quote, processSingleToken st trimmed trimmed forcedSensitive False False, WriteString quote] False)
     else case CutByte trimmed CHR ''='' of
       None \<Rightarrow> None
     | Some (key, val) \<Rightarrow> Some (
         if forcedSensitive then
           steps [WriteString quote, processSingleToken st trimmed trimmed True False False, WriteString quote] False
         else if hasSepRune key then steps [WriteString quote, phraseAt st next (depth + 1) trimmed, WriteString quote] False
         else let keySensitive = isSensitivePairKey st key \<or> overrideSensitivity in
           steps [WriteString quote, writeKeyHalf st key, WriteString ''='',
                  quotedPairValue st next val keySensitive overrideSensitivity depth, WriteString quote]
             (keySensitive \<and> val = [])))"

definition plainEqualPair :: "configState \<Rightarrow> tokenLogic \<Rightarrow> string \<Rightarrow> string \<Rightarrow> bool \<Rightarrow> nat \<Rightarrow> bool op" where
  "plainEqualPair st next key val overrideSensitivity depth =
    (let keySensitive = (isSensitivePairKey st key \<or> overrideSensitivity
           \<or> (isSessionKey (unicode st) key \<and> isSessionTokenValue st val)) in
     steps [writeKeyHalf st key, WriteString ''='',
            if hasPair val \<and> \<not> keySensitive then void (next val False False False False overrideSensitivity (depth + 1))
            else if isBalancedQuoted val \<or> isBytesLiteral val then void (next val keySensitive False True False False (depth + 1))
            else processSingleToken st val val keySensitive False False]
       (keySensitive \<and> val = []))"

definition processEqualPair ::
  "configState \<Rightarrow> tokenLogic \<Rightarrow> string \<Rightarrow> bool \<Rightarrow> bool \<Rightarrow> nat \<Rightarrow> bool op option" where
  "processEqualPair st next rawToken forcedSensitive overrideSensitivity depth =
    (case CutByte rawToken CHR ''='' of
       None \<Rightarrow> None
     | Some (key, val) \<Rightarrow>
        if isPaddedBase64Blob rawToken \<or> isElidedBase64 rawToken then None
        else if forcedSensitive \<and> isPaddedBase64Token rawToken then None
        else if length rawToken \<ge> 2 \<and> (hd rawToken = dquote \<or> hd rawToken = squote) \<and> last rawToken = hd rawToken
          then quotedEqualPair st next rawToken forcedSensitive overrideSensitivity depth
        else Some (plainEqualPair st next key val overrideSensitivity depth))"

text \<open>The colon that ends a key: after the closing quote when the token starts with one.\<close>

definition colonIndex :: "string \<Rightarrow> nat option" where
  "colonIndex rawToken =
    (if HasPrefix rawToken [dquote] \<or> HasPrefix rawToken [squote] then
       (case IndexByte (tl rawToken) (hd rawToken) of
          Some endQ \<Rightarrow> map_option (\<lambda>col. endQ + 2 + col) (IndexByte (drop (endQ + 2) rawToken) CHR '':'')
        | None \<Rightarrow> IndexByte rawToken CHR '':'')
     else IndexByte rawToken CHR '':'')"

definition isSCPTarget :: "string \<Rightarrow> bool" where
  "isSCPTarget val =
    (if val = [] \<or> hd val = CHR ''/'' \<or> hd val = CHR ''~'' \<or> CHR ''/'' \<in> set val \<or> HasSuffix val ''.git'' \<or> isFileName val
     then True else list_all isASCIIDigit val)"

definition hasAddress :: "string \<Rightarrow> bool" where
  "hasAddress key \<longleftrightarrow> (case IndexByte key CHR ''@'' of Some i \<Rightarrow> i > 0 \<and> isEmailAddress key | None \<Rightarrow> False)"

text \<open>A key with nothing after its colon.\<close>

definition lonelyKey :: "configState \<Rightarrow> string \<Rightarrow> string \<Rightarrow> bool \<Rightarrow> bool op" where
  "lonelyKey st rawToken keyRaw keySensitive =
    (let key = trimQuotes keyRaw in
     if hasAddress key \<and> (keyRaw = key \<or> isBalancedQuoted keyRaw) then
       steps [processSingleToken st key keyRaw False False False, WriteString '':''] keySensitive
     else if keyRaw = key \<and> \<not> keySensitive \<and> (length key \<noteq> 12 \<or> \<not> isHexString key) then
       steps [writeKeyHalf st key, WriteString '':''] False
     else steps [WriteString rawToken] keySensitive)"

definition processColonPair :: "configState \<Rightarrow> tokenLogic \<Rightarrow> string \<Rightarrow> bool \<Rightarrow> nat \<Rightarrow> bool op option" where
  "processColonPair st next rawToken overrideSensitivity depth =
    (if Contains rawToken ''://'' then None
     else case colonIndex rawToken of
       None \<Rightarrow> None
     | Some idx \<Rightarrow> Some (
         if isImage rawToken then steps [WriteString rawToken] False
         else let keyRaw = take idx rawToken; val = drop (idx + 1) rawToken; key = trimQuotes keyRaw;
                  keySensitive = (isSensitiveKey st key \<or> overrideSensitivity
                    \<or> (isSessionKey (unicode st) key \<and> isSessionTokenValue st (trimQuotes val))) in
           if val = [] then lonelyKey st rawToken keyRaw keySensitive
           else if keyRaw = key \<and> hasAddress key \<and> \<not> isSCPTarget val then
             steps [processSingleToken st key keyRaw False False False, WriteString '':'',
                    processSingleToken st val val True False False] False
           else thenDo (block [WriteString keyRaw, WriteString '':'']) (\<lambda>_.
             next val keySensitive False True (startsQuoted keyRaw) False (depth + 1))))"

subsection \<open>A token\<close>

definition maxTokenRecursionDepth :: nat where "maxTokenRecursionDepth = 32"

text \<open>
  The branches of \<open>processTokenLogic\<close>, in its order. A branch that does not apply gives nothing and
  writes nothing.
\<close>

definition wrappedBranch :: "tokenLogic \<Rightarrow> string \<Rightarrow> bool \<Rightarrow> bool \<Rightarrow> bool \<Rightarrow> bool \<Rightarrow> nat \<Rightarrow> bool op option" where
  "wrappedBranch next rawToken forced context isValuePos override depth =
    map_option (\<lambda>(pre, post).
      thenDo (WriteString (take pre rawToken)) (\<lambda>_.
      thenDo (next (slice rawToken pre (length rawToken - post)) forced context isValuePos False override (depth + 1)) (\<lambda>inner.
      steps [WriteString (drop (length rawToken - post) rawToken)] inner)))
      (escapedOrBacktickWrap rawToken)"

definition markerBranch :: "configState \<Rightarrow> tokenLogic \<Rightarrow> string \<Rightarrow> nat \<Rightarrow> bool op option" where
  "markerBranch st next rawToken depth =
    (if Contains rawToken ''[HIDDEN'' then
       (if (case urlPassword (unicode st) rawToken of Some (s, e) \<Rightarrow> isRedacted (slice rawToken s e) | None \<Rightarrow> False) then
          Some (steps [maskURLParameters st (segmentAt st next depth) rawToken] False)
        else if isRedacted (trimQuotes rawToken) then Some (steps [WriteString rawToken] False)
        else if \<not> ContainsAny rawToken [dquote, squote] then Some (steps [lineAt st next (depth + 1) rawToken] False)
        else None)
     else None)"

definition jsonStringBranch :: "configState \<Rightarrow> tokenLogic \<Rightarrow> string \<Rightarrow> bool \<Rightarrow> bool \<Rightarrow> nat \<Rightarrow> bool op option" where
  "jsonStringBranch st next rawToken forced context depth =
    map_option (\<lambda>inner.
      if forced then
        steps [WriteString [dquote], processSingleToken st inner inner True context False, WriteString [dquote]] False
      else thenDo (capture (lineAt st next (depth + 1) inner)) (\<lambda>scanned.
        steps [WriteString (if scanned = inner then rawToken else jsonQuote scanned)] False))
      (escapedJSONString rawToken)"

definition bytesBranch :: "configState \<Rightarrow> tokenLogic \<Rightarrow> string \<Rightarrow> bool \<Rightarrow> bool \<Rightarrow> nat \<Rightarrow> bool op option" where
  "bytesBranch st next rawToken forced context depth =
    (if isBytesLiteral rawToken then
       (let inner = slice rawToken 2 (length rawToken - 1) in
        Some (steps [WriteString [rawToken ! 0], WriteString [rawToken ! 1],
          if forced then processSingleToken st inner inner True context False
          else if isEscapedBinary inner then processBinaryBlob st inner context
          else segmentAt st next (depth + 1) inner,
          WriteString [rawToken ! 1]] False))
     else None)"

definition chainBranch :: "configState \<Rightarrow> tokenLogic \<Rightarrow> string \<Rightarrow> bool \<Rightarrow> bool \<Rightarrow> nat \<Rightarrow> bool op option" where
  "chainBranch st next rawToken forced override depth =
    (if \<not> forced \<and> startsQuoted rawToken \<and> CHR ''='' \<in> set rawToken \<and> ContainsAny rawToken [CHR ''&'', bslash, newline] then
       (let q = hd rawToken; inner = slice rawToken 1 (length rawToken - 1) in
        if isBalancedQuoted rawToken \<and> q \<notin> set inner \<and> hasChainBoundary inner then
          Some (steps [WriteString [q], segmentAt st next (depth + 1) inner, WriteString [q]] False)
        else case splitCompactPair rawToken of
          Some (k, v) \<Rightarrow>
            if hasChainBoundary v then
              Some (steps [WriteString (take (length k + 2) rawToken), WriteString '':'',
                void (next (drop (length k + 3) rawToken) (isSensitiveKey st k \<or> override) False True True False (depth + 1))] False)
            else None
        | None \<Rightarrow> None)
     else None)"

text \<open>A quoted phrase with a URL in it as the value of a compact or logfmt pair.\<close>

definition phraseValue :: "configState \<Rightarrow> tokenLogic \<Rightarrow> string \<Rightarrow> bool \<Rightarrow> nat \<Rightarrow> bool op option" where
  "phraseValue st next rawToken override depth =
    (case splitCompactPair rawToken of
       Some (k, v) \<Rightarrow>
         if isQuotedPhrase (drop (length k + 3) rawToken) then
           Some (steps [WriteString (take (length k + 3) rawToken),
             void (next (drop (length k + 3) rawToken) (isSensitiveKey st k \<or> override) False True True False (depth + 1))] False)
         else None
     | None \<Rightarrow> None)"

definition phraseAssignment :: "configState \<Rightarrow> tokenLogic \<Rightarrow> string \<Rightarrow> bool \<Rightarrow> nat \<Rightarrow> bool op option" where
  "phraseAssignment st next rawToken override depth =
    (case CutByte rawToken CHR ''='' of
       Some (k, v) \<Rightarrow>
         if k \<noteq> [] \<and> \<not> ContainsAny k [dquote, squote, CHR '' '', CHR '':'', CHR ''/'', CHR ''?'', CHR ''&''] \<and> isQuotedPhrase v then
           Some (steps [WriteString (k @ ''=''),
             void (next v (isSensitiveKey st k \<or> override) False True False False (depth + 1))] False)
         else None
     | None \<Rightarrow> None)"

text \<open>The first alternative that applies, or else the last resort.\<close>

fun firstOf :: "'a option list \<Rightarrow> 'a \<Rightarrow> 'a" where
  "firstOf [] d = d"
| "firstOf (Some a # as) d = a"
| "firstOf (None # as) d = firstOf as d"

definition urlBranch :: "configState \<Rightarrow> tokenLogic \<Rightarrow> string \<Rightarrow> bool \<Rightarrow> bool \<Rightarrow> bool \<Rightarrow> bool \<Rightarrow> nat \<Rightarrow> bool op option" where
  "urlBranch st next rawToken forced context isValuePos override depth =
    (if Contains rawToken ''://'' \<or> hasQueryShape rawToken then Some (
       if isQuotedPhrase rawToken then
         (if forced then steps [processSingleToken st (trimQuotes rawToken) rawToken True context isValuePos] False
          else steps [WriteString [hd rawToken], segmentAt st next (depth + 1) (slice rawToken 1 (length rawToken - 1)),
                      WriteString [hd rawToken]] False)
       else firstOf [phraseValue st next rawToken override depth, phraseAssignment st next rawToken override depth]
              (steps [maskURLParameters st (segmentAt st next depth) rawToken] False))
     else None)"

definition telegramBranch :: "configState \<Rightarrow> string \<Rightarrow> bool \<Rightarrow> bool \<Rightarrow> bool \<Rightarrow> bool op option" where
  "telegramBranch st rawToken forced context isValuePos =
    (if hasTelegramShape rawToken then
       (if matchSignature (trimQuotes rawToken) \<noteq> [] then
          Some (steps [processSingleToken st (trimQuotes rawToken) rawToken forced context isValuePos] False)
        else if CHR ''/'' \<in> set rawToken \<and> hasPathSignature rawToken then Some (steps [writeURLPath st rawToken] False)
        else None)
     else None)"

definition timestampBranch :: "configState \<Rightarrow> string \<Rightarrow> bool \<Rightarrow> bool op option" where
  "timestampBranch st rawToken forced =
    (if \<not> forced \<and> isISO8601Timestamp (unicode st) (trimQuotes rawToken) then Some (steps [WriteString rawToken] False) else None)"

definition pythonBranch :: "tokenLogic \<Rightarrow> string \<Rightarrow> bool \<Rightarrow> bool \<Rightarrow> bool \<Rightarrow> nat \<Rightarrow> bool op option" where
  "pythonBranch next rawToken forced context override depth =
    (let e = pythonLogPrefixEnd rawToken in
     if \<not> forced \<and> e > 0 then Some (
       thenDo (WriteString (take e rawToken)) (\<lambda>_.
         if e = length rawToken then ret False
         else next (drop e rawToken) False context False False override (depth + 1)))
     else None)"

definition compactBranch :: "configState \<Rightarrow> tokenLogic \<Rightarrow> string \<Rightarrow> bool \<Rightarrow> nat \<Rightarrow> bool op option" where
  "compactBranch st next rawToken override depth =
    (if splitCompactPair rawToken \<noteq> None then processColonPair st next rawToken override depth else None)"

definition forcedColonBranch :: "configState \<Rightarrow> string \<Rightarrow> bool \<Rightarrow> bool \<Rightarrow> bool \<Rightarrow> bool op option" where
  "forcedColonBranch st rawToken forced context isValuePos =
    (if forced \<and> length rawToken > 1 \<and> \<not> startsQuoted rawToken
        \<and> (case IndexByte rawToken CHR '':'' of Some colon \<Rightarrow> colon > 0 \<and> colon < length rawToken - 1 | None \<Rightarrow> False)
     then Some (steps [processSingleToken st rawToken rawToken True context isValuePos] False) else None)"

definition fullWidthBranch :: "configState \<Rightarrow> tokenLogic \<Rightarrow> string \<Rightarrow> bool \<Rightarrow> nat \<Rightarrow> bool op option" where
  "fullWidthBranch st next rawToken override depth =
    (case IndexByte rawToken (hd fullWidthColon) of
       None \<Rightarrow> None
     | Some i \<Rightarrow>
        if i > 0 \<and> HasPrefix (drop i rawToken) fullWidthColon \<and> \<not> ContainsAny rawToken [CHR '':'', CHR ''='', dquote, squote] then
          (let key = take i rawToken; val = drop (i + length fullWidthColon) rawToken;
               keySensitive = (isSensitiveKey st key \<or> override) in
           Some (thenDo (block [writeKeyHalf st key, WriteString fullWidthColon]) (\<lambda>_.
             if val = [] then ret keySensitive else next val keySensitive False True False False (depth + 1))))
        else None)"

definition singleBranch :: "configState \<Rightarrow> tokenLogic \<Rightarrow> string \<Rightarrow> bool \<Rightarrow> bool \<Rightarrow> bool \<Rightarrow> bool \<Rightarrow> bool \<Rightarrow> nat \<Rightarrow> bool op" where
  "singleBranch st next rawToken forced context isValuePos autoQuote override depth =
    (let trimmed = trimQuotes rawToken in
     if \<not> isValuePos \<and> (isSensitiveKey st trimmed \<or> override) then steps [WriteString rawToken] True
     else if \<not> forced \<and> length rawToken \<ge> 2 \<and> (hd rawToken = dquote \<or> hd rawToken = squote) \<and> last rawToken = hd rawToken then
       steps [WriteString [hd rawToken], phraseAt st next (depth + 1) trimmed, WriteString [last rawToken]] False
     else steps [processSingleToken st trimmed rawToken forced context autoQuote] False)"

definition processTokenLogic :: "configState \<Rightarrow> tokenLogic \<Rightarrow> tokenLogic" where
  "processTokenLogic st next rawToken forced context isValuePos autoQuote override depth =
    (if depth > maxTokenRecursionDepth
     then steps [processSingleToken st (trimQuotes rawToken) rawToken forced context True] False
     else firstOf
       [wrappedBranch next rawToken forced context isValuePos override depth,
        markerBranch st next rawToken depth,
        jsonStringBranch st next rawToken forced context depth,
        bytesBranch st next rawToken forced context depth,
        chainBranch st next rawToken forced override depth,
        urlBranch st next rawToken forced context isValuePos override depth,
        telegramBranch st rawToken forced context isValuePos,
        timestampBranch st rawToken forced,
        pythonBranch next rawToken forced context override depth,
        compactBranch st next rawToken override depth,
        forcedColonBranch st rawToken forced context isValuePos,
        processEqualPair st next rawToken forced override depth,
        fullWidthBranch st next rawToken override depth,
        processColonPair st next rawToken override depth]
       (singleBranch st next rawToken forced context isValuePos autoQuote override depth))"

subsection \<open>The whole engine\<close>

primrec engine :: "configState \<Rightarrow> nat \<Rightarrow> tokenLogic" where
  "engine st 0 = (\<lambda>rawToken forced context isValuePos autoQuote override depth. raise OutOfFuel)"
| "engine st (Suc n) = processTokenLogic st (engine st n)"

text \<open>
  How many turns a line can need: the depth is at most 33, and within one depth every further turn
  uses up a blank of the token or an escape that can decode to one.
\<close>

definition isBlank :: "char \<Rightarrow> bool" where
  "isBlank c \<longleftrightarrow> c = CHR '' '' \<or> c = tab"

definition marks :: "string \<Rightarrow> nat" where
  "marks s = length (filter (\<lambda>c. isBlank c \<or> c = bslash) s)"

definition turns :: "string \<Rightarrow> nat" where
  "turns line = 34 * (marks line + 1)"

definition ScanAndRedact :: "configState \<Rightarrow> string \<Rightarrow> string op" where
  "ScanAndRedact st logLine =
    (if length logLine = 0 then ret []
     else capture (lineAt st (engine st (turns logLine)) 0 logLine))"

text \<open>One line of a text: its content, its line ending and the rest.\<close>

definition nextLine :: "string \<Rightarrow> string \<times> string \<times> string" where
  "nextLine text =
    (let (line, ending, rest) = (case IndexByte text newline of
        Some i \<Rightarrow> (take i text, [newline], drop (i + 1) text) | None \<Rightarrow> (text, [], [])) in
     if HasSuffix line [CHR 0x0D] then (butlast line, CHR 0x0D # ending, rest) else (line, ending, rest))"

lemma nextLine_shorter: "text \<noteq> [] \<Longrightarrow> length (snd (snd (nextLine text))) < length text"
  by (auto simp: nextLine_def Let_def split: option.splits)

function textLoop :: "configState \<Rightarrow> string \<Rightarrow> unit op" where
  "textLoop st text =
    (if text = [] then ret ()
     else let (line, ending, rest) = nextLine text in
       thenDo (ScanAndRedact st line) (\<lambda>redacted. block [WriteString redacted, WriteString ending, textLoop st rest]))"
  by pat_completeness auto
termination
  by (relation "measure (\<lambda>(st, text). length text)") (auto, metis nextLine_shorter snd_conv)

declare textLoop.simps [simp del]

definition ScanAndRedactText :: "configState \<Rightarrow> string \<Rightarrow> string op" where
  "ScanAndRedactText st text =
    (if newline \<notin> set text then ScanAndRedact st text else capture (textLoop st text))"

end
