(* ===== verification/EngineLaws.thy ===== *)
theory EngineLaws
  imports Engine
begin

text \<open>
  What holds of every scan. The law \<open>writes\<close> is shown for each part of the engine, assuming it for
  the next turn of the recursion; an induction on the number of turns then closes the cycle. Out of
  it come the termination of a scan and the shape of its output.
\<close>

subsection \<open>Counting the bytes that matter\<close>

lemma decode_lead_high:
  assumes "decode_lead a bs = Some (r, w)" and "128 \<le> a"
  shows "\<forall>x \<in> set (take w (a # bs)). 128 \<le> x"
  using assms by (auto simp: decode_lead_def decode2_def decode3_def decode4_def cont_def split: if_splits list.splits)

lemma DecodeRune_high:
  assumes "s \<noteq> []" and "128 \<le> byte (hd s)"
  shows "\<forall>c \<in> set (take (snd (DecodeRune s)) s). 128 \<le> byte c"
proof (cases s)
  case (Cons x t)
  show ?thesis
  proof (cases "decode_lead (byte x) (map of_char (take 3 t))")
    case None
    then show ?thesis using assms by (simp add: Cons DecodeRune_def)
  next
    case (Some rw)
    then obtain r w where rw: "decode_lead (byte x) (map of_char (take 3 t)) = Some (r, w)" by (cases rw) auto
    have "w \<le> 4" using decode_lead_width [OF rw] by (simp add: min_def split: if_splits)
    then have "take w s = take w (x # take 3 t)" by (auto simp: Cons take_Cons')
    moreover have "\<forall>y \<in> set (map byte (take w (x # take 3 t))). 128 \<le> y"
      using decode_lead_high [OF rw] assms by (simp add: Cons take_map [symmetric] del: set_map list.set_map)
    ultimately show ?thesis using rw by (simp add: Cons DecodeRune_def)
  qed
qed (use assms in simp)

text \<open>Repairing the encoding of a token keeps its ASCII bytes.\<close>

lemma filter_validLoop:
  assumes "\<And>c. p c \<Longrightarrow> byte c < 128"
  shows "filter p (validLoop bad s) = filter p s"
proof (induction bad s rule: validLoop.induct)
  case (1 bad s)
  have high: "filter p t = []" if "\<forall>c \<in> set t. 128 \<le> byte c" for t
    using that assms by (fastforce simp: filter_empty_conv)
  have rep: "filter p replacementChar = []"
    by (rule high) (simp add: replacementChar_def EncodeRune_def RuneError_def)
  show ?case
  proof (cases "s = [] \<or> byte (hd s) < RuneSelf")
    case True
    then show ?thesis using 1(1) by (cases s) (simp_all add: validLoop.simps [of bad "[]"] validLoop.simps [of bad "_ # _"] Let_def)
  next
    case False
    define w where "w = snd (DecodeRune s)"
    have s: "s \<noteq> []" "128 \<le> byte (hd s)" using False by (auto simp: RuneSelf_def)
    have "filter p s = filter p (take w s) @ filter p (drop w s)" by (metis append_take_drop_id filter_append)
    then have rest: "filter p s = filter p (drop w s)" using DecodeRune_high [OF s] high by (simp add: w_def)
    show ?thesis
    proof (cases "w = 1")
      case True
      then show ?thesis using 1(2) False s rest rep
        by (subst validLoop.simps) (auto simp: Let_def w_def drop_Suc)
    next
      case wide: False
      then show ?thesis using 1(3) False s rest DecodeRune_high [OF s] high
        by (subst validLoop.simps) (auto simp: Let_def w_def)
    qed
  qed
qed

lemma filter_valid: "(\<And>c. p c \<Longrightarrow> byte c < 128) \<Longrightarrow> filter p (ToValidUTF8 s) = filter p s"
  unfolding ToValidUTF8_def by (rule filter_validLoop)

lemma valid_newline [simp]: "newline \<in> set (ToValidUTF8 s) \<longleftrightarrow> newline \<in> set s"
proof -
  have "set (filter (\<lambda>c. c = newline) (ToValidUTF8 s)) = set (filter (\<lambda>c. c = newline) s)"
    by (subst filter_valid) auto
  then show ?thesis by auto
qed

lemma marks_valid [simp]: "marks (ToValidUTF8 s) = marks s"
  unfolding marks_def by (subst filter_valid) (auto simp: isBlank_def)

text \<open>The blanks of a token after its first byte.\<close>

definition tailBlanks :: "string \<Rightarrow> nat" where
  "tailBlanks t = length (filter isBlank (tl t))"

lemma filter_sublist_length: "sublist t s \<Longrightarrow> length (filter p t) \<le> length (filter p s)"
  by (auto simp: sublist_def)

lemma marks_sublist: "sublist t s \<Longrightarrow> marks t \<le> marks s"
  unfolding marks_def by (rule filter_sublist_length)

lemma tailBlanks_marks: "tailBlanks t \<le> marks t"
proof -
  have "length (filter isBlank u) \<le> length (filter (\<lambda>c. isBlank c \<or> c = bslash) u)" for u
    by (induction u) auto
  moreover have "length (filter isBlank (tl t)) \<le> length (filter isBlank t)"
    by (cases t) auto
  ultimately show ?thesis unfolding tailBlanks_def marks_def by (meson le_trans)
qed

lemma tailBlanks_valid: "tailBlanks (ToValidUTF8 t) \<le> tailBlanks t"
proof (cases t)
  case (Cons c u)
  have f: "filter isBlank (validLoop bad v) = filter isBlank v" for bad v
    by (rule filter_validLoop) (auto simp: isBlank_def)
  show ?thesis
  proof (cases "byte c < 128")
    case True
    then have "ToValidUTF8 t = c # validLoop False u"
      unfolding ToValidUTF8_def Cons by (subst validLoop.simps) (simp add: RuneSelf_def Let_def)
    then show ?thesis using f by (simp add: tailBlanks_def Cons)
  next
    case False
    then have "filter isBlank t = filter isBlank u" by (auto simp: Cons isBlank_def)
    moreover have "length (filter isBlank (tl x)) \<le> length (filter isBlank x)" for x by (cases x) auto
    ultimately show ?thesis using f [of False t] by (metis Cons ToValidUTF8_def list.sel(3) tailBlanks_def)
  qed
qed (simp add: ToValidUTF8_def validLoop.simps tailBlanks_def)

lemma tailBlanks_less:
  assumes "sublist u (tl url)" and "u \<noteq> []" and "hd u \<in> {CHR '' '', tab}" and "sublist t u"
  shows "tailBlanks t < tailBlanks url"
proof -
  have "length (filter isBlank (tl t)) \<le> length (filter isBlank (tl u))"
    by (rule filter_sublist_length [OF sublist_tl [OF assms(4)]])
  also have "\<dots> < length (filter isBlank u)" using assms(2,3) by (cases u) (auto simp: isBlank_def)
  also have "\<dots> \<le> length (filter isBlank (tl url))" by (rule filter_sublist_length [OF assms(1)])
  finally show ?thesis by (simp add: tailBlanks_def)
qed

text \<open>Decoding a JSON string does not add blanks or backslashes: an escape spends one.\<close>

lemma EncodeRune_high: "128 \<le> r \<Longrightarrow> c \<in> set (EncodeRune r) \<Longrightarrow> 128 \<le> byte c"
proof -
  have char: "128 \<le> byte (char_of (128 + n))" if "n < 128" for n :: nat using that by simp
  have bound: "r mod 64 < 128" "r div 64 mod 64 < 128" "r div 4096 mod 64 < 128" by (simp_all add: less_trans [of _ 64])
  assume "128 \<le> r" "c \<in> set (EncodeRune r)"
  then show ?thesis using char [OF bound(1)] char [OF bound(2)] char [OF bound(3)]
    by (auto simp: EncodeRune_def split: if_splits)
qed

lemma marks_EncodeRune: "marks (EncodeRune r) \<le> 1"
proof (cases "r < 128")
  case True
  then show ?thesis by (simp add: marks_def EncodeRune_def)
next
  case False
  then have "filter (\<lambda>c. isBlank c \<or> c = bslash) (EncodeRune r) = []"
    using EncodeRune_high [of r] by (fastforce simp: filter_empty_conv isBlank_def)
  then show ?thesis by (simp add: marks_def)
qed

lemma marks_append [simp]: "marks (s @ t) = marks s + marks t"
  by (simp add: marks_def)

lemma DecodeRune_not_ascii: "s \<noteq> [] \<Longrightarrow> 128 \<le> byte (hd s) \<Longrightarrow> 128 \<le> fst (DecodeRune s)"
proof (cases s)
  case (Cons x t)
  assume a: "128 \<le> byte (hd s)"
  have "128 \<le> r" if "decode_lead (byte x) bs = Some (r, w)" for bs r w
    using that a Cons by (auto simp: decode_lead_def decode2_def decode3_def decode4_def cont_def split: if_splits list.splits)
  then show ?thesis by (auto simp: Cons DecodeRune_def RuneError_def split: option.split)
qed simp

lemma unquoteStep_marks:
  assumes "s \<noteq> []" and "unquoteStep s = Some (out, w)"
  shows "marks out \<le> marks (take w s)"
proof -
  consider (escape) "hd s = bslash" | (ascii) "out = [hd s]" "w = 1"
    | (high) "128 \<le> byte (hd s)" "out = EncodeRune (fst (DecodeRune s))"
    using assms by (auto simp: unquoteStep_def Let_def RuneSelf_def split: if_splits)
  then show ?thesis
  proof cases
    case escape
    have "marks out \<le> 1"
      using assms(2) escape marks_EncodeRune
      by (auto simp: unquoteStep_def marks_def split: if_splits list.splits option.splits)
    moreover have "1 \<le> marks (take w s)"
      using unquoteStep_width [OF assms] escape assms(1) by (cases s; cases w) (auto simp: marks_def)
    ultimately show ?thesis by simp
  next
    case ascii
    then show ?thesis using assms(1) by (cases s) (auto simp: marks_def)
  next
    case high
    then have "filter (\<lambda>c. isBlank c \<or> c = bslash) out = []"
      using EncodeRune_high [OF DecodeRune_not_ascii [OF assms(1) high(1)]]
      by (fastforce simp: filter_empty_conv isBlank_def)
    then show ?thesis by (simp add: marks_def)
  qed
qed

lemma unquoteBody_marks: "unquoteBody s = Some t \<Longrightarrow> marks t \<le> marks s"
proof (induction s arbitrary: t rule: unquoteBody.induct)
  case (1 s)
  show ?case
  proof (cases "s = [] \<or> hd s = dquote")
    case True
    then show ?thesis using 1(2) by (subst (asm) unquoteBody.simps) (auto simp: marks_def split: if_splits)
  next
    case False
    then obtain out w u where step: "unquoteStep s = Some (out, w)" and u: "unquoteBody (drop w s) = Some u" and t: "t = out @ u"
      using 1(2) by (subst (asm) unquoteBody.simps) (auto split: option.splits)
    have "marks s = marks (take w s) + marks (drop w s)" by (metis append_take_drop_id marks_append)
    then show ?thesis
      using unquoteStep_marks [OF _ step] 1(1) [OF _ _ step refl u] False t by fastforce
  qed
qed

lemma escapedJSONString_marks: "escapedJSONString tok = Some inner \<Longrightarrow> marks inner \<le> marks tok"
proof -
  assume "escapedJSONString tok = Some inner"
  then have "unquoteBody (tl tok) = Some inner" by (auto simp: escapedJSONString_def unmarshalString_def split: if_splits)
  from unquoteBody_marks [OF this] show ?thesis by (cases tok) (auto simp: marks_def)
qed

lemma quoteStep_newline: "s \<noteq> [] \<Longrightarrow> newline \<notin> set (fst (quoteStep s))"
proof (cases "byte (hd s) < RuneSelf")
  case True
  have "byte (hd s) div 16 < 16" using True by (simp add: RuneSelf_def)
  then have "newline \<notin> set (quoteByte (hd s))"
    using hexDigit_no_newline [of "byte (hd s) div 16"] hexDigit_no_newline [of "byte (hd s) mod 16"]
    by (auto simp: quoteByte_def)
  then show ?thesis using True by (simp add: quoteStep_def)
next
  case False
  assume s: "s \<noteq> []"
  have "newline \<notin> set (take (snd (DecodeRune s)) s)" using DecodeRune_high [OF s] False by (auto simp: RuneSelf_def)
  moreover have "hexDigit 8 \<noteq> newline" "hexDigit 9 \<noteq> newline" by (rule hexDigit_no_newline, simp)+
  ultimately show ?thesis using False by (auto simp: quoteStep_def Let_def)
qed

lemma jsonQuote_newline: "newline \<notin> set (jsonQuote s)"
proof -
  have "newline \<notin> set (quoteBody s)"
  proof (induction s rule: quoteBody.induct)
    case (1 s)
    then show ?case using quoteStep_newline [of s] by (subst quoteBody.simps) auto
  qed
  then show ?thesis by (simp add: jsonQuote_def)
qed

subsection \<open>Calm texts\<close>

text \<open>
  A text is calm when it has no newline and no escape that decodes to one. The engine writes no newline
  for a calm line; \<open>b\<close> switches the condition off.
\<close>

definition calm :: "bool \<Rightarrow> string \<Rightarrow> bool" where
  "calm b s \<longleftrightarrow> b \<or> (newline \<notin> set s \<and> \<not> sublist [bslash, CHR ''n''] s \<and> \<not> sublist [bslash, CHR ''u''] s)"

lemma calm_nl: "calm b s \<Longrightarrow> nl b s"
  by (auto simp: calm_def)

lemma calm_True [simp]: "calm True s"
  by (simp add: calm_def)

lemma calm_sublist: "calm b s \<Longrightarrow> sublist t s \<Longrightarrow> calm b t"
  unfolding calm_def using sublist_order.order.trans set_mono_sublist by blast

lemma sublist_pair_skip: "x \<notin> set u \<Longrightarrow> sublist [x, y] (u @ v) \<longleftrightarrow> sublist [x, y] v"
  by (induction u) (auto simp: sublist_Cons_right)

lemma validLoop_pair:
  assumes "byte x < 128" and "byte y < 128"
  shows "(sublist [x, y] (validLoop bad s) \<longrightarrow> sublist [x, y] s)
    \<and> (\<not> bad \<longrightarrow> prefix [y] (validLoop bad s) \<longrightarrow> prefix [y] s)"
proof (induction bad s rule: validLoop.induct)
  case (1 bad s)
  have rep: "replacementChar \<noteq> []" "\<forall>c \<in> set replacementChar. 128 \<le> byte c"
    by (simp_all add: replacementChar_def EncodeRune_def RuneError_def)
  show ?case
  proof (cases "s = [] \<or> byte (hd s) < RuneSelf")
    case True
    then have "s = [] \<and> validLoop bad s = [] \<or> s \<noteq> [] \<and> validLoop bad s = hd s # validLoop False (tl s)"
      by (subst (1 2) validLoop.simps) auto
    then show ?thesis using 1(1) True by (cases s) (auto simp: sublist_Cons_right)
  next
    case False
    define w where "w = snd (DecodeRune s)"
    have s: "s \<noteq> []" "128 \<le> byte (hd s)" using False by (auto simp: RuneSelf_def)
    have high: "\<forall>c \<in> set (take w s). 128 \<le> byte c" using DecodeRune_high [OF s] by (simp add: w_def)
    have "1 \<le> w" using DecodeRune_width [of s] s(1) by (simp add: w_def)
    then obtain u where u: "take w s = hd s # u" using s(1) by (cases s; cases w) auto
    define f where "f = (if w = 1 then (if bad then [] else replacementChar) else take w s)"
    have step: "validLoop bad s = f @ validLoop (w = 1) (drop w s)"
      using False by (subst validLoop.simps) (auto simp: Let_def w_def f_def drop_Suc)
    have fhigh: "\<forall>c \<in> set f. 128 \<le> byte c" using rep(2) high by (simp add: f_def)
    then have f: "x \<notin> set f" using assms(1) by auto
    have "\<not> bad \<Longrightarrow> f \<noteq> []" using rep(1) u by (auto simp: f_def)
    then have hd: "\<not> bad \<Longrightarrow> f \<noteq> [] \<and> hd f \<noteq> y" using fhigh assms(2) hd_in_set [of f] by fastforce
    have IH: "sublist [x, y] (validLoop (w = 1) (drop w s)) \<longrightarrow> sublist [x, y] (drop w s)"
      using 1(2,3) False s(1) by (cases "w = 1") (auto simp: w_def drop_Suc)
    have "sublist [x, y] (drop w s) \<Longrightarrow> sublist [x, y] s" using sublist_order.order.trans sublist_drop by blast
    moreover have "\<not> bad \<Longrightarrow> \<not> prefix [y] (validLoop bad s)" using hd step by (cases f) auto
    ultimately show ?thesis using IH sublist_pair_skip [OF f] step by auto
  qed
qed

lemma calm_valid [simp]: "calm b s \<Longrightarrow> calm b (ToValidUTF8 s)"
  using validLoop_pair [of bslash _ False s] unfolding calm_def ToValidUTF8_def [symmetric] by auto

text \<open>The JSON string of a calm token decodes to a text without newlines.\<close>

lemma unquoteBody_calm:
  "calm False s \<Longrightarrow> unquoteBody s = Some t \<Longrightarrow> newline \<notin> set t"
proof (induction s arbitrary: t rule: unquoteBody.induct)
  case (1 s)
  show ?case
  proof (cases "s = [] \<or> hd s = dquote")
    case True
    then show ?thesis using 1(3) by (subst (asm) unquoteBody.simps) (auto split: if_splits)
  next
    case False
    then obtain out w u where step: "unquoteStep s = Some (out, w)" and u: "unquoteBody (drop w s) = Some u" and t: "t = out @ u"
      using 1(3) by (subst (asm) unquoteBody.simps) (auto split: option.splits)
    have u': "newline \<notin> set u" using 1(1) [OF _ _ step refl calm_sublist [OF 1(2)] u] False by simp
    have "newline \<notin> set out"
    proof (cases "128 \<le> byte (hd s)")
      case True
      then have "out = EncodeRune (fst (DecodeRune s))"
        using step by (auto simp: unquoteStep_def Let_def RuneSelf_def split: if_splits)
      then show ?thesis using EncodeRune_high [OF DecodeRune_not_ascii [of s]] True False by fastforce
    next
      case low: False
      show ?thesis using step 1(2) low \<open>\<not> (s = [] \<or> hd s = dquote)\<close>
        by (cases s) (auto simp: unquoteStep_def unescapeByte_def RuneSelf_def calm_def sublist_Cons_right split: if_splits list.splits)
    qed
    then show ?thesis using t u' by simp
  qed
qed

lemma escapedJSONString_calm:
  assumes "calm b tok" and "escapedJSONString tok = Some inner"
  shows "nl b inner"
proof -
  have "unquoteBody (tl tok) = Some inner"
    using assms(2) by (auto simp: escapedJSONString_def unmarshalString_def split: if_splits)
  then show ?thesis using unquoteBody_calm [of "tl tok" inner] calm_sublist [OF assms(1), of "tl tok"]
      suffix_imp_sublist [OF suffix_tl, of tok]
    by (cases b) auto
qed

subsection \<open>The parts of the engine\<close>

text \<open>The next turn of the recursion keeps the law on the token \<open>t\<close> at depth \<open>d\<close>.\<close>

definition turn_ok :: "go_error set \<Rightarrow> bool \<Rightarrow> tokenLogic \<Rightarrow> nat \<Rightarrow> string \<Rightarrow> bool" where
  "turn_ok E b next d t \<longleftrightarrow> nl b t \<and> (\<forall>f c v a o'. writes E b (next t f c v a o' d))"

lemma turn_okD: "turn_ok E b next d t \<Longrightarrow> writes E b (next t f c v a o' d)"
  by (simp add: turn_ok_def)

lemma writes_lift [writes]: "Panic \<in> E \<Longrightarrow> OutOfFuel \<in> E \<or> x \<noteq> Inl OutOfFuel \<Longrightarrow> writes E b (lift_go x)"
proof (cases x)
  case (Inl e)
  assume "Panic \<in> E" "OutOfFuel \<in> E \<or> x \<noteq> Inl OutOfFuel"
  then show ?thesis by (cases e) (auto simp: Inl writes_def lift_go_def)
qed (auto simp: writes_def lift_go_def)

lemma isGenericValueKey_fuel: "isGenericValueKey ut k \<noteq> Inl OutOfFuel"
  by (auto simp: isGenericValueKey_def Let_def split: if_splits option.splits)

lemma writes_override: "Panic \<in> E \<Longrightarrow> writes E b (overrideOf st s trimmed)"
  unfolding overrideOf_def by (auto intro!: writes simp: isGenericValueKey_fuel split: option.split)

lemma writes_dispatch: "turn_ok E b next d t \<Longrightarrow> writes E b (dispatchToken st next d t s override)"
  unfolding dispatchToken_def Let_def by (auto intro!: writes simp: turn_okD) (auto simp: turn_ok_def)

lemma writes_processAndAppend:
  "Panic \<in> E \<Longrightarrow> turn_ok E b next d t \<Longrightarrow> writes E b (processAndAppend st next d t s)"
  unfolding processAndAppend_def Let_def
  by (auto intro!: writes writes_override writes_dispatch split: option.split) (auto simp: turn_ok_def)

lemma processAndAppend_writer: "Panic \<in> E \<Longrightarrow> token_writer (processAndAppend st next d) E b (turn_ok E b next d)"
  by (rule token_writer.intro) (rule writes_processAndAppend)

text \<open>
  Below a token all pieces of text have no more marks than it has, so one bound \<open>N\<close> serves them all.
  \<open>deeper\<close> is what is known of the next depth.
\<close>

definition deeper :: "go_error set \<Rightarrow> configState \<Rightarrow> tokenLogic \<Rightarrow> nat \<Rightarrow> nat \<Rightarrow> bool" where
  "deeper E st next N d \<longleftrightarrow> (\<forall>b t. marks t \<le> N \<and> (names_ok st \<or> b) \<and> calm b t \<longrightarrow> turn_ok E b next d t)"

lemma deeper_fit:
  assumes "deeper E st next N d" and "names_ok st \<or> b" and "calm b s" and "marks s \<le> N"
  shows "fit b (turn_ok E b next d) s"
proof -
  have ok: "turn_ok E b next d t" if "marks t \<le> N" "calm b t" for t
    using assms(1,2) that unfolding deeper_def by blast
  have "turn_ok E b next d t \<and> turn_ok E b next d (ToValidUTF8 t)" if t: "sublist t s" for t
    using marks_sublist [OF t] assms(4) calm_sublist [OF assms(3) t] by (intro conjI ok) simp_all
  then show ?thesis using calm_nl [OF assms(3)] by (simp add: fit_def)
qed

lemma deeper_turn:
  "deeper E st next N d \<Longrightarrow> names_ok st \<or> b \<Longrightarrow> calm b t \<Longrightarrow> marks t \<le> N \<Longrightarrow> writes E b (next t f c v a o' d)"
  by (rule turn_okD) (simp add: deeper_def)

lemma deeper_segment:
  assumes "Panic \<in> E" and "deeper E st next N d" and "names_ok st \<or> b" and "calm b s" and "marks s \<le> N"
  shows "writes E b (segmentAt st next d s)"
  using token_writer.scanSegment_writes [OF processAndAppend_writer [OF assms(1)] deeper_fit [OF assms(2-5)]] .

lemma deeper_line:
  assumes "Panic \<in> E" and "deeper E st next N d" and "names_ok st \<or> b" and "calm b s" and "marks s \<le> N"
  shows "writes E b (lineAt st next d s)"
  using token_writer.scanLine_writes [OF processAndAppend_writer [OF assms(1)] deeper_fit [OF assms(2-5)] assms(3)] .

lemma deeper_phrase:
  assumes "Panic \<in> E" and "deeper E st next N d" and "names_ok st \<or> b" and "calm b s" and "marks s \<le> N"
  shows "writes E b (phraseAt st next d s)"
proof -
  have "writes E b (segmentAt st next d t)" if "sublist t s" for t
    using deeper_segment [OF assms(1-3)] calm_sublist [OF assms(4) that] marks_sublist [OF that] assms(5) by simp
  then show ?thesis unfolding phraseAt_def using calm_nl [OF assms(4)] by (auto intro!: writes)
qed

end
