(* ===== verification/EngineRuns.thy ===== *)
theory EngineRuns
  imports EngineLaws
begin

text \<open>
  The branches of a token keep the law of the engine, and so does the closed recursion.
\<close>

subsection \<open>Pieces of a token\<close>

definition piece :: "nat \<Rightarrow> bool \<Rightarrow> string \<Rightarrow> bool" where
  "piece N b s \<longleftrightarrow> calm b s \<and> marks s \<le> N"

lemma piece_sublist: "piece N b s \<Longrightarrow> sublist t s \<Longrightarrow> piece N b t"
  unfolding piece_def using calm_sublist marks_sublist le_trans by blast

lemma sublist_butlast_tl: "sublist (butlast (tl s)) s"
proof (cases s)
  case (Cons x t)
  have "sublist (butlast t) t" by (metis prefix_imp_sublist prefixeq_butlast)
  moreover have "sublist t s" using Cons by (simp add: sublist_Cons_right)
  ultimately show ?thesis using Cons sublist_order.order.trans by auto
qed simp

lemma sublist_trimQuotes: "sublist (trimQuotes s) s"
  using sublist_butlast_tl [of s] by (simp add: trimQuotes_def)

lemma CutByte_sublist: "CutByte s c = Some (k, v) \<Longrightarrow> sublist k s \<and> sublist v s"
  by (auto simp: CutByte_def split: option.splits)

lemma piece_parts:
  assumes "piece N b s"
  shows "piece N b (take n s)" and "piece N b (drop n s)" and "piece N b (slice s i j)" and "piece N b (trimQuotes s)"
  using piece_sublist [OF assms] sublist_trimQuotes slice_sublist by simp_all

lemma piece_nl: "piece N b s \<Longrightarrow> nl b s"
  unfolding piece_def using calm_nl by blast

lemma piece_char [simp]: "c \<noteq> newline \<Longrightarrow> \<not> isBlank c \<Longrightarrow> c \<noteq> bslash \<Longrightarrow> piece N b [c]"
  by (simp add: piece_def marks_def calm_def sublist_Cons_right)

lemma piece_plain [simp]:
  "piece N b ''=''" "piece N b '':''" "piece N b [dquote]" "piece N b [squote]" "piece N b fullWidthColon"
  by (simp_all add: piece_def marks_def isBlank_def calm_def sublist_Cons_right fullWidthColon_def)

lemma piece_Cut:
  assumes "CutByte s c = Some (k, v)" and "piece N b s"
  shows "piece N b k" and "piece N b v"
  using CutByte_sublist [OF assms(1)] piece_sublist [OF assms(2)] by auto

text \<open>
  The setting of one turn at depth \<open>d\<close>: a panic is allowed, the next depth keeps the law, and names
  with newlines are excluded where newlines are.
\<close>

definition turn_env :: "go_error set \<Rightarrow> configState \<Rightarrow> tokenLogic \<Rightarrow> nat \<Rightarrow> nat \<Rightarrow> bool \<Rightarrow> bool" where
  "turn_env E st next N d b \<longleftrightarrow> Panic \<in> E \<and> deeper E st next N (d + 1) \<and> (names_ok st \<or> b)"

lemma env:
  assumes "turn_env E st nxt N d b" and "piece N b t"
  shows "writes E b (nxt t f c v a o' (Suc d))" and "writes E b (segmentAt st nxt (Suc d) t)"
    and "writes E b (lineAt st nxt (Suc d) t)" and "writes E b (phraseAt st nxt (Suc d) t)"
    and "writes E b (processSingleToken st content t f c a)" and "writes E b (writeKeyHalf st t)"
    and "writes E b (WriteString t)" and "writes E b (processBinaryBlob st t c)" and "writes E b (writeURLPath st t)"
  using assms deeper_turn [of E st nxt N "Suc d" b t] deeper_segment [of E st nxt N "Suc d" b t]
    deeper_line [of E st nxt N "Suc d" b t] deeper_phrase [of E st nxt N "Suc d" b t]
    piece_nl [OF assms(2)]
  unfolding turn_env_def piece_def
  by (simp_all add: writes_single writes_keyHalf writes_WriteString writes_binary writes_URLPath)

subsection \<open>Pairs\<close>

lemma writes_quotedPairValue:
  assumes "turn_env E st next N d b" and "piece N b val"
  shows "writes E b (quotedPairValue st next val keySensitive override d)"
  unfolding quotedPairValue_def using assms(2) by (auto intro!: writes_void env [OF assms(1)])

lemma writes_quotedEqualPair:
  assumes "turn_env E st next N d b" and "piece N b raw" and "hd raw = dquote \<or> hd raw = squote"
  shows "pred_option (writes E b) (quotedEqualPair st next raw forced override d)"
proof -
  have t: "piece N b (trimQuotes raw)" using assms(2) by (rule piece_parts)
  have kv: "piece N b k \<and> piece N b v" if "CutByte (trimQuotes raw) CHR ''='' = Some (k, v)" for k v
    using piece_Cut [OF that t] by blast
  have q: "piece N b [hd raw]" using assms(3) by auto
  show ?thesis
    unfolding quotedEqualPair_def Let_def using t kv q
    by (auto intro!: writes_steps env [OF assms(1)] writes_quotedPairValue [OF assms(1)] split: option.split)
qed

lemma writes_plainEqualPair:
  assumes "turn_env E st next N d b" and "piece N b key" and "piece N b val"
  shows "writes E b (plainEqualPair st next key val override d)"
  unfolding plainEqualPair_def Let_def using assms(2,3)
  by (auto intro!: writes_steps writes_void env [OF assms(1)])

lemma writes_equalPair:
  assumes "turn_env E st next N d b" and "piece N b raw"
  shows "pred_option (writes E b) (processEqualPair st next raw forced override d)"
  unfolding processEqualPair_def
  using writes_quotedEqualPair [OF assms] writes_plainEqualPair [OF assms(1)] piece_Cut [OF _ assms(2)]
  by (auto split: option.split)

lemma writes_lonelyKey:
  assumes "turn_env E st next N d b" and "piece N b raw" and "piece N b keyRaw"
  shows "writes E b (lonelyKey st raw keyRaw keySensitive)"
  unfolding lonelyKey_def Let_def using assms(2,3) piece_parts [OF assms(3)]
  by (auto intro!: writes_steps env [OF assms(1)])

lemma writes_colonPair:
  assumes "turn_env E st next N d b" and "piece N b raw"
  shows "pred_option (writes E b) (processColonPair st next raw override d)"
  unfolding processColonPair_def Let_def
  using assms(2) piece_parts [OF assms(2)]
  by (auto intro!: writes_steps writes_thenDo env [OF assms(1)] writes_lonelyKey [OF assms(1)] split: option.split)

subsection \<open>The branches of a token\<close>

definition shorter :: "go_error set \<Rightarrow> bool \<Rightarrow> tokenLogic \<Rightarrow> nat \<Rightarrow> nat \<Rightarrow> string \<Rightarrow> bool" where
  "shorter E b next N d raw \<longleftrightarrow> (\<forall>t. piece N b t \<and> tailBlanks t < tailBlanks raw \<longrightarrow> turn_ok E b next d t)"

lemma writes_maskHere:
  assumes "turn_env E st next N d b" and "piece N b raw" and "shorter E b next N d raw"
  shows "writes E b (maskURLParameters st (segmentAt st next d) raw)"
proof (rule writes_mask)
  show P: "Panic \<in> E" using assms(1) by (simp add: turn_env_def)
  show "nl b raw" using assms(2) by (rule piece_nl)
  fix t assume t: "sublist t (tl raw)" "t \<noteq> []" "hd t \<in> {CHR '' '', tab}"
  have raw: "sublist t raw" using t(1) by (metis sublist_order.order.trans suffix_imp_sublist suffix_tl)
  have "turn_ok E b next d u \<and> turn_ok E b next d (ToValidUTF8 u)" if u: "sublist u t" for u
  proof -
    have less: "tailBlanks u < tailBlanks raw" by (rule tailBlanks_less [OF t u])
    have p: "piece N b u" using assms(2) raw u piece_sublist sublist_order.order.trans by blast
    have "piece N b (ToValidUTF8 u)" using p by (simp add: piece_def)
    then show ?thesis using assms(3) less p tailBlanks_valid [of u] le_less_trans unfolding shorter_def by blast
  qed
  then have "fit b (turn_ok E b next d) t"
    using piece_nl [OF piece_sublist [OF assms(2) raw]] by (simp add: fit_def)
  then show "writes E b (segmentAt st next d t)"
    by (rule token_writer.scanSegment_writes [OF processAndAppend_writer [OF P]])
qed

lemma writes_wrapped:
  assumes "turn_env E st next N d b" and "piece N b raw"
  shows "pred_option (writes E b) (wrappedBranch next raw forced ctx v override d)"
  unfolding wrappedBranch_def using piece_parts [OF assms(2)]
  by (auto intro!: writes_steps writes_thenDo env [OF assms(1)] simp: option.pred_map pred_option_def)

lemma writes_marker:
  assumes "turn_env E st next N d b" and "piece N b raw" and "shorter E b next N d raw"
  shows "pred_option (writes E b) (markerBranch st next raw d)"
  unfolding markerBranch_def using assms(2) writes_maskHere [OF assms]
  by (auto intro!: writes_steps env [OF assms(1)])

lemma writes_jsonString:
  assumes "turn_env E st next N d b" and "piece N b raw"
  shows "pred_option (writes E b) (jsonStringBranch st next raw forced ctx d)"
proof -
  have reply: "writes E b (WriteString (if s = inner then raw else jsonQuote s))" for s inner
    using piece_nl [OF assms(2)] jsonQuote_newline by (auto intro!: writes_WriteString)
  have line: "writes E b (capture (lineAt st next (Suc d) inner))" if "marks inner \<le> N" for inner
    using assms(1) that by (intro writes_capture [where b' = True] deeper_line) (auto simp: turn_env_def)
  have single: "writes E b (processSingleToken st inner inner True ctx False)" if "nl b inner" for inner
    using assms(1) that by (intro writes_single) (auto simp: turn_env_def)
  have inner: "marks inner \<le> N \<and> nl b inner" if "escapedJSONString raw = Some inner" for inner
    using escapedJSONString_marks [OF that] escapedJSONString_calm [OF _ that] assms(2)
    unfolding piece_def by (metis le_trans)
  have hidden: "writes E b (steps [WriteString [dquote], processSingleToken st z z True ctx False, WriteString [dquote]] False)"
    if "nl b z" for z
    using single [OF that] env(7) [OF assms(1), of "[dquote]"] by (intro writes_steps) simp
  have scanned: "writes E b (thenDo (capture (lineAt st next (Suc d) z))
      (\<lambda>s. steps [WriteString (if s = z then raw else jsonQuote s)] False))" if "marks z \<le> N" for z
    using reply by (intro writes_thenDo line [OF that] writes_steps) simp
  show ?thesis
    unfolding jsonStringBranch_def option.pred_map o_def
    using inner hidden scanned by (cases "escapedJSONString raw") simp_all
qed

lemma writes_bytes:
  assumes "turn_env E st next N d b" and "piece N b raw"
  shows "pred_option (writes E b) (bytesBranch st next raw forced ctx d)"
proof (cases "isBytesLiteral raw")
  case True
  then have "0 < length raw" "1 < length raw" by (auto simp: isBytesLiteral_def)
  then have "raw ! 0 \<in> set raw" "raw ! 1 \<in> set raw" by (simp_all only: nth_mem)
  then have "piece N b [raw ! 0]" "piece N b [raw ! 1]"
    using piece_sublist [OF assms(2)] by (auto simp: sublist_def in_set_conv_decomp)
  then show ?thesis
    unfolding bytesBranch_def Let_def using piece_parts [OF assms(2)]
    by (auto intro!: writes_steps env [OF assms(1)])
qed (simp add: bytesBranch_def)

lemma piece_hd: "piece N b raw \<Longrightarrow> raw \<noteq> [] \<Longrightarrow> piece N b [hd raw]"
  using piece_sublist by (cases raw) (auto simp: sublist_Cons_right)

lemma writes_chain:
  assumes "turn_env E st next N d b" and "piece N b raw"
  shows "pred_option (writes E b) (chainBranch st next raw forced override d)"
proof (cases "startsQuoted raw")
  case True
  then have "piece N b [hd raw]" by (auto simp: startsQuoted_def)
  then show ?thesis
    unfolding chainBranch_def Let_def using piece_parts [OF assms(2)]
    by (auto intro!: writes_steps writes_void env [OF assms(1)] split: option.split)
qed (simp add: chainBranch_def)

lemma writes_phraseValue:
  assumes "turn_env E st next N d b" and "piece N b raw"
  shows "pred_option (writes E b) (phraseValue st next raw override d)"
  unfolding phraseValue_def using piece_parts [OF assms(2)]
  by (auto intro!: writes_steps writes_void env [OF assms(1)] split: option.split)

lemma writes_phraseAssignment:
  assumes "turn_env E st next N d b" and "piece N b raw"
  shows "pred_option (writes E b) (phraseAssignment st next raw override d)"
proof -
  have "nl b (k @ ''='') \<and> piece N b v" if "CutByte raw CHR ''='' = Some (k, v)" for k v
    using piece_Cut [OF that assms(2)] piece_nl by auto
  then show ?thesis
    unfolding phraseAssignment_def
    by (auto simp del: set_append intro!: writes_steps writes_WriteString writes_void env(1) [OF assms(1)] split: option.split)
qed

lemma firstOf_pred: "list_all (pred_option P) as \<Longrightarrow> P a \<Longrightarrow> P (firstOf as a)"
  by (induction as a rule: firstOf.induct) auto

lemma writes_url:
  assumes "turn_env E st next N d b" and "piece N b raw" and "shorter E b next N d raw"
  shows "pred_option (writes E b) (urlBranch st next raw forced ctx v override d)"
proof -
  have q: "isQuotedPhrase raw \<Longrightarrow> piece N b [hd raw]"
    by (rule piece_hd [OF assms(2)]) (auto simp: isQuotedPhrase_def isBalancedQuoted_def)
  have "writes E b (firstOf [phraseValue st next raw override d, phraseAssignment st next raw override d]
      (steps [maskURLParameters st (segmentAt st next d) raw] False))"
    using writes_phraseValue [OF assms(1,2)] writes_phraseAssignment [OF assms(1,2)] writes_maskHere [OF assms]
    by (intro firstOf_pred [where P = "writes E b"]) (simp_all add: writes_steps)
  then show ?thesis
    unfolding urlBranch_def using assms(2) piece_parts [OF assms(2)] q
    by (auto intro!: writes_steps env [OF assms(1)])
qed

lemma writes_telegram:
  assumes "turn_env E st next N d b" and "piece N b raw"
  shows "pred_option (writes E b) (telegramBranch st raw forced ctx v)"
  unfolding telegramBranch_def using assms(2) by (auto intro!: writes_steps env [OF assms(1)])

lemma writes_timestamp:
  assumes "turn_env E st next N d b" and "piece N b raw"
  shows "pred_option (writes E b) (timestampBranch st raw forced)"
  unfolding timestampBranch_def using assms(2) by (auto intro!: writes_steps env [OF assms(1)])

lemma writes_python:
  assumes "turn_env E st next N d b" and "piece N b raw"
  shows "pred_option (writes E b) (pythonBranch next raw forced ctx override d)"
  unfolding pythonBranch_def Let_def using assms(2) piece_parts [OF assms(2)]
  by (auto intro!: writes_thenDo env [OF assms(1)])

lemma writes_compact:
  assumes "turn_env E st next N d b" and "piece N b raw"
  shows "pred_option (writes E b) (compactBranch st next raw override d)"
  unfolding compactBranch_def using writes_colonPair [OF assms] by simp

lemma writes_forcedColon:
  assumes "turn_env E st next N d b" and "piece N b raw"
  shows "pred_option (writes E b) (forcedColonBranch st raw forced ctx v)"
  unfolding forcedColonBranch_def using assms(2) by (auto intro!: writes_steps env [OF assms(1)])

lemma writes_fullWidth:
  assumes "turn_env E st next N d b" and "piece N b raw"
  shows "pred_option (writes E b) (fullWidthBranch st next raw override d)"
  unfolding fullWidthBranch_def Let_def using piece_parts [OF assms(2)]
  by (auto intro!: writes_steps writes_thenDo env [OF assms(1)] split: option.split)

lemma writes_singleBranch:
  assumes "turn_env E st next N d b" and "piece N b raw"
  shows "writes E b (singleBranch st next raw forced ctx v autoQuote override d)"
proof -
  have "length raw \<ge> 2 \<Longrightarrow> piece N b [hd raw]" by (rule piece_hd [OF assms(2)]) auto
  then show ?thesis
    unfolding singleBranch_def Let_def using assms(2) piece_parts [OF assms(2)]
    by (auto intro!: writes_steps env [OF assms(1)])
qed

lemma tokenLogic_writes:
  assumes "Panic \<in> E" and "names_ok st \<or> b" and "piece N b raw"
    and "d \<le> 32 \<Longrightarrow> deeper E st next N (d + 1)" and "d \<le> 32 \<Longrightarrow> shorter E b next N d raw"
  shows "writes E b (processTokenLogic st next raw forced ctx v autoQuote override d)"
proof (cases "d \<le> 32")
  case False
  then show ?thesis
    unfolding processTokenLogic_def using assms(2) piece_nl [OF assms(3)]
    by (simp add: maxTokenRecursionDepth_def writes_steps writes_single)
next
  case True
  have env: "turn_env E st next N d b" using assms(1,2,4) True by (simp add: turn_env_def)
  note rules = writes_wrapped [OF env assms(3)] writes_marker [OF env assms(3) assms(5) [OF True]]
    writes_jsonString [OF env assms(3)] writes_bytes [OF env assms(3)] writes_chain [OF env assms(3)]
    writes_url [OF env assms(3) assms(5) [OF True]] writes_telegram [OF env assms(3)] writes_timestamp [OF env assms(3)]
    writes_python [OF env assms(3)] writes_compact [OF env assms(3)] writes_forcedColon [OF env assms(3)]
    writes_equalPair [OF env assms(3)] writes_fullWidth [OF env assms(3)] writes_colonPair [OF env assms(3)]
  show ?thesis
    unfolding processTokenLogic_def
    using True by (auto simp: maxTokenRecursionDepth_def rules
      intro!: firstOf_pred [where P = "writes E b"] writes_singleBranch [OF env assms(3)])
qed

subsection \<open>The closed recursion\<close>

text \<open>
  The turns a token at depth \<open>d\<close> can need: each further depth can spend a turn on every mark of the
  line, and this depth one on every blank of the token after its first byte.
\<close>

definition need :: "nat \<Rightarrow> nat \<Rightarrow> string \<Rightarrow> nat" where
  "need d N t = (33 - d) * (N + 1) + tailBlanks t + 1"

lemma need_deeper: "need d N t \<le> Suc n \<Longrightarrow> d \<le> 32 \<Longrightarrow> marks u \<le> N \<Longrightarrow> need (d + 1) N u \<le> n"
proof -
  assume a: "need d N t \<le> Suc n" "d \<le> 32" "marks u \<le> N"
  have "33 - d = Suc (33 - (d + 1))" using a(2) by simp
  then have "(33 - d) * (N + 1) = (33 - (d + 1)) * (N + 1) + (N + 1)" by simp
  then show ?thesis using a(1) le_trans [OF tailBlanks_marks a(3)] by (simp add: need_def)
qed

lemma engine_writes:
  assumes "names_ok st \<or> b" and "piece N b t" and "need d N t \<le> n"
  shows "writes {Panic} b (engine st n t forced ctx v autoQuote override d)"
  using assms
proof (induction n arbitrary: b t d forced ctx v autoQuote override)
  case 0
  then show ?case by (simp add: need_def)
next
  case (Suc n)
  have down: "deeper {Panic} st (engine st n) N (d + 1)" if "d \<le> 32"
    unfolding deeper_def turn_ok_def
    using Suc.IH need_deeper [OF Suc.prems(3) that] calm_nl unfolding piece_def by blast
  have same: "shorter {Panic} b (engine st n) N d t"
    unfolding shorter_def turn_ok_def
    using Suc.IH [OF Suc.prems(1)] Suc.prems(3) piece_nl by (fastforce simp: need_def)
  show ?case using tokenLogic_writes [OF _ Suc.prems(1,2)] down same by simp
qed

text \<open>The tokenizer may cut a text with enough turns left anywhere.\<close>

definition enough :: "configState \<Rightarrow> nat \<Rightarrow> nat \<Rightarrow> bool \<Rightarrow> nat \<Rightarrow> string \<Rightarrow> bool" where
  "enough st n d b N t \<longleftrightarrow> (names_ok st \<or> b) \<and> piece N b t \<and> (33 - d) * (N + 1) + N + 1 \<le> n"

interpretation engine_tokens: token_writer "processAndAppend st (engine st n) d" "{Panic}" b "enough st n d b N"
  for st n d b N
proof
  fix t s assume t: "enough st n d b N t"
  have "tailBlanks t \<le> N" using t tailBlanks_marks [of t] by (simp add: enough_def piece_def)
  then have "turn_ok {Panic} b (engine st n) d t"
    using t engine_writes [of st b N t d n] piece_nl [of N b t] by (simp add: enough_def turn_ok_def need_def)
  then show "writes {Panic} b (processAndAppend st (engine st n) d t s)" by (simp add: writes_processAndAppend)
qed

lemma enough_fit:
  assumes "enough st n d b N s"
  shows "fit b (enough st n d b N) s"
proof -
  have s: "piece N b s" using assms by (simp add: enough_def)
  have "piece N b t \<and> piece N b (ToValidUTF8 t)" if "sublist t s" for t
    using piece_sublist [OF s that] by (simp add: piece_def)
  then show ?thesis using assms piece_nl [OF s] by (simp add: fit_def enough_def)
qed

lemma lineAt_writes:
  assumes "names_ok st \<or> b" and "calm b line"
  shows "writes {Panic} b (lineAt st (engine st (turns line)) 0 line)"
proof -
  have "enough st (turns line) 0 b (marks line) line" using assms by (simp add: enough_def piece_def turns_def)
  from engine_tokens.scanLine_writes [OF enough_fit [OF this] assms(1)] show ?thesis .
qed

end
