(* ===== verification/Streams.thy ===== *)
theory Streams
  imports Quoting "HOL-Library.Word"
begin

text \<open>
  How the audit agent sees what a pod writes: the kernel program \<^verbatim>\<open>probe.c\<close>, the record layout of
  \<^verbatim>\<open>event.go\<close> and the \<^verbatim>\<open>Assembler\<close> of \<^verbatim>\<open>stream.go\<close>, which joins writes into lines. The lines an
  operation hands to \<open>OnLine\<close> are part of its result. A time is a number of nanoseconds.
\<close>

unbundle bit_operations_syntax

named_theorems lines "the lines of a stream"

subsection \<open>The kernel side\<close>

definition MAX_DATA :: nat where "MAX_DATA = 8192"
definition MAX_IOV :: nat where "MAX_IOV = 8"
definition FLAG_TRUNCATED :: "32 word" where "FLAG_TRUNCATED = 1"
definition FLAG_IOV_CUT :: "32 word" where "FLAG_IOV_CUT = 2"

text \<open>The header of a record; fields in the byte order of the two supported machines.\<close>

record event_hdr =
  tgid :: "32 word"
  fd :: "32 word"
  len :: "32 word"
  flags :: "32 word"

definition le32 :: "32 word \<Rightarrow> string" where
  "le32 x = map (\<lambda>i. char_of (unat x div 256 ^ i mod 256 :: nat)) [0, 1, 2, 3]"

definition hdr_bytes :: "event_hdr \<Rightarrow> string" where
  "hdr_bytes h = le32 (tgid h) @ le32 (fd h) @ le32 (len h) @ le32 (flags h)"

text \<open>
  \<open>emit\<close> gives the record it puts into the ring buffer. The memory of the process is a parameter:
  \<open>read_user addr n\<close> gives \<open>n\<close> bytes or fails. A record the ring buffer has no room for is counted by
  the caller.
\<close>

definition emit ::
  "(64 word \<Rightarrow> nat \<Rightarrow> string option) \<Rightarrow> 32 word \<Rightarrow> 32 word \<Rightarrow> 64 word \<Rightarrow> 64 word \<Rightarrow> 32 word \<Rightarrow> string option" where
  "emit read_user tg f addr count fl =
    (let n = (if unat count > MAX_DATA then MAX_DATA else unat count);
         fl' = (if unat count > MAX_DATA then fl OR FLAG_TRUNCATED else fl);
         hdr = \<lparr>tgid = tg, fd = f, len = of_nat n, flags = fl'\<rparr> in
     if n = 0 then Some (hdr_bytes hdr)
     else map_option (\<lambda>bytes. hdr_bytes hdr @ bytes) (read_user addr n))"

datatype syscall = SYS_write | SYS_writev | SYS_other

record probe_config =
  cfg_self_tgid :: "32 word"
  cfg_target_tgid :: "32 word"

text \<open>
  The tracepoint. \<open>ns\<close> is the process number in the namespace of the agent, if it has one;
  \<open>read_iov\<close> reads the address and the length of an entry of a vector.
\<close>

fun emitVector ::
  "(64 word \<Rightarrow> nat \<Rightarrow> string option) \<Rightarrow> (nat \<Rightarrow> (64 word \<times> 64 word) option) \<Rightarrow> 32 word \<Rightarrow> 32 word \<Rightarrow> nat \<Rightarrow> nat list \<Rightarrow> string list" where
  "emitVector read_user read_iov tg f iovcnt [] = []"
| "emitVector read_user read_iov tg f iovcnt (i # is) =
    (if iovcnt \<le> i then []
     else case read_iov i of
       None \<Rightarrow> []
     | Some (base, l) \<Rightarrow>
        let fl = (if i = MAX_IOV - 1 \<and> MAX_IOV < iovcnt then FLAG_IOV_CUT else 0);
            rest = emitVector read_user read_iov tg f iovcnt is in
        case emit read_user tg f base l fl of Some rec \<Rightarrow> rec # rest | None \<Rightarrow> rest)"

definition sys_enter ::
  "probe_config \<Rightarrow> (64 word \<Rightarrow> nat \<Rightarrow> string option) \<Rightarrow> (64 word \<Rightarrow> nat \<Rightarrow> (64 word \<times> 64 word) option)
    \<Rightarrow> 32 word option \<Rightarrow> syscall \<Rightarrow> 64 word \<Rightarrow> 64 word \<Rightarrow> 64 word \<Rightarrow> string list" where
  "sys_enter cfg read_user read_iov ns call f addr count =
    (if call = SYS_other then []
     else if f \<noteq> 1 \<and> f \<noteq> 2 then []
     else case ns of
       None \<Rightarrow> []
     | Some tg \<Rightarrow>
        if tg = cfg_self_tgid cfg then []
        else if cfg_target_tgid cfg \<noteq> 0 \<and> tg \<noteq> cfg_target_tgid cfg then []
        else if call = SYS_write then (case emit read_user tg (ucast f) addr count 0 of Some rec \<Rightarrow> [rec] | None \<Rightarrow> [])
        else emitVector read_user (read_iov addr) tg (ucast f) (unat count) [0 ..< MAX_IOV])"

subsection \<open>Reading a record\<close>

abbreviation part :: "string \<Rightarrow> nat \<Rightarrow> nat \<Rightarrow> string" where
  "part \<equiv> TokenShapes.slice"

definition HeaderSize :: nat where "HeaderSize = 16"
definition MaxData :: nat where "MaxData = 8192"
definition FlagTruncated :: "32 word" where "FlagTruncated = 1"
definition FlagIOVCut :: "32 word" where "FlagIOVCut = 2"

record Event =
  ev_Tgid :: "32 word"
  ev_FD :: "32 word"
  ev_Flags :: "32 word"
  ev_Data :: string

definition Truncated :: "Event \<Rightarrow> bool" where
  "Truncated e \<longleftrightarrow> ev_Flags e AND (FlagTruncated OR FlagIOVCut) \<noteq> 0"

definition Uint32 :: "string \<Rightarrow> 32 word" where
  "Uint32 b = of_nat (\<Sum>i \<leftarrow> [0, 1, 2, 3]. byte (b ! i) * 256 ^ i)"

datatype parse_error = ErrShort nat | ErrClaims "32 word" nat

definition ParseEvent :: "string \<Rightarrow> parse_error + Event" where
  "ParseEvent rec =
    (if length rec < HeaderSize then Inl (ErrShort (length rec))
     else let n = Uint32 (part rec 8 12) in
       if unat n > length rec - HeaderSize then Inl (ErrClaims n (length rec - HeaderSize))
       else Inr \<lparr>ev_Tgid = Uint32 (part rec 0 4), ev_FD = Uint32 (part rec 4 8), ev_Flags = Uint32 (part rec 12 16),
                 ev_Data = part rec HeaderSize (HeaderSize + unat n)\<rparr>)"

subsection \<open>Lines\<close>

type_synonym Key = "32 word \<times> 32 word"

record pending =
  buf :: string
  seen :: int

record Assembler =
  MaxLine :: nat
  Overflows :: "64 word"
  streams :: "Key \<rightharpoonup> pending"

definition DefaultMaxLine :: nat where "DefaultMaxLine = 2 ^ 20"

definition newAssembler :: Assembler where
  "newAssembler = \<lparr>MaxLine = DefaultMaxLine, Overflows = 0, streams = Map.empty\<rparr>"

text \<open>The two loops of \<open>Push\<close>: whole lines, and lines after pending bytes.\<close>

function fastLines :: "string \<Rightarrow> string list \<times> string" where
  "fastLines data = (case IndexByte data newline of
     None \<Rightarrow> ([], data)
   | Some i \<Rightarrow> (case fastLines (drop (i + 1) data) of (ls, rest) \<Rightarrow> (take i data # ls, rest)))"
  by pat_completeness auto
termination
  by (relation "measure length") (auto simp: IndexByte_Some)

function bufLines :: "string \<Rightarrow> string \<Rightarrow> string list \<times> string" where
  "bufLines b data =
    (if data = [] then ([], b)
     else case IndexByte data newline of
       None \<Rightarrow> ([], b @ data)
     | Some i \<Rightarrow> (case bufLines [] (drop (i + 1) data) of (ls, rest) \<Rightarrow> ((b @ take i data) # ls, rest)))"
  by pat_completeness auto
termination
  by (relation "measure (\<lambda>(b, data). length data)") (auto simp: IndexByte_Some)

declare fastLines.simps [simp del] bufLines.simps [simp del]

definition Push :: "Key \<Rightarrow> string \<Rightarrow> int \<Rightarrow> Assembler \<Rightarrow> Assembler \<times> string list" where
  "Push k data now a =
    (let b = (case streams a k of None \<Rightarrow> [] | Some p \<Rightarrow> buf p);
         (fast, rest) = (if b = [] then fastLines data else ([], data)) in
     if b = [] \<and> rest = [] then (a, fast)
     else let (slow, b1) = bufLines b rest; over = (length b1 \<ge> MaxLine a); b2 = (if over then [] else b1) in
       (a\<lparr>Overflows := Overflows a + (if over then 1 else 0),
          streams := (streams a)(k := if b2 = [] then None else Some \<lparr>buf = b2, seen = now\<rparr>)\<rparr>,
        fast @ slow @ (if over then [b1] else [])))"

text \<open>
  A map is walked in an order the runtime chooses: \<open>order\<close> is that order.
\<close>

fun FlushIdle :: "int \<Rightarrow> int \<Rightarrow> Key list \<Rightarrow> Assembler \<Rightarrow> Assembler \<times> string list" where
  "FlushIdle now idle [] a = (a, [])"
| "FlushIdle now idle (k # order) a =
    (case streams a k of
       None \<Rightarrow> FlushIdle now idle order a
     | Some p \<Rightarrow>
        if now - seen p \<ge> idle then
          (case FlushIdle now idle order (a\<lparr>streams := (streams a)(k := None)\<rparr>) of (a', ls) \<Rightarrow>
             (a', (if buf p = [] then [] else [buf p]) @ ls))
        else FlushIdle now idle order a)"

definition Pending :: "Assembler \<Rightarrow> nat" where
  "Pending a = card (dom (streams a))"

subsection \<open>A written record is read back\<close>

lemma le32_length [simp]: "length (le32 x) = 4"
  by (simp add: le32_def)

lemma digits256:
  fixes n :: nat
  shows "n mod 256 + n div 256 mod 256 * 256 + n div 256 ^ 2 mod 256 * 256 ^ 2 + n div 256 ^ 3 * 256 ^ 3 = n"
proof -
  define q1 q2 q3 where "q1 = n div 256" and "q2 = q1 div 256" and "q3 = q2 div 256"
  have q: "n div 256 ^ 2 = q2" "n div 256 ^ 3 = q3"
    by (simp_all add: q1_def q2_def q3_def div_mult2_eq [symmetric])
  have "n = q1 * 256 + n mod 256" "q1 = q2 * 256 + q1 mod 256" "q2 = q3 * 256 + q2 mod 256"
    by (simp_all only: q1_def q2_def q3_def div_mult_mod_eq)
  then show ?thesis unfolding q q1_def [symmetric] by simp
qed

lemma Uint32_le32 [simp]: "Uint32 (le32 x) = x"
proof -
  have "unat x < 2 ^ LENGTH(32)" by (rule unsigned_less)
  then have "unat x div 16777216 mod 256 = unat x div 16777216" by (simp add: less_mult_imp_div_less)
  with digits256 [of "unat x"] have "(\<Sum>i \<leftarrow> [0, 1, 2, 3]. byte (le32 x ! i) * 256 ^ i) = unat x"
    by (simp add: le32_def numeral_2_eq_2 numeral_3_eq_3)
  then show ?thesis unfolding Uint32_def by (simp only:) simp
qed

lemma Uint32_append [simp]: "Uint32 (le32 x @ s) = x"
  using Uint32_le32 [of x] by (simp add: Uint32_def nth_append)

lemma hdr_length [simp]: "length (hdr_bytes h) = 16"
  by (simp add: hdr_bytes_def)

lemma hdr_parts:
  "part (hdr_bytes h @ s) 0 4 = le32 (tgid h)" "part (hdr_bytes h @ s) 4 8 = le32 (fd h)"
  "part (hdr_bytes h @ s) 8 12 = le32 (len h)" "part (hdr_bytes h @ s) 12 16 = le32 (flags h)"
  "part (hdr_bytes h @ s) 16 (16 + n) = take n s"
  by (simp_all add: hdr_bytes_def TokenShapes.slice_def)

lemma emit_parse:
  assumes "emit read_user tg f addr count fl = Some rec"
    and "\<And>a n bytes. read_user a n = Some bytes \<Longrightarrow> length bytes = n"
  shows "\<exists>data. ParseEvent rec = Inr \<lparr>ev_Tgid = tg, ev_FD = f,
            ev_Flags = (if unat count > MAX_DATA then fl OR FLAG_TRUNCATED else fl), ev_Data = data\<rparr>
          \<and> (if count = 0 then data = [] else read_user addr (min (unat count) MAX_DATA) = Some data)"
proof -
  define n fl' where "n = min (unat count) MAX_DATA" and "fl' = (if unat count > MAX_DATA then fl OR FLAG_TRUNCATED else fl)"
  define hdr where "hdr = \<lparr>tgid = tg, fd = f, len = of_nat n, flags = fl'\<rparr>"
  have n: "unat (of_nat n :: 32 word) = n" by (simp add: n_def MAX_DATA_def unat_of_nat min_def)
  have zero: "n = 0 \<longleftrightarrow> count = 0" by (auto simp: n_def MAX_DATA_def min_def unat_eq_0 split: if_splits)
  obtain data where rec: "rec = hdr_bytes hdr @ data" and data: "if n = 0 then data = [] else read_user addr n = Some data"
    using assms(1) unfolding emit_def Let_def hdr_def n_def fl'_def by (auto simp: min_def split: if_splits)
  have "length data = n" using data assms(2) by (auto split: if_splits)
  then show ?thesis
    using data n zero unfolding rec ParseEvent_def Let_def HeaderSize_def hdr_parts
    by (auto simp: hdr_def fl'_def [symmetric] n_def [symmetric])
qed

text \<open>
  What a watched process writes reaches the agent: a write to standard output or standard error
  makes one record, which the agent reads back as the process, the descriptor and the first 8192
  bytes of the write, flagged exactly when it was longer.
\<close>

theorem write_reaches_agent:
  assumes "tg \<noteq> cfg_self_tgid cfg" and "cfg_target_tgid cfg \<in> {0, tg}" and "f \<in> {1, 2}"
    and "\<And>a n bytes. read_user a n = Some bytes \<Longrightarrow> length bytes = n"
    and "read_user addr (min (unat count) MAX_DATA) = Some data" and "count \<noteq> 0"
  shows "map ParseEvent (sys_enter cfg read_user read_iov (Some tg) SYS_write f addr count)
    = [Inr \<lparr>ev_Tgid = tg, ev_FD = ucast f, ev_Flags = (if unat count > MAX_DATA then FLAG_TRUNCATED else 0), ev_Data = data\<rparr>]"
proof -
  have "\<exists>rec. emit read_user tg (ucast f) addr count 0 = Some rec"
    using assms(5,6) by (auto simp: emit_def Let_def min_def unat_eq_0 split: if_splits)
  then obtain rec where rec: "emit read_user tg (ucast f) addr count 0 = Some rec" by blast
  from emit_parse [OF rec assms(4)] have "ParseEvent rec = Inr \<lparr>ev_Tgid = tg, ev_FD = ucast f,
      ev_Flags = (if unat count > MAX_DATA then FLAG_TRUNCATED else 0), ev_Data = data\<rparr>"
    using assms(5,6) by auto
  then show ?thesis using assms(1-3) rec by (auto simp: sys_enter_def)
qed

theorem write_reaches_agent_witness:
  "map ParseEvent (sys_enter \<lparr>cfg_self_tgid = 1, cfg_target_tgid = 0\<rparr> (\<lambda>a n. Some (replicate n CHR ''x'')) (\<lambda>a i. None)
      (Some 7) SYS_write 1 4096 3)
    = [Inr \<lparr>ev_Tgid = 7, ev_FD = 1, ev_Flags = 0, ev_Data = ''xxx''\<rparr>]"
proof -
  have "replicate 3 CHR ''x'' = ''xxx''" by (simp add: numeral_3_eq_3)
  then show ?thesis
    using write_reaches_agent [where tg = 7 and cfg = "\<lparr>cfg_self_tgid = 1, cfg_target_tgid = 0\<rparr>" and f = 1
        and read_user = "\<lambda>a n. Some (replicate n CHR ''x'')" and read_iov = "\<lambda>a i. None" and addr = 4096 and count = 3
        and data = "''xxx''"]
    by (simp add: MAX_DATA_def)
qed

subsection \<open>Lines of a stream\<close>

lemma fastLines_Split: "fastLines data = (butlast (Split data newline), last (Split data newline))"
proof (induction data rule: fastLines.induct)
  case (1 data)
  show ?case
  proof (cases "IndexByte data newline")
    case None
    then have "Split data newline = [data]" by (simp add: Split_single)
    then show ?thesis using None by (subst fastLines.simps) (simp del: IndexByte_None)
  next
    case (Some i)
    then have "Split data newline = take i data # Split (drop (i + 1) data) newline"
      using IndexByte_split [OF Some] Split_line [of newline "take i data" "drop (i + 1) data"] by (simp add: IndexByte_Some)
    then show ?thesis using 1 [OF Some] by (subst fastLines.simps) (simp add: Some)
  qed
qed

lemma bufLines_Split:
  "newline \<notin> set b \<Longrightarrow> bufLines b data = (butlast (Split (b @ data) newline), last (Split (b @ data) newline))"
proof (induction b data rule: bufLines.induct)
  case (1 b data)
  show ?case
  proof (cases "data = []")
    case True
    then show ?thesis using 1(2) Split_single [of newline b] by (subst bufLines.simps) simp
  next
    case data: False
    show ?thesis
    proof (cases "IndexByte data newline")
      case None
      then have "Split (b @ data) newline = [b @ data]" using 1(2) by (simp add: Split_single)
      then show ?thesis using None data by (subst bufLines.simps) (simp del: IndexByte_None)
    next
      case (Some i)
      then have "Split (b @ data) newline = (b @ take i data) # Split (drop (i + 1) data) newline"
        using 1(2) IndexByte_split [OF Some] Split_line [of newline "b @ take i data" "drop (i + 1) data"]
        by (simp add: IndexByte_Some)
      then show ?thesis using 1(1) [OF data Some] data by (subst bufLines.simps) (simp add: Some)
    qed
  qed
qed

text \<open>What is kept of a stream whose unfinished line is \<open>b\<close>.\<close>

definition pend :: "string \<Rightarrow> int \<Rightarrow> pending option" where
  "pend b now = (if b = [] then None else Some \<lparr>buf = b, seen = now\<rparr>)"

definition streams_ok :: "Assembler \<Rightarrow> bool" where
  "streams_ok a \<longleftrightarrow> 0 < MaxLine a \<and> finite (dom (streams a))
     \<and> (\<forall>k p. streams a k = Some p \<longrightarrow> buf p \<noteq> [] \<and> newline \<notin> set (buf p) \<and> length (buf p) < MaxLine a)"

definition unfinished :: "Assembler \<Rightarrow> Key \<Rightarrow> string" where
  "unfinished a k = (case streams a k of None \<Rightarrow> [] | Some p \<Rightarrow> buf p)"

lemma streams_okD:
  assumes "streams_ok a" and "streams a k = Some p"
  shows "buf p \<noteq> []" and "newline \<notin> set (buf p)" and "length (buf p) < MaxLine a"
  using assms unfolding streams_ok_def by blast+

lemma unfinished_ok:
  assumes "streams_ok a"
  shows "newline \<notin> set (unfinished a k)" and "unfinished a k = [] \<Longrightarrow> streams a k = None"
  using streams_okD [OF assms] by (cases "streams a k"; simp add: unfinished_def)+

lemma Push_Split:
  assumes "streams_ok a"
  shows "Push k data now a =
    (let ps = Split (unfinished a k @ data) newline in
     if length (last ps) < MaxLine a then (a\<lparr>streams := (streams a)(k := pend (last ps) now)\<rparr>, butlast ps)
     else (a\<lparr>Overflows := Overflows a + 1, streams := (streams a)(k := None)\<rparr>, ps))"
proof -
  define b where "b = unfinished a k"
  define ps where "ps = Split (b @ data) newline"
  have eq: "(case streams a k of None \<Rightarrow> [] | Some p \<Rightarrow> buf p) = b" by (simp add: b_def unfinished_def)
  have b: "newline \<notin> set b" "b = [] \<Longrightarrow> streams a k = None" using unfinished_ok [OF assms] by (simp_all add: b_def)
  have "newline \<notin> set (last ps)" using Split_no_sep [of "last ps" "b @ data" newline] by (simp add: ps_def)
  then have rest: "bufLines [] (last ps) = ([], last ps)" using bufLines_Split [of "[]" "last ps"] by (simp add: Split_single)
  have join: "butlast ps @ [last ps] = ps" by (simp add: ps_def)
  have pos: "0 < MaxLine a" using assms by (simp add: streams_ok_def)
  have "Push k data now a =
    (if length (last ps) < MaxLine a then (a\<lparr>streams := (streams a)(k := pend (last ps) now)\<rparr>, butlast ps)
     else (a\<lparr>Overflows := Overflows a + 1, streams := (streams a)(k := None)\<rparr>, ps))"
  proof (cases "b = []")
    case True
    then have "fastLines data = (butlast ps, last ps)" by (simp add: fastLines_Split ps_def)
    moreover have "(streams a)(k := None) = streams a" using b(2) [OF True] by auto
    ultimately show ?thesis
      using True rest join pos by (simp add: Push_def eq pend_def not_less)
  next
    case False
    then show ?thesis
      using bufLines_Split [OF b(1), of data] join pos by (simp add: Push_def eq pend_def not_less ps_def [symmetric])
  qed
  then show ?thesis by (simp add: b_def [symmetric] ps_def [symmetric] Let_def)
qed

lemma Push_ok:
  assumes "streams_ok a"
  shows "streams_ok (fst (Push k data now a))"
  using assms Split_no_sep [of _ "unfinished a k @ data" newline]
  by (auto simp: Push_Split [OF assms] Let_def streams_ok_def pend_def split: if_splits)

lemma streams_ok_drop: "streams_ok a \<Longrightarrow> streams_ok (a\<lparr>streams := (streams a)(k := None)\<rparr>)"
  by (simp add: streams_ok_def)

lemma FlushIdle_Some:
  assumes "streams_ok a" and "streams a k = Some p" and "idle \<le> now - seen p"
  shows "FlushIdle now idle (k # order) a =
    (let (a', ls) = FlushIdle now idle order (a\<lparr>streams := (streams a)(k := None)\<rparr>) in (a', buf p # ls))"
  using assms streams_okD [OF assms(1,2)] by (simp split: prod.split)

lemma FlushIdle_skip:
  "\<not> (\<exists>p. streams a k = Some p \<and> idle \<le> now - seen p) \<Longrightarrow> FlushIdle now idle (k # order) a = FlushIdle now idle order a"
  by (auto split: option.split)

lemma FlushIdle_ok: "streams_ok a \<Longrightarrow> streams_ok (fst (FlushIdle now idle order a))"
proof (induction order arbitrary: a)
  case (Cons k order)
  then show ?case
  proof (cases "\<exists>p. streams a k = Some p \<and> idle \<le> now - seen p")
    case True
    then obtain p where "streams a k = Some p" "idle \<le> now - seen p" by blast
    then show ?thesis
      using FlushIdle_Some [OF Cons.prems] Cons.IH [OF streams_ok_drop [OF Cons.prems]] by (simp add: case_prod_beta Let_def)
  next
    case False
    then show ?thesis using Cons FlushIdle_skip [OF False] by simp
  qed
qed simp

subsection \<open>Any split of the writes gives the same lines\<close>

fun pushes :: "(Key \<times> string \<times> int) list \<Rightarrow> Assembler \<Rightarrow> Assembler \<times> (Key \<times> string) list" where
  "pushes [] a = (a, [])"
| "pushes ((k, data, now) # ws) a =
    (case Push k data now a of (a1, ls) \<Rightarrow> case pushes ws a1 of (a2, ls2) \<Rightarrow> (a2, map (Pair k) ls @ ls2))"

definition written :: "Key \<Rightarrow> (Key \<times> string \<times> int) list \<Rightarrow> string" where
  "written k ws = concat (map (\<lambda>(k', data, now). if k' = k then data else []) ws)"

definition of_stream :: "Key \<Rightarrow> (Key \<times> string) list \<Rightarrow> string list" where
  "of_stream k ls = map snd (filter (\<lambda>l. fst l = k) ls)"

lemma Split_prefix: "c \<notin> set l \<Longrightarrow> Split (l @ t) c = (l @ hd (Split t c)) # tl (Split t c)"
  by (induction l) (auto split: list.split)

lemma line_bound:
  assumes "\<forall>l \<in> set (Split (s @ t) c). length l < m"
  shows "\<forall>l \<in> set (Split s c). length l < m"
proof
  fix l assume l: "l \<in> set (Split s c)"
  let ?u = "last (Split s c)"
  have "Split (s @ t) c = butlast (Split s c) @ (?u @ hd (Split t c)) # tl (Split t c)"
    using Split_append [of s t c] Split_prefix [of c ?u t] Split_no_sep [of ?u s c] by simp
  then have "length ?u < m" "\<forall>p \<in> set (butlast (Split s c)). length p < m" using assms by auto
  moreover have "l \<in> set (butlast (Split s c)) \<or> l = ?u"
    using l append_butlast_last_id [OF Split_nonempty [of s c]] by (metis Un_iff set_append empty_iff insert_iff list.set)
  ultimately show "length l < m" by auto
qed

lemma unfinished_upd: "unfinished (a\<lparr>streams := (streams a)(k := pend b now)\<rparr>) k' = (if k' = k then b else unfinished a k')"
  by (simp add: unfinished_def pend_def)

lemma pushes_Split:
  assumes "streams_ok a" and "\<forall>k. \<forall>l \<in> set (Split (unfinished a k @ written k ws) newline). length l < MaxLine a"
  shows "of_stream k (snd (pushes ws a)) = butlast (Split (unfinished a k @ written k ws) newline)
    \<and> unfinished (fst (pushes ws a)) k = last (Split (unfinished a k @ written k ws) newline)
    \<and> Overflows (fst (pushes ws a)) = Overflows a"
  using assms
proof (induction ws arbitrary: a)
  case Nil
  then show ?case using unfinished_ok(1) [of a k] by (simp add: written_def of_stream_def Split_single)
next
  case (Cons w ws)
  obtain k0 data now where w: "w = (k0, data, now)" by (cases w) auto
  define ps where "ps = Split (unfinished a k0 @ data) newline"
  define a1 where "a1 = a\<lparr>streams := (streams a)(k0 := pend (last ps) now)\<rparr>"
  have wr: "written k' (w # ws) = (if k' = k0 then data else []) @ written k' ws" for k' by (simp add: written_def w)
  have "\<forall>l \<in> set (Split ((unfinished a k0 @ data) @ written k0 ws) newline). length l < MaxLine a"
    using spec [OF Cons.prems(2), of k0] by (simp add: wr)
  from line_bound [OF this] have "length (last ps) < MaxLine a" by (simp add: ps_def)
  then have push: "Push k0 data now a = (a1, butlast ps)" using Push_Split [OF Cons.prems(1)] by (simp add: ps_def a1_def Let_def)
  have split: "Split (unfinished a k' @ written k' (w # ws)) newline
      = (if k' = k0 then butlast ps else []) @ Split (unfinished a1 k' @ written k' ws) newline" for k'
    using Split_append [of "unfinished a k0 @ data" "written k0 ws" newline]
    by (simp add: wr a1_def unfinished_upd ps_def)
  have "streams_ok a1" using Push_ok [OF Cons.prems(1), of k0 data now] push by simp
  moreover have "\<forall>k. \<forall>l \<in> set (Split (unfinished a1 k @ written k ws) newline). length l < MaxLine a1"
    using Cons.prems(2) split by (auto simp: a1_def)
  ultimately have IH: "of_stream k (snd (pushes ws a1)) = butlast (Split (unfinished a1 k @ written k ws) newline)
    \<and> unfinished (fst (pushes ws a1)) k = last (Split (unfinished a1 k @ written k ws) newline)
    \<and> Overflows (fst (pushes ws a1)) = Overflows a1" by (rule Cons.IH)
  have "pushes (w # ws) a = (fst (pushes ws a1), map (Pair k0) (butlast ps) @ snd (pushes ws a1))"
    by (simp add: w push case_prod_beta)
  moreover have "of_stream k (map (Pair k0) ls @ ls') = (if k = k0 then ls else []) @ of_stream k ls'" for ls ls'
    by (simp add: of_stream_def filter_map o_def)
  ultimately show ?case using IH unfolding split by (simp add: butlast_append) (simp add: a1_def)
qed


definition two_streams :: "(Key \<times> string \<times> int) list" where
  "two_streams = [((1, 1), ''pass'', 0), ((2, 1), ''other'' @ [newline], 1), ((1, 1), ''word'' @ [newline] @ ''next'', 2)]"


subsection \<open>No byte is lost\<close>

definition held :: "Assembler \<Rightarrow> nat" where
  "held a = (\<Sum>k \<in> dom (streams a). length (unfinished a k))"

definition bytes_of :: "string list \<Rightarrow> nat" where
  "bytes_of ls = sum_list (map length ls)"

lemma bytes_of_append [simp]: "bytes_of (ls @ ms) = bytes_of ls + bytes_of ms" "bytes_of [] = 0" "bytes_of (l # ls) = length l + bytes_of ls"
  by (simp_all add: bytes_of_def)

lemma Split_bytes: "bytes_of (Split s c) + CountByte s c = length s"
proof (induction s)
  case (Cons x s)
  then show ?case by (cases "Split s c") (auto simp: CountByte_def bytes_of_def)
qed (simp add: CountByte_def bytes_of_def)

lemma held_remove:
  assumes "streams_ok a"
  shows "held (a\<lparr>streams := (streams a)(k := None)\<rparr>) + length (unfinished a k) = held a"
proof -
  have fin: "finite (dom (streams a))" using assms by (simp add: streams_ok_def)
  have "(\<Sum>j \<in> dom (streams a) - {k}. length (unfinished (a\<lparr>streams := (streams a)(k := None)\<rparr>) j))
    = (\<Sum>j \<in> dom (streams a) - {k}. length (unfinished a j))"
    by (rule sum.cong) (auto simp: unfinished_def)
  then show ?thesis
    using sum.remove [OF fin, of k "\<lambda>j. length (unfinished a j)"]
    by (cases "k \<in> dom (streams a)") (auto simp: held_def unfinished_def domIff)
qed

lemma held_put:
  assumes "streams_ok a"
  shows "held (a\<lparr>streams := (streams a)(k := pend b now)\<rparr>) + length (unfinished a k) = held a + length b"
proof (cases "b = []")
  case True
  then show ?thesis using held_remove [OF assms, of k] by (simp add: pend_def)
next
  case False
  define a0 a1 where "a0 = a\<lparr>streams := (streams a)(k := None)\<rparr>" and "a1 = a\<lparr>streams := (streams a)(k := pend b now)\<rparr>"
  have fin: "finite (dom (streams a1))" using assms by (simp add: streams_ok_def a1_def pend_def)
  have dom: "dom (streams a1) - {k} = dom (streams a0)" "k \<in> dom (streams a1)"
    using False by (auto simp: a0_def a1_def pend_def)
  have "(\<Sum>j \<in> dom (streams a0). length (unfinished a1 j)) = held a0"
    unfolding held_def by (rule sum.cong) (auto simp: a0_def a1_def unfinished_def split: if_splits)
  moreover have "unfinished a1 k = b" using False by (simp add: a1_def unfinished_def pend_def)
  ultimately have "held a1 = held a0 + length b"
    using sum.remove [OF fin dom(2), of "\<lambda>j. length (unfinished a1 j)"] by (simp add: held_def dom(1))
  then show ?thesis using held_remove [OF assms, of k] by (simp add: a0_def a1_def)
qed

lemma Push_bytes:
  assumes "streams_ok a"
  shows "held (fst (Push k data now a)) + bytes_of (snd (Push k data now a)) + CountByte data newline = held a + length data"
proof -
  let ?u = "unfinished a k"
  define ps where "ps = Split (?u @ data) newline"
  have "CountByte ?u newline = 0" using unfinished_ok(1) [OF assms, of k] by (auto simp: CountByte_def filter_empty_conv)
  then have all: "bytes_of ps + CountByte data newline = length ?u + length data"
    using Split_bytes [of "?u @ data" newline] by (simp add: ps_def CountByte_def)
  have "bytes_of (butlast ps) + length (last ps) = bytes_of ps"
    using bytes_of_append(1) [of "butlast ps" "[last ps]"] by (simp add: ps_def)
  moreover have "held (a\<lparr>Overflows := x, streams := s\<rparr>) = held (a\<lparr>streams := s\<rparr>)" for x s by (simp add: held_def unfinished_def)
  ultimately show ?thesis
    using all held_put [OF assms, of k "last ps" now] held_remove [OF assms, of k]
    by (simp add: Push_Split [OF assms] ps_def [symmetric] Let_def)
qed

lemma FlushIdle_bytes:
  "streams_ok a \<Longrightarrow> held (fst (FlushIdle now idle order a)) + bytes_of (snd (FlushIdle now idle order a)) = held a"
proof (induction order arbitrary: a)
  case (Cons k order)
  show ?case
  proof (cases "\<exists>p. streams a k = Some p \<and> idle \<le> now - seen p")
    case True
    then obtain p where p: "streams a k = Some p" "idle \<le> now - seen p" by blast
    then show ?thesis
      using FlushIdle_Some [OF Cons.prems p] Cons.IH [OF streams_ok_drop [OF Cons.prems, of k]] held_remove [OF Cons.prems, of k]
      by (simp add: case_prod_beta Let_def unfinished_def)
  next
    case False
    then show ?thesis using Cons FlushIdle_skip [OF False] by simp
  qed
qed simp

lemma FlushIdle_streams:
  assumes "streams_ok a"
  shows "streams (fst (FlushIdle now idle order a)) k =
    (if k \<in> set order \<and> (case streams a k of None \<Rightarrow> True | Some p \<Rightarrow> idle \<le> now - seen p) then None else streams a k)"
  using assms
proof (induction order arbitrary: a)
  case (Cons j order)
  show ?case
  proof (cases "\<exists>p. streams a j = Some p \<and> idle \<le> now - seen p")
    case True
    then obtain p where p: "streams a j = Some p" "idle \<le> now - seen p" by blast
    then show ?thesis
      using FlushIdle_Some [OF Cons.prems p] Cons.IH [OF streams_ok_drop [OF Cons.prems, of j]]
      by (cases "k = j") (simp_all add: case_prod_beta Let_def)
  next
    case False
    then show ?thesis
      using Cons.IH [OF Cons.prems] unfolding FlushIdle_skip [OF False] by (cases "k = j"; cases "streams a j") auto
  qed
qed (simp split: option.split)

end
