(* ===== verification/OutputStream.thy ===== *)
theory OutputStream
  imports Prelude
begin

text \<open>
  The writer of the command line filter (\<^verbatim>\<open>output.go\<close>): a buffer in front of standard output that
  is flushed when it is full, by a timer, by a stream marker and when it is closed. Writes to standard
  output do not fail. The mutex makes every operation one step, so the timer is a step that can come
  between any two others.
\<close>

subsection \<open>The buffer\<close>

definition outputBufferSize :: nat where "outputBufferSize = 64 * 1024"

record outputWriter =
  dst :: string
  wbuf :: "string option"
  closed :: bool

definition newOutputWriter :: "string \<Rightarrow> int \<Rightarrow> outputWriter" where
  "newOutputWriter d interval = \<lparr>dst = d, wbuf = (if interval \<le> 0 then None else Some []), closed = False\<rparr>"

text \<open>\<^verbatim>\<open>bufio.Writer.Write\<close>: destination and buffer after it.\<close>

function bufWrite :: "nat \<Rightarrow> string \<Rightarrow> string \<Rightarrow> string \<Rightarrow> string \<times> string" where
  "bufWrite cap d b p =
    (if length p \<le> cap - length b then (d, b @ p)
     else if b = [] then (d @ p, [])
     else let n = cap - length b in bufWrite cap (d @ b @ take n p) [] (drop n p))"
  by pat_completeness auto
termination
  by (relation "measure (\<lambda>(cap, d, b, p). length b)") auto

declare bufWrite.simps [simp del]

definition Write :: "string \<Rightarrow> outputWriter \<Rightarrow> outputWriter" where
  "Write p w = (case wbuf w of
     None \<Rightarrow> w\<lparr>dst := dst w @ p\<rparr>
   | Some b \<Rightarrow>
      if closed w then w\<lparr>dst := dst w @ p\<rparr>
      else (case bufWrite outputBufferSize (dst w) b p of (d, b') \<Rightarrow> w\<lparr>dst := d, wbuf := Some b'\<rparr>))"

definition Flush :: "outputWriter \<Rightarrow> outputWriter" where
  "Flush w = (case wbuf w of
     None \<Rightarrow> w
   | Some b \<Rightarrow> if b = [] then w else w\<lparr>dst := dst w @ b, wbuf := Some []\<rparr>)"

definition Close :: "outputWriter \<Rightarrow> outputWriter" where
  "Close w = (Flush w)\<lparr>closed := True\<rparr>"

definition defaultFlushInterval :: int where "defaultFlushInterval = 50 * 1000000"

definition parseFlushInterval :: "(string \<Rightarrow> int option) \<Rightarrow> string \<Rightarrow> int \<times> bool" where
  "parseFlushInterval ParseDuration raw =
    (if raw = [] then (defaultFlushInterval, True)
     else if raw = ''0'' then (0, True)
     else case ParseDuration raw of
       None \<Rightarrow> (defaultFlushInterval, False)
     | Some d \<Rightarrow> if d < 0 then (defaultFlushInterval, False) else (d, True))"

subsection \<open>A sink keeps what is written to it\<close>

text \<open>
  What the filter relies on in a writer: writing appends, and flushing changes nothing a reader will
  see in the end.
\<close>

locale sink =
  fixes put :: "string \<Rightarrow> 'o \<Rightarrow> 'o" and push :: "'o \<Rightarrow> 'o" and content :: "'o \<Rightarrow> string" and ok :: "'o \<Rightarrow> bool"
  assumes content_put: "ok w \<Longrightarrow> content (put s w) = content w @ s"
    and content_push: "ok w \<Longrightarrow> content (push w) = content w"
    and ok_put: "ok w \<Longrightarrow> ok (put s w)"
    and ok_push: "ok w \<Longrightarrow> ok (push w)"

definition buffered :: "outputWriter \<Rightarrow> string" where
  "buffered w = (case wbuf w of None \<Rightarrow> [] | Some b \<Rightarrow> b)"

definition emitted :: "outputWriter \<Rightarrow> string" where
  "emitted w = dst w @ buffered w"

definition writer_ok :: "outputWriter \<Rightarrow> bool" where
  "writer_ok w \<longleftrightarrow> length (buffered w) \<le> outputBufferSize \<and> (closed w \<longrightarrow> buffered w = [])"

lemma bufWrite_content: "length b \<le> cap \<Longrightarrow>
  fst (bufWrite cap d b p) @ snd (bufWrite cap d b p) = d @ b @ p \<and> length (snd (bufWrite cap d b p)) \<le> cap"
proof (induction cap d b p rule: bufWrite.induct)
  case (1 cap d b p)
  show ?case
  proof (cases "length p \<le> cap - length b \<or> b = []")
    case True
    then show ?thesis using 1(2) by (subst (1 2 3) bufWrite.simps) auto
  next
    case False
    then show ?thesis using 1(1) by (subst (1 2 3) bufWrite.simps) (simp add: Let_def)
  qed
qed

lemma Write_content: "writer_ok w \<Longrightarrow> emitted (Write p w) = emitted w @ p \<and> writer_ok (Write p w)"
  using bufWrite_content [of "buffered w" outputBufferSize "dst w" p]
  by (auto simp: Write_def emitted_def buffered_def writer_ok_def split: option.splits prod.splits)

lemma Flush_content: "writer_ok w \<Longrightarrow> emitted (Flush w) = emitted w \<and> writer_ok (Flush w) \<and> buffered (Flush w) = []"
  by (auto simp: Flush_def emitted_def buffered_def writer_ok_def split: option.splits)

lemma Close_content: "writer_ok w \<Longrightarrow> emitted (Close w) = emitted w \<and> writer_ok (Close w) \<and> buffered (Close w) = []"
proof -
  assume w: "writer_ok w"
  have "emitted (Close w) = emitted (Flush w)" "buffered (Close w) = buffered (Flush w)"
    by (simp_all add: Close_def emitted_def buffered_def)
  then show ?thesis using Flush_content [OF w] by (simp add: writer_ok_def)
qed

interpretation stdout_sink: sink Write Flush emitted writer_ok
  by unfold_locales (simp_all add: Write_content Flush_content)

subsection \<open>Every run\<close>

datatype out_op = WriteOp string | FlushOp | CloseOp

fun outStep :: "out_op \<Rightarrow> outputWriter \<Rightarrow> outputWriter" where
  "outStep (WriteOp p) w = Write p w"
| "outStep FlushOp w = Flush w"
| "outStep CloseOp w = Close w"

definition outRun :: "out_op list \<Rightarrow> outputWriter \<Rightarrow> outputWriter" where
  "outRun ops = fold outStep ops"

definition payload_of :: "out_op list \<Rightarrow> string" where
  "payload_of ops = concat (map (\<lambda>op. case op of WriteOp p \<Rightarrow> p | _ \<Rightarrow> []) ops)"

lemma outRun_content:
  "writer_ok w \<Longrightarrow> emitted (outRun ops w) = emitted w @ payload_of ops \<and> writer_ok (outRun ops w)"
proof (induction ops arbitrary: w)
  case (Cons op ops)
  have "emitted (outStep op w) = emitted w @ payload_of [op] \<and> writer_ok (outStep op w)"
    using Cons.prems Write_content Flush_content Close_content by (cases op) (auto simp: payload_of_def)
  then show ?case using Cons.IH [of "outStep op w"] by (simp add: outRun_def payload_of_def)
qed (simp add: outRun_def payload_of_def)

lemma closed_stays: "closed w \<Longrightarrow> closed (outRun ops w)"
proof (induction ops arbitrary: w)
  case (Cons op ops)
  have "closed (outStep op w)"
    using Cons.prems by (cases op) (auto simp: Write_def Flush_def Close_def split: option.splits prod.splits)
  then show ?case using Cons.IH [of "outStep op w"] by (simp add: outRun_def)
qed (simp add: outRun_def)

text \<open>
  C24: The buffered writer behaves like an unbuffered one: after any sequence of writes, timer flushes,
  marker flushes and closes, standard output and the buffer together hold everything written, in
  order, the buffer never holds more than 64 KiB, and once the writer has been closed everything
  written before and after is on standard output.
\<close>

theorem output_refines:
  "emitted (outRun ops (newOutputWriter [] interval)) = payload_of ops
   \<and> length (buffered (outRun ops (newOutputWriter [] interval))) \<le> outputBufferSize
   \<and> (CloseOp \<in> set ops \<longrightarrow> dst (outRun ops (newOutputWriter [] interval)) = payload_of ops)"
proof -
  let ?w = "newOutputWriter [] interval" and ?r = "outRun ops (newOutputWriter [] interval)"
  have "writer_ok ?w" "emitted ?w = []" by (simp_all add: newOutputWriter_def writer_ok_def emitted_def buffered_def)
  then have r: "emitted ?r = payload_of ops" "writer_ok ?r" using outRun_content [of ?w ops] by simp_all
  have "closed ?r" if close: "CloseOp \<in> set ops"
  proof -
    obtain xs ys where ops: "ops = xs @ CloseOp # ys" using split_list [OF close] by blast
    have "closed (outRun ys (Close (outRun xs ?w)))" by (rule closed_stays) (simp add: Close_def)
    then show ?thesis by (simp add: ops outRun_def)
  qed
  then have "dst ?r = payload_of ops" if "CloseOp \<in> set ops" using r that by (simp add: writer_ok_def emitted_def)
  then show ?thesis using r by (simp add: writer_ok_def)
qed

theorem output_refines_witness:
  "dst (outRun [WriteOp ''a'', FlushOp, WriteOp ''b'', CloseOp, WriteOp ''c''] (newOutputWriter [] 1)) = ''abc''"
  using output_refines [of "[WriteOp ''a'', FlushOp, WriteOp ''b'', CloseOp, WriteOp ''c'']" 1] by (simp add: payload_of_def)

end
