(* ===== verification/Decimals.thy ===== *)
theory Decimals
  imports Config "HOL-Library.Word"
begin

text \<open>
  Decimal numbers as \<^verbatim>\<open>strconv\<close> and \<^verbatim>\<open>fmt\<close> write them, and that reading them back gives the
  number.
\<close>

named_theorems decimals "decimal numbers"

fun itoa :: "nat \<Rightarrow> string" where
  "itoa n = (if n < 10 then [char_of (48 + n)] else itoa (n div 10) @ [char_of (48 + n mod 10)])"

declare itoa.simps [simp del]

definition FormatInt :: "int \<Rightarrow> string" where
  "FormatInt n = (if n < 0 then CHR ''-'' # itoa (nat (- n)) else itoa (nat n))"

text \<open>The number a row of digits stands for.\<close>

definition ten :: "string \<Rightarrow> nat" where
  "ten s = foldl (\<lambda>a c. a * 10 + (byte c - 48)) 0 s"

lemma byte_digit: "d < 10 \<Longrightarrow> byte (char_of (48 + d)) = 48 + d"
  by (simp add: byte_char_of)

lemma isASCIIDigit_char: "d < 10 \<Longrightarrow> isASCIIDigit (char_of (48 + d :: nat))"
  unfolding isASCIIDigit_byte byte_digit by simp

lemma isASCIIDigit_char_minus: "\<not> isASCIIDigit CHR ''-''"
  by (simp add: isASCIIDigit_byte)

lemma ten_itoa [decimals]: "ten (itoa n) = n"
proof (induction n rule: itoa.induct)
  case (1 n)
  show ?case
  proof (cases "n < 10")
    case True
    then show ?thesis by (subst itoa.simps) (simp add: ten_def byte_digit del: of_char_of)
  next
    case False
    then have "foldl (\<lambda>a c. a * 10 + (byte c - 48)) 0 (itoa (n div 10)) = n div 10" using 1 by (simp add: ten_def)
    then show ?thesis using False byte_digit [of "n mod 10"]
      by (subst itoa.simps) (simp add: ten_def del: of_char_of)
  qed
qed

lemma itoa_digits [decimals]: "list_all isASCIIDigit (itoa n) \<and> itoa n \<noteq> []"
proof (induction n rule: itoa.induct)
  case (1 n)
  then show ?case
    by (subst (1 2) itoa.simps) (cases "n < 10"; simp add: isASCIIDigit_char)
qed

lemma itoa_inj: "itoa m = itoa n \<longleftrightarrow> m = n"
  by (metis ten_itoa)

lemma itoa_not: "\<not> isASCIIDigit c \<Longrightarrow> c \<notin> set (itoa n)"
  using itoa_digits [of n] by (auto simp: list_all_iff)

lemma FormatInt_inj: "FormatInt m = FormatInt n \<longleftrightarrow> m = n"
proof -
  have "CHR ''-'' # itoa i \<noteq> itoa j" for i j
    using itoa_not [of "CHR ''-''" j] by (metis isASCIIDigit_char_minus list.set_intros(1))
  then show ?thesis by (auto simp: FormatInt_def itoa_inj eq_commute [of "itoa _" "CHR ''-'' # _"])
qed

lemma FormatInt_plain: "\<not> isASCIIDigit c \<Longrightarrow> c \<noteq> CHR ''-'' \<Longrightarrow> c \<notin> set (FormatInt n)"
  by (auto simp: FormatInt_def itoa_not)

lemma foldl_int:
  "list_all isASCIIDigit s \<Longrightarrow>
    foldl (\<lambda>a c. a * 10 + (int (byte c) - 48)) (int a) s = int (foldl (\<lambda>a c. a * 10 + (byte c - 48)) a s)"
proof (induction s arbitrary: a)
  case (Cons c s)
  have "int a * 10 + (int (byte c) - 48) = int (a * 10 + (byte c - 48))"
    using Cons.prems isASCIIDigit_byte [of c] by simp
  then have "foldl (\<lambda>a c. a * 10 + (int (byte c) - 48)) (int a) (c # s)
    = foldl (\<lambda>a c. a * 10 + (int (byte c) - 48)) (int (a * 10 + (byte c - 48))) s" by (simp only: foldl_Cons)
  also have "\<dots> = int (foldl (\<lambda>a c. a * 10 + (byte c - 48)) (a * 10 + (byte c - 48)) s)"
    by (rule Cons.IH) (use Cons.prems in simp)
  finally show ?case by (simp only: foldl_Cons)
qed simp

lemma digit_no_sign: "list_all isASCIIDigit s \<Longrightarrow> \<not> HasPrefix s ''-'' \<and> \<not> HasPrefix s ''+''"
  by (cases s) (auto simp: HasPrefix_def isASCIIDigit_byte)

lemma Atoi_itoa: "n < 2 ^ 63 \<Longrightarrow> Atoi (itoa n) = Some (int n)"
proof -
  assume "n < 2 ^ 63"
  then have n: "\<not> int n < - (2 ^ 63)" "\<not> int n \<ge> 2 ^ 63" by simp_all
  have digits: "list_all isASCIIDigit (itoa n)" "itoa n \<noteq> []" using itoa_digits by auto
  have val: "foldl (\<lambda>a c. a * 10 + (int (byte c) - 48)) 0 (itoa n) = int n"
    using foldl_int [OF digits(1), of 0] ten_itoa [of n] by (simp only: ten_def) simp
  show ?thesis
    unfolding Atoi_def Let_def using digits digit_no_sign [OF digits(1)] n by (simp only: val if_False simp_thms)
qed

end
