(* ===== verification/Statistics.thy ===== *)
theory Statistics
  imports Decimals
begin

text \<open>
  The value counters of the command line filter and the line it logs about them (\<^verbatim>\<open>stats.go\<close>).
  Counters are 64 bits wide and wrap. A float64 is the number it stands for; \<^verbatim>\<open>%.1f\<close> rounds it
  to tenths, half to even.
\<close>

subsection \<open>Counters\<close>

record statsCollector =
  st_entropy :: "64 word"
  st_regex :: "64 word"
  st_luhn :: "64 word"
  st_signature :: "64 word"
  st_key :: "64 word"
  st_other :: "64 word"
  st_lines :: "64 word"
  st_bytes :: "64 word"
  st_wouldRedact :: "64 word"

definition newStatsCollector :: statsCollector where
  "newStatsCollector = \<lparr>st_entropy = 0, st_regex = 0, st_luhn = 0, st_signature = 0, st_key = 0, st_other = 0,
     st_lines = 0, st_bytes = 0, st_wouldRedact = 0\<rparr>"

definition recordRedaction :: "string \<Rightarrow> statsCollector \<Rightarrow> statsCollector" where
  "recordRedaction strategy s =
    (if strategy = ''entropy'' then s\<lparr>st_entropy := st_entropy s + 1\<rparr>
     else if strategy = ''regex'' then s\<lparr>st_regex := st_regex s + 1\<rparr>
     else if strategy = ''luhn'' then s\<lparr>st_luhn := st_luhn s + 1\<rparr>
     else if strategy = ''signature'' then s\<lparr>st_signature := st_signature s + 1\<rparr>
     else if strategy = ''key'' then s\<lparr>st_key := st_key s + 1\<rparr>
     else s\<lparr>st_other := st_other s + 1\<rparr>)"

definition recordLine :: "nat \<Rightarrow> statsCollector \<Rightarrow> statsCollector" where
  "recordLine n s = (let s1 = s\<lparr>st_lines := st_lines s + 1\<rparr> in
     if n > 0 then s1\<lparr>st_bytes := st_bytes s1 + of_nat n\<rparr> else s1)"

definition recordAuditLine :: "bool \<Rightarrow> statsCollector \<Rightarrow> statsCollector" where
  "recordAuditLine wouldRedact s = (if wouldRedact then s\<lparr>st_wouldRedact := st_wouldRedact s + 1\<rparr> else s)"

subsection \<open>Numbers for people\<close>

function groups :: "string \<Rightarrow> string" where
  "groups s = (if s = [] then [] else take 3 s @ (if 3 < length s then '','' else []) @ groups (drop 3 s))"
  by pat_completeness auto
termination
  by (relation "measure length") auto

declare groups.simps [simp del]

definition withThousands :: "64 word \<Rightarrow> string" where
  "withThousands n = (let s = itoa (unat n); pre = length s mod 3 in
     if length s \<le> 3 then s
     else (if pre > 0 then take pre s @ (if length s > pre then '','' else []) else []) @ groups (drop pre s))"

text \<open>The loop that finds the unit; \<open>\<^verbatim>\<open>div\<close>\<close> is 64 bits wide.\<close>

fun unitLoop :: "nat \<Rightarrow> 64 word \<Rightarrow> nat \<Rightarrow> 64 word \<times> nat" where
  "unitLoop m d e = (if m \<ge> 1024 then unitLoop (m div 1024) (d * 1024) (e + 1) else (d, e))"

declare unitLoop.simps [simp del]

definition tenths :: "nat \<Rightarrow> nat \<Rightarrow> nat" where
  "tenths n d = (let q = 10 * n div d; r = 10 * n mod d in if 2 * r > d \<or> (2 * r = d \<and> odd q) then q + 1 else q)"

definition showTenths :: "nat \<Rightarrow> string" where
  "showTenths q = itoa (q div 10) @ ''.'' @ itoa (q mod 10)"

definition humanBytes :: "64 word \<Rightarrow> string go" where
  "humanBytes n =
    (if unat n < 1024 then Inr (itoa (unat n) @ '' B'')
     else case unitLoop (unat n div 1024) 1024 0 of (d, e) \<Rightarrow>
       if e < length ''KMGTPE'' then Inr (showTenths (tenths (unat n) (unat d)) @ '' '' @ [''KMGTPE'' ! e] @ ''B'')
       else Inl Panic)"

subsection \<open>The summary\<close>

definition total :: "statsCollector \<Rightarrow> 64 word" where
  "total s = st_entropy s + st_regex s + st_luhn s + st_signature s + st_key s + st_other s"

definition summary :: "bool \<Rightarrow> statsCollector \<Rightarrow> string go" where
  "summary auditMode s =
    (let parts = [withThousands (st_entropy s) @ '' high-entropy secrets'', withThousands (st_regex s) @ '' pattern matches'',
           withThousands (st_luhn s) @ '' card numbers'', withThousands (st_signature s) @ '' signatures'',
           withThousands (st_key s) @ '' sensitive-key values'']
           @ (if st_other s > 0 then [withThousands (st_other s) @ '' other''] else []);
         counts = withThousands (total s);
         pct = (if st_lines s > 0 then showTenths (tenths (100 * unat (st_wouldRedact s)) (unat (st_lines s))) else ''0.0'') in
     andThen (humanBytes (st_bytes s)) (\<lambda>bytes. Inr
       (if auditMode then
          ''PII-Shield audit: '' @ counts @ '' would-be redactions ('' @ Join parts '', '' @ '') in ''
            @ withThousands (st_wouldRedact s) @ '' of '' @ withThousands (st_lines s) @ '' lines ('' @ pct @ ''%) / ''
            @ bytes @ '' processed; nothing was changed''
        else
          ''PII-Shield stats: '' @ counts @ '' redactions ('' @ Join parts '', '' @ '') across ''
            @ withThousands (st_lines s) @ '' lines / '' @ bytes @ '' processed'')))"

definition parseStatsInterval :: "(string \<Rightarrow> int option) \<Rightarrow> string \<Rightarrow> int" where
  "parseStatsInterval ParseDuration raw =
    (if TrimSpace raw = [] then 0
     else case ParseDuration (TrimSpace raw) of None \<Rightarrow> 0 | Some d \<Rightarrow> if d \<le> 0 then 0 else d)"

subsection \<open>Every redaction is counted\<close>

lemma total_recordRedaction: "total (recordRedaction x s) = total s + 1"
  by (simp add: total_def recordRedaction_def)

lemma total_records: "total (fold recordRedaction xs s) = total s + of_nat (length xs)"
  by (induction xs arbitrary: s) (simp_all add: total_recordRedaction)

lemma records_lines:
  "st_lines (fold recordRedaction xs s) = st_lines s \<and> st_bytes (fold recordRedaction xs s) = st_bytes s"
  by (induction xs arbitrary: s) (simp_all add: recordRedaction_def)

subsection \<open>Thousands\<close>

text \<open>Groups of three, the first shorter.\<close>

definition plain :: "string \<Rightarrow> string" where
  "plain s = filter (\<lambda>c. c \<noteq> CHR '','') s"

lemma plain_append [simp]: "plain (s @ t) = plain s @ plain t" "plain [] = []" "plain (CHR '','' # s) = plain s"
  by (simp_all add: plain_def)

lemma plain_id: "list_all isASCIIDigit s \<Longrightarrow> plain s = s"
  by (auto simp: plain_def list_all_iff isASCIIDigit_byte filter_id_conv)

lemma list_all_take_drop: "list_all P s \<Longrightarrow> list_all P (take k s) \<and> list_all P (drop k s)"
  by (auto simp: list_all_iff dest: in_set_takeD in_set_dropD)

lemma plain_groups: "list_all isASCIIDigit s \<Longrightarrow> plain (groups s) = s"
proof (induction s rule: groups.induct)
  case (1 s)
  show ?case
  proof (cases "s = []")
    case False
    have "plain (groups (drop 3 s)) = drop 3 s" "plain (take 3 s) = take 3 s"
      using 1 False list_all_take_drop [OF 1(2), of 3] by (simp_all add: plain_id)
    moreover have "plain '','' = []" by (simp add: plain_def)
    ultimately show ?thesis using False by (subst groups.simps) simp
  qed (simp add: groups.simps)
qed

lemma Split_groups:
  "length s mod 3 = 0 \<Longrightarrow> s \<noteq> [] \<Longrightarrow> list_all isASCIIDigit s \<Longrightarrow> list_all (\<lambda>g. length g = 3) (Split (groups s) CHR '','')"
proof (induction s rule: groups.induct)
  case (1 s)
  have len: "3 \<le> length s" using 1(2,3) by (cases "length s < 3") auto
  have digits: "list_all isASCIIDigit (take 3 s)" "list_all isASCIIDigit (drop 3 s)" using list_all_take_drop 1(4) by auto
  then have comma: "CHR '','' \<notin> set (take 3 s)" by (auto simp: list_all_iff isASCIIDigit_byte)
  show ?case
  proof (cases "length s = 3")
    case True
    then show ?thesis using comma 1(3) Split_single by (subst groups.simps) (simp add: groups.simps)
  next
    case False
    then have more: "3 < length s" "drop 3 s \<noteq> []" using len by auto
    have "length (drop 3 s) mod 3 = 0" using 1(2) len by (simp add: mod_eq_0_iff_dvd dvd_diff_nat)
    then have "list_all (\<lambda>g. length g = 3) (Split (groups (drop 3 s)) CHR '','')" using 1 digits more by simp
    then show ?thesis using 1(3) more Split_line [OF comma] by (subst groups.simps) simp
  qed
qed

text \<open>
  C29: A count written with commas reads back as the count: without the commas its digits are the
  decimal number, for every 64-bit value, and the commas stand after every third digit from the right
  and nowhere else.
\<close>

theorem withThousands_reads:
  "ten (plain (withThousands n)) = unat n
   \<and> length (hd (Split (withThousands n) CHR '','')) \<in> {1, 2, 3}
   \<and> list_all (\<lambda>g. length g = 3) (tl (Split (withThousands n) CHR '',''))"
proof -
  define s pre where "s = itoa (unat n)" and "pre = length s mod 3"
  have s: "list_all isASCIIDigit s" "s \<noteq> []" "ten s = unat n" using itoa_digits ten_itoa by (auto simp: s_def)
  have parts: "list_all isASCIIDigit (take pre s)" "list_all isASCIIDigit (drop pre s)" using list_all_take_drop s(1) by auto
  have comma: "CHR '','' \<notin> set (take pre s)" "CHR '','' \<notin> set s"
    using parts(1) s(1) by (auto simp: list_all_iff isASCIIDigit_byte)
  have three: "length (drop pre s) mod 3 = 0" "pre < 3" by (simp_all add: pre_def minus_mod_eq_mult_div)
  have one: "plain '','' = []" by (simp add: plain_def)
  consider "length s \<le> 3" | "3 < length s" "pre = 0" | "3 < length s" "0 < pre" by linarith
  then show ?thesis
  proof cases
    case 1
    have "0 < length s" using s(2) by simp
    then have "length s = 1 \<or> length s = 2 \<or> length s = 3" using 1 by linarith
    moreover have "withThousands n = s" using 1 by (simp add: withThousands_def s_def Let_def)
    ultimately show ?thesis using s plain_id [OF s(1)] Split_single [OF comma(2)] by auto
  next
    case 2
    then have t: "withThousands n = groups s" by (simp add: withThousands_def s_def pre_def Let_def)
    have "list_all (\<lambda>g. length g = 3) (Split (groups s) CHR '','')" using Split_groups three s 2 by simp
    then show ?thesis unfolding t using plain_groups [OF s(1)] s(3) by (cases "Split (groups s) CHR '',''") auto
  next
    case 3
    then have t: "withThousands n = take pre s @ '','' @ groups (drop pre s)"
      using three by (simp add: withThousands_def s_def pre_def Let_def)
    have "list_all (\<lambda>g. length g = 3) (Split (groups (drop pre s)) CHR '','')" using Split_groups three parts 3 by simp
    then show ?thesis
      unfolding t using plain_groups [OF parts(2)] plain_id [OF parts(1)] one s(3) Split_line [OF comma(1)] 3 three by auto
  qed
qed

subsection \<open>Bytes\<close>

lemma unitLoop_unit: "\<exists>j. unitLoop m d e = (d * 1024 ^ j, e + j) \<and> m < 1024 ^ (j + 1) \<and> (j = 0 \<or> 1024 ^ j \<le> m)"
proof (induction m d e rule: unitLoop.induct)
  case (1 m d e)
  show ?case
  proof (cases "1024 \<le> m")
    case True
    then obtain j where j: "unitLoop (m div 1024) (d * 1024) (e + 1) = (d * 1024 * 1024 ^ j, e + 1 + j)"
      "m div 1024 < 1024 ^ (j + 1)" "j = 0 \<or> 1024 ^ j \<le> m div 1024" using 1 by blast
    have "m < 1024 ^ (j + 2)" using j(2) by (simp add: div_less_iff_less_mult)
    moreover have "1024 ^ (j + 1) \<le> m" using j(3) True by (auto simp: less_eq_div_iff_mult_less_eq mult.commute)
    ultimately show ?thesis using True j(1) by (subst unitLoop.simps) (auto intro!: exI [of _ "j + 1"] simp: mult.assoc)
  next
    case False
    then show ?thesis by (subst unitLoop.simps) (auto intro!: exI [of _ 0])
  qed
qed

lemma tenths_round: "0 < d \<Longrightarrow> 2 * (tenths n d * d) \<le> 20 * n + d \<and> 20 * n \<le> 2 * (tenths n d * d) + d"
proof -
  assume d: "0 < d"
  define q r where "q = 10 * n div d" and "r = 10 * n mod d"
  have n: "10 * n = q * d + r" and r: "r < d" using d by (simp_all add: q_def r_def)
  have "tenths n d = (if 2 * r > d \<or> (2 * r = d \<and> odd q) then q + 1 else q)" by (simp add: tenths_def Let_def q_def r_def)
  then show ?thesis using n r by auto
qed


end
