(* ===== verification/Cleaner.thy ===== *)
theory Cleaner
  imports Scan OutputStream Statistics
begin

text \<open>
  The command line filter (\<^verbatim>\<open>cmd/cleaner\<close>: \<^verbatim>\<open>main.go\<close>, \<^verbatim>\<open>audit.go\<close>) with the series of
  \<^verbatim>\<open>pkg/metrics\<close> it counts: standard input is read line by line, every line goes through the
  engine, and the result, the line itself or a marker goes to the buffered writer. A panic of the engine
  is recovered for each line. The engine does not say what it reported before a panic, so that is an
  argument (\<open>lost\<close>). The writer is an argument of the operations too; what they do to it is proved for
  every \<open>sink\<close>.
\<close>

subsection \<open>Metrics\<close>

record metrics =
  ProcessedBytesTotal :: nat
  RedactionEventsTotal :: "string \<Rightarrow> nat"
  ProcessingDuration_count :: nat
  ErrorsTotal :: nat
  AuditLinesTotal :: "string \<Rightarrow> nat"
  AuditFindingsTotal :: "string \<Rightarrow> nat"

definition boundStrategy :: "string \<Rightarrow> string" where
  "boundStrategy strategyType =
    (if strategyType \<in> set [''entropy'', ''regex'', ''luhn'', ''signature'', ''key''] then strategyType else ''unknown'')"

definition IncrementRedaction :: "string \<Rightarrow> metrics \<Rightarrow> metrics" where
  "IncrementRedaction strategyType m = (let t = boundStrategy strategyType in
     m\<lparr>RedactionEventsTotal := (RedactionEventsTotal m)(t := RedactionEventsTotal m t + 1)\<rparr>)"

definition IncrementAuditFinding :: "string \<Rightarrow> metrics \<Rightarrow> metrics" where
  "IncrementAuditFinding strategyType m = (let t = boundStrategy strategyType in
     m\<lparr>AuditFindingsTotal := (AuditFindingsTotal m)(t := AuditFindingsTotal m t + 1)\<rparr>)"

definition RecordAuditLine :: "bool \<Rightarrow> metrics \<Rightarrow> metrics" where
  "RecordAuditLine wouldRedact m = (let r = (if wouldRedact then ''would_redact'' else ''clean'') in
     m\<lparr>AuditLinesTotal := (AuditLinesTotal m)(r := AuditLinesTotal m r + 1)\<rparr>)"

subsection \<open>Settings\<close>

record settings =
  metricsEnabled :: bool
  auditMode :: bool
  failPolicy :: string

definition parseMode :: "unicode_tables \<Rightarrow> string \<Rightarrow> string \<times> bool" where
  "parseMode ut raw = (let m = ToLower ut (TrimSpace raw) in
     if m \<in> {[], ''redact''} then (''redact'', True) else if m = ''audit'' then (''audit'', True) else (''redact'', False))"

definition overflowMarker :: "settings \<Rightarrow> string" where
  "overflowMarker cfg =
    (if failPolicy cfg = ''closed'' \<and> \<not> auditMode cfg then ''[PII_SHIELD_DROP: BUFFER_OVERFLOW]''
     else ''[PII_SHIELD_WARN: BUFFER_OVERFLOW, STREAM_BROKEN]'')"

definition resolveMetricsPort :: "string \<Rightarrow> string option" where
  "resolveMetricsPort raw =
    (if raw = [] then Some ''9090''
     else case Atoi raw of None \<Rightarrow> None | Some n \<Rightarrow> if n < 1 \<or> n > 65535 then None else Some raw)"

subsection \<open>One line\<close>

record 'o cleaner =
  out :: 'o
  stats :: "statsCollector option"
  prom :: metrics
  base :: BaselineStats

definition onRedaction :: "settings \<Rightarrow> string \<Rightarrow> 'o cleaner \<Rightarrow> 'o cleaner" where
  "onRedaction cfg strategy c =
    (let c1 = (if metricsEnabled cfg
               then c\<lparr>prom := (if auditMode cfg then IncrementAuditFinding else IncrementRedaction) strategy (prom c)\<rparr> else c) in
     c1\<lparr>stats := map_option (recordRedaction strategy) (stats c1)\<rparr>)"

definition Fprintln :: "(string \<Rightarrow> 'o \<Rightarrow> 'o) \<Rightarrow> string \<Rightarrow> 'o cleaner \<Rightarrow> 'o cleaner" where
  "Fprintln put line c = c\<lparr>out := put (line @ [newline]) (out c)\<rparr>"

definition writeMarker :: "(string \<Rightarrow> 'o \<Rightarrow> 'o) \<Rightarrow> ('o \<Rightarrow> 'o) \<Rightarrow> string \<Rightarrow> 'o cleaner \<Rightarrow> 'o cleaner" where
  "writeMarker put push mark c = (let c1 = Fprintln put mark c in c1\<lparr>out := push (out c1)\<rparr>)"

type_synonym lost = "string \<Rightarrow> BaselineStats \<Rightarrow> string list \<times> BaselineStats"

definition countError :: "settings \<Rightarrow> 'o cleaner \<Rightarrow> 'o cleaner" where
  "countError cfg c = (if metricsEnabled cfg then c\<lparr>prom := (prom c)\<lparr>ErrorsTotal := ErrorsTotal (prom c) + 1\<rparr>\<rparr> else c)"

definition recovered ::
  "(string \<Rightarrow> 'o \<Rightarrow> 'o) \<Rightarrow> ('o \<Rightarrow> 'o) \<Rightarrow> settings \<Rightarrow> string \<Rightarrow> 'o cleaner \<Rightarrow> 'o cleaner" where
  "recovered put push cfg line c =
    (if failPolicy cfg = ''closed'' \<and> \<not> auditMode cfg then writeMarker put push ''[PII_SHIELD_DROP: FATAL_ERROR]'' (countError cfg c)
     else Fprintln put line (countError cfg c))"

definition processLine ::
  "(string \<Rightarrow> 'o \<Rightarrow> 'o) \<Rightarrow> ('o \<Rightarrow> 'o) \<Rightarrow> settings \<Rightarrow> configState \<Rightarrow> lost \<Rightarrow> string \<Rightarrow> 'o cleaner \<Rightarrow> 'o cleaner" where
  "processLine put push cfg st lost line c =
    (let m = prom c;
         c1 = (if metricsEnabled cfg then c\<lparr>prom := m\<lparr>ProcessedBytesTotal := ProcessedBytesTotal m + length line\<rparr>\<rparr> else c);
         c2 = c1\<lparr>stats := map_option (recordLine (length line)) (stats c1)\<rparr> in
     case ScanAndRedact st line \<lparr>sb = [], events = [], baseline = base c\<rparr> of
       Inl _ \<Rightarrow> (case lost line (base c) of (reported, b) \<Rightarrow>
                  recovered put push cfg line ((fold (onRedaction cfg) reported c2)\<lparr>base := b\<rparr>))
     | Inr (cleaned, w) \<Rightarrow>
        let c3 = (fold (onRedaction cfg) (events w) c2)\<lparr>base := baseline w\<rparr>;
            c4 = (if metricsEnabled cfg
                  then c3\<lparr>prom := (prom c3)\<lparr>ProcessingDuration_count := ProcessingDuration_count (prom c3) + 1\<rparr>\<rparr> else c3) in
        if auditMode cfg then
          let wouldRedact = (cleaned \<noteq> line);
              c5 = (if metricsEnabled cfg then c4\<lparr>prom := RecordAuditLine wouldRedact (prom c4)\<rparr> else c4) in
          Fprintln put line (c5\<lparr>stats := map_option (recordAuditLine wouldRedact) (stats c5)\<rparr>)
        else Fprintln put cleaned c4)"

subsection \<open>The input\<close>

text \<open>
  \<^verbatim>\<open>bufio.Scanner\<close> with \<^verbatim>\<open>ScanLines\<close> and a buffer of at most \<open>limit\<close> bytes: the lines,
  without a carriage return at their end, and whether a line did not fit.
\<close>

definition dropCR :: "string \<Rightarrow> string" where
  "dropCR s = (if s \<noteq> [] \<and> last s = CHR 0x0D then butlast s else s)"

function scanLines :: "nat \<Rightarrow> string \<Rightarrow> string list \<times> bool" where
  "scanLines limit data =
    (if data = [] then ([], False)
     else case IndexByte (take limit data) newline of
       Some i \<Rightarrow> (case scanLines limit (drop (i + 1) data) of (ls, tooLong) \<Rightarrow> (dropCR (take i data) # ls, tooLong))
     | None \<Rightarrow> if limit \<le> length data then ([], True) else ([dropCR data], False))"
  by pat_completeness auto
termination
  by (relation "measure (\<lambda>(limit, data). length data)") (auto simp: IndexByte_Some)

declare scanLines.simps [simp del]

definition maxLine :: nat where "maxLine = 10 * 1024 * 1024"

text \<open>One writer of the pipe, or the whole of standard input.\<close>

definition streamPipeOnce ::
  "(string \<Rightarrow> 'o \<Rightarrow> 'o) \<Rightarrow> ('o \<Rightarrow> 'o) \<Rightarrow> settings \<Rightarrow> configState \<Rightarrow> lost \<Rightarrow> string \<Rightarrow> 'o cleaner \<Rightarrow> 'o cleaner" where
  "streamPipeOnce put push cfg st lost data c =
    (case scanLines maxLine data of (ls, tooLong) \<Rightarrow>
      let c1 = fold (processLine put push cfg st lost) ls c in
      if tooLong then writeMarker put push (overflowMarker cfg) (countError cfg c1) else c1)"

definition readFIFO ::
  "(string \<Rightarrow> 'o \<Rightarrow> 'o) \<Rightarrow> ('o \<Rightarrow> 'o) \<Rightarrow> settings \<Rightarrow> configState \<Rightarrow> lost \<Rightarrow> string list \<Rightarrow> 'o cleaner \<Rightarrow> 'o cleaner" where
  "readFIFO put push cfg st lost writers = fold (streamPipeOnce put push cfg st lost) writers"

text \<open>Standard input to standard output, and the exit status.\<close>

definition stdinMode :: "settings \<Rightarrow> configState \<Rightarrow> lost \<Rightarrow> string \<Rightarrow> outputWriter cleaner \<Rightarrow> outputWriter cleaner \<times> nat" where
  "stdinMode cfg st lost data c =
    (let c1 = streamPipeOnce Write Flush cfg st lost data c in
     (c1\<lparr>out := Close (out c1)\<rparr>, if snd (scanLines maxLine data) then 1 else 0))"

subsection \<open>What reaches the writer\<close>

definition outputLine :: "settings \<Rightarrow> configState \<Rightarrow> string \<Rightarrow> BaselineStats \<Rightarrow> string" where
  "outputLine cfg st line b =
    (case ScanAndRedact st line \<lparr>sb = [], events = [], baseline = b\<rparr> of
       Inl _ \<Rightarrow> if failPolicy cfg = ''closed'' \<and> \<not> auditMode cfg then ''[PII_SHIELD_DROP: FATAL_ERROR]'' else line
     | Inr (cleaned, w) \<Rightarrow> if auditMode cfg then line else cleaned)"

text \<open>The output for lines, each with the baseline it was scanned with.\<close>

definition copies :: "settings \<Rightarrow> configState \<Rightarrow> string list \<Rightarrow> BaselineStats list \<Rightarrow> string" where
  "copies cfg st ls bs = concat (map2 (\<lambda>l b. outputLine cfg st l b @ [newline]) ls bs)"

lemma copies_simps [simp]: "copies cfg st [] bs = []" "copies cfg st (l # ls) (b # bs) = outputLine cfg st l b @ newline # copies cfg st ls bs"
  by (simp_all add: copies_def)

lemma onRedaction_out: "out (fold (onRedaction cfg) xs c) = out c"
  by (induction xs arbitrary: c) (simp_all add: onRedaction_def Let_def)

lemma countError_out: "out (countError cfg c) = out c"
  by (simp add: countError_def)

context sink
begin

lemma Fprintln_content: "ok (out c) \<Longrightarrow> content (out (Fprintln put l c)) = content (out c) @ l @ [newline] \<and> ok (out (Fprintln put l c))"
  by (simp add: Fprintln_def content_put ok_put)

lemma writeMarker_content:
  "ok (out c) \<Longrightarrow> content (out (writeMarker put push l c)) = content (out c) @ l @ [newline] \<and> ok (out (writeMarker put push l c))"
  using Fprintln_content [of c l] by (simp add: writeMarker_def Let_def content_push ok_push)

lemma processLine_content:
  assumes "ok (out c)"
  shows "content (out (processLine put push cfg st lost line c)) = content (out c) @ outputLine cfg st line (base c) @ [newline]
    \<and> ok (out (processLine put push cfg st lost line c))"
  using assms
  by (auto simp: processLine_def outputLine_def recovered_def Let_def onRedaction_out countError_out Fprintln_content writeMarker_content
      split: sum.split prod.split)

text \<open>A run over lines writes one entry for each, and nothing else.\<close>

lemma processLines_content:
  assumes "ok (out c)"
  shows "\<exists>bs. length bs = length ls
    \<and> content (out (fold (processLine put push cfg st lost) ls c))
        = content (out c) @ copies cfg st ls bs
    \<and> ok (out (fold (processLine put push cfg st lost) ls c))"
  using assms
proof (induction ls arbitrary: c)
  case (Cons l ls)
  let ?c = "processLine put push cfg st lost l c"
  have step: "content (out ?c) = content (out c) @ outputLine cfg st l (base c) @ [newline]" "ok (out ?c)"
    using processLine_content [OF Cons.prems] by auto
  obtain bs where bs: "length bs = length ls"
    "content (out (fold (processLine put push cfg st lost) ls ?c))
      = content (out ?c) @ copies cfg st ls bs"
    "ok (out (fold (processLine put push cfg st lost) ls ?c))"
    using Cons.IH [OF step(2)] by blast
  then show ?case using step(1) by (intro exI [of _ "base c # bs"]) simp
qed simp

lemma streamPipeOnce_content:
  assumes "ok (out c)"
  shows "\<exists>bs. length bs = length (fst (scanLines maxLine data))
    \<and> content (out (streamPipeOnce put push cfg st lost data c))
        = content (out c) @ copies cfg st (fst (scanLines maxLine data)) bs
          @ (if snd (scanLines maxLine data) then overflowMarker cfg @ [newline] else [])
    \<and> ok (out (streamPipeOnce put push cfg st lost data c))"
proof -
  obtain ls t where s: "scanLines maxLine data = (ls, t)" by (cases "scanLines maxLine data")
  obtain bs where "length bs = length ls"
    "content (out (fold (processLine put push cfg st lost) ls c))
      = content (out c) @ copies cfg st ls bs"
    "ok (out (fold (processLine put push cfg st lost) ls c))"
    using processLines_content [OF assms] by blast
  then show ?thesis
    using writeMarker_content [of "countError cfg (fold (processLine put push cfg st lost) ls c)"]
    by (intro exI [of _ bs]) (simp add: streamPipeOnce_def s Let_def countError_out)
qed

end

lemma stdinMode_dst:
  assumes "writer_ok (out c)" and "emitted (out c) = []"
  shows "\<exists>bs. length bs = length (fst (scanLines maxLine data))
    \<and> dst (out (fst (stdinMode cfg st lost data c)))
        = copies cfg st (fst (scanLines maxLine data)) bs
          @ (if snd (scanLines maxLine data) then overflowMarker cfg @ [newline] else [])"
proof -
  let ?c = "streamPipeOnce Write Flush cfg st lost data c"
  obtain bs where bs: "length bs = length (fst (scanLines maxLine data))" "writer_ok (out ?c)"
    "emitted (out ?c) = copies cfg st (fst (scanLines maxLine data)) bs
          @ (if snd (scanLines maxLine data) then overflowMarker cfg @ [newline] else [])"
    using stdout_sink.streamPipeOnce_content [OF assms(1), of data cfg st lost] assms(2) by auto
  have "dst (Close (out ?c)) = emitted (out ?c)"
    using Close_content [OF bs(2)] by (auto simp: emitted_def)
  then show ?thesis using bs by (intro exI [of _ bs]) (simp add: stdinMode_def Let_def)
qed

subsection \<open>Lines in, lines out\<close>

text \<open>Lines, each with a newline.\<close>

definition unlines :: "string list \<Rightarrow> string" where
  "unlines ls = concat (map (\<lambda>l. l @ [newline]) ls)"

definition fits :: "string \<Rightarrow> bool" where
  "fits l \<longleftrightarrow> newline \<notin> set l \<and> length l < maxLine"

lemma unlines_simps [simp]: "unlines [] = []" "unlines (l # ls) = l @ newline # unlines ls"
  by (simp_all add: unlines_def)

lemma scanLines_line:
  assumes "newline \<notin> set l" and "length l < limit"
  shows "scanLines limit (l @ newline # data) = (case scanLines limit data of (ls, t) \<Rightarrow> (dropCR l # ls, t))"
proof -
  obtain k where k: "limit - length l = Suc k" using assms(2) by (metis Suc_diff_Suc)
  have "IndexByte (take limit (l @ newline # data)) newline = Some (length l)"
    using assms IndexByte_append [of newline l "take k data"] by (simp add: k)
  then show ?thesis by (subst scanLines.simps) simp
qed

lemma scanLines_unlines: "list_all fits ls \<Longrightarrow> scanLines maxLine (unlines ls) = (map dropCR ls, False)"
  by (induction ls) (simp_all add: scanLines.simps [of maxLine "[]"] scanLines_line fits_def)

lemma new_writer: "writer_ok (newOutputWriter [] interval) \<and> emitted (newOutputWriter [] interval) = []"
  by (simp add: newOutputWriter_def writer_ok_def emitted_def buffered_def)

lemma stdinMode_lines:
  assumes "list_all fits ls" and "out c = newOutputWriter [] interval"
  shows "\<exists>bs. length bs = length ls
    \<and> dst (out (fst (stdinMode cfg st lost (unlines ls) c)))
        = copies cfg st (map dropCR ls) bs
    \<and> snd (stdinMode cfg st lost (unlines ls) c) = 0"
proof -
  have "writer_ok (out c)" "emitted (out c) = []" using new_writer assms(2) by simp_all
  from stdinMode_dst [OF this, of "unlines ls" cfg st lost] show ?thesis
    by (simp add: stdinMode_def Let_def scanLines_unlines [OF assms(1)])
qed

lemma dropCR_keep: "\<not> HasSuffix l [CHR 0x0D] \<Longrightarrow> dropCR l = l"
  by (cases l rule: rev_cases) (auto simp: dropCR_def HasSuffix_iff)

lemma calm_dropCR: "calm False l \<Longrightarrow> calm False (dropCR l)"
  by (rule calm_sublist) (auto simp: dropCR_def)

lemma newlines_Cons [simp]: "newlines (newline # s) = Suc (newlines s)"
  by (simp add: newlines_def)

lemma outputLine_newline:
  assumes "names_ok st" and "calm False l"
  shows "newline \<notin> set (outputLine cfg st l b)"
proof -
  have "newline \<notin> set l" using assms(2) by (simp add: calm_def)
  then show ?thesis
    using ScanAndRedact_calm [OF assms] by (auto simp: outputLine_def split: sum.splits prod.splits if_splits)
qed

text \<open>
  C25: Audit mode is a dry run: whatever the engine does with a line, and also when it panics under a
  closed policy, standard output is standard input, byte for byte, for input of lines that end in a
  newline without a carriage return and fit into the buffer; the exit status is 0.
\<close>

theorem audit_keeps_stream:
  assumes "auditMode cfg" and "list_all fits ls" and "\<forall>l \<in> set ls. \<not> HasSuffix l [CHR 0x0D]"
    and "out c = newOutputWriter [] interval"
  shows "dst (out (fst (stdinMode cfg st lost (unlines ls) c))) = unlines ls
    \<and> snd (stdinMode cfg st lost (unlines ls) c) = 0"
proof -
  obtain bs where bs: "length bs = length ls" "snd (stdinMode cfg st lost (unlines ls) c) = 0"
    "dst (out (fst (stdinMode cfg st lost (unlines ls) c)))
      = copies cfg st (map dropCR ls) bs"
    using stdinMode_lines [OF assms(2,4)] by blast
  have same: "outputLine cfg st l b = l" for l b using assms(1) by (simp add: outputLine_def split: sum.split prod.split)
  have "copies cfg st (map dropCR ls) bs = unlines (map dropCR ls)"
    using bs(1) by (induction bs ls rule: list_induct2) (simp_all add: same)
  moreover have "map dropCR ls = ls" using assms(3) by (intro map_idI) (simp add: dropCR_keep)
  ultimately show ?thesis using bs by simp
qed

definition audit_run :: settings where
  "audit_run = \<lparr>metricsEnabled = False, auditMode = True, failPolicy = ''closed''\<rparr>"

definition no_metrics :: metrics where
  "no_metrics = \<lparr>ProcessedBytesTotal = 0, RedactionEventsTotal = (\<lambda>_. 0), ProcessingDuration_count = 0, ErrorsTotal = 0,
     AuditLinesTotal = (\<lambda>_. 0), AuditFindingsTotal = (\<lambda>_. 0)\<rparr>"

definition newCleaner :: "int \<Rightarrow> outputWriter cleaner" where
  "newCleaner interval = \<lparr>out = newOutputWriter [] interval, stats = Some newStatsCollector, prom = no_metrics, base = newBaselineStats 100\<rparr>"

theorem audit_keeps_stream_witness:
  "dst (out (fst (stdinMode audit_run word_state (\<lambda>_ b. ([], b)) (unlines [blank_query]) (newCleaner 1)))) = unlines [blank_query]"
proof -
  have "list_all fits [blank_query]" by (simp add: fits_def maxLine_def blank_query_def)
  moreover have "\<forall>l \<in> set [blank_query]. \<not> HasSuffix l [CHR 0x0D]" by (simp add: HasSuffix_def blank_query_def)
  ultimately show ?thesis
    using audit_keeps_stream [of audit_run "[blank_query]" "newCleaner 1" 1 word_state "\<lambda>_ b. ([], b)"]
    by (simp add: audit_run_def newCleaner_def)
qed



text \<open>
  C26: A panic of the engine is a leak under the default policy: the line with a password on which
  the engine panics goes to standard output unchanged under every configuration, unless the
  fail policy is \<^verbatim>\<open>closed\<close>, which puts a marker in its place.
\<close>

theorem panic_leaks_line:
  assumes "out c = newOutputWriter [] interval"
  shows "dst (out (fst (stdinMode cfg st lost (blank_query @ [newline]) c)))
    = (if failPolicy cfg = ''closed'' \<and> \<not> auditMode cfg then ''[PII_SHIELD_DROP: FATAL_ERROR]'' else blank_query) @ [newline]"
proof -
  have "list_all fits [blank_query]" by (simp add: fits_def maxLine_def blank_query_def)
  from stdinMode_lines [OF this assms, of cfg st lost] obtain b where
    "dst (out (fst (stdinMode cfg st lost (unlines [blank_query]) c))) = copies cfg st (map dropCR [blank_query]) [b]"
    by (auto simp: length_Suc_conv)
  moreover have "dropCR blank_query = blank_query" by (simp add: dropCR_def blank_query_def)
  ultimately show ?thesis by (simp add: outputLine_def blank_query_panics)
qed

theorem panic_leaks_line_witness:
  "dst (out (fst (stdinMode \<lparr>metricsEnabled = False, auditMode = False, failPolicy = ''open''\<rparr> word_state (\<lambda>_ b. ([], b))
      (blank_query @ [newline]) (newCleaner 1)))) = blank_query @ [newline]"
  using panic_leaks_line [of "newCleaner 1" 1 "\<lparr>metricsEnabled = False, auditMode = False, failPolicy = ''open''\<rparr>"]
  by (simp add: newCleaner_def)

text \<open>The scanner of lines removes a carriage return, in audit mode too.\<close>

lemma audit_drops_carriage_return:
  assumes "auditMode cfg" and "out c = newOutputWriter [] interval"
  shows "dst (out (fst (stdinMode cfg st lost [CHR ''a'', CHR 0x0D, newline] c))) = [CHR ''a'', newline]"
proof -
  have "list_all fits [[CHR ''a'', CHR 0x0D]]" by (simp add: fits_def maxLine_def)
  from stdinMode_lines [OF this assms(2), of cfg st lost] show ?thesis
    using assms(1) by (auto simp: length_Suc_conv outputLine_def dropCR_def split: sum.splits prod.splits)
qed

subsection \<open>The counters agree\<close>

definition labels :: "string list" where
  "labels = [''entropy'', ''regex'', ''luhn'', ''signature'', ''key'', ''unknown'']"

definition vec :: "(string \<Rightarrow> nat) \<Rightarrow> nat" where
  "vec f = sum_list (map f labels)"

text \<open>
  The counters of the log summary against the series of the metrics endpoint: the same number of
  redactions, in the series of the mode and in no other, the same volume, and every line counted once,
  with its duration or as an error, except \<open>k\<close> lines being scanned.
\<close>

definition counters_agree :: "bool \<Rightarrow> nat \<Rightarrow> statsCollector \<Rightarrow> metrics \<Rightarrow> bool" where
  "counters_agree audit k s m \<longleftrightarrow>
     total s = of_nat (vec (if audit then AuditFindingsTotal m else RedactionEventsTotal m))
   \<and> (if audit then RedactionEventsTotal m else AuditFindingsTotal m) = (\<lambda>_. 0)
   \<and> (\<forall>t. t \<notin> set labels \<longrightarrow> RedactionEventsTotal m t = 0 \<and> AuditFindingsTotal m t = 0)
   \<and> st_bytes s = of_nat (ProcessedBytesTotal m)
   \<and> st_lines s = of_nat (ProcessingDuration_count m + ErrorsTotal m + k)
   \<and> (if audit then AuditLinesTotal m ''clean'' + AuditLinesTotal m ''would_redact'' = ProcessingDuration_count m
        \<and> st_wouldRedact s = of_nat (AuditLinesTotal m ''would_redact'')
      else AuditLinesTotal m = (\<lambda>_. 0) \<and> st_wouldRedact s = 0)"

lemma boundStrategy_label: "boundStrategy x \<in> set labels"
  by (auto simp: boundStrategy_def labels_def)

lemma vec_update: "t \<in> set labels \<Longrightarrow> vec (f(t := Suc (f t))) = Suc (vec f)"
  by (auto simp: vec_def labels_def)

lemma recordRedaction_rest:
  "st_bytes (recordRedaction x s) = st_bytes s" "st_lines (recordRedaction x s) = st_lines s"
  "st_wouldRedact (recordRedaction x s) = st_wouldRedact s"
  by (simp_all add: recordRedaction_def)

definition agree :: "settings \<Rightarrow> nat \<Rightarrow> 'o cleaner \<Rightarrow> bool" where
  "agree cfg k c \<longleftrightarrow> (case stats c of None \<Rightarrow> False | Some s \<Rightarrow> counters_agree (auditMode cfg) k s (prom c))"

lemma agree_onRedaction: "metricsEnabled cfg \<Longrightarrow> agree cfg k c \<Longrightarrow> agree cfg k (onRedaction cfg x c)"
  using boundStrategy_label [of x]
  by (auto simp: agree_def onRedaction_def Let_def counters_agree_def total_recordRedaction recordRedaction_rest
      IncrementAuditFinding_def IncrementRedaction_def vec_update split: option.splits if_splits)

lemma agree_redactions: "metricsEnabled cfg \<Longrightarrow> agree cfg k c \<Longrightarrow> agree cfg k (fold (onRedaction cfg) xs c)"
  by (induction xs arbitrary: c) (simp_all add: agree_onRedaction)

lemma agree_simps [simp]: "agree cfg k (c\<lparr>base := b\<rparr>) = agree cfg k c" "agree cfg k (Fprintln put l c) = agree cfg k c"
  "agree cfg k (writeMarker put push l c) = agree cfg k c"
  by (simp_all add: agree_def Fprintln_def writeMarker_def Let_def split: option.split)

lemma agree_begin:
  "agree cfg 0 c \<Longrightarrow> agree cfg 1 (c\<lparr>prom := (prom c)\<lparr>ProcessedBytesTotal := ProcessedBytesTotal (prom c) + length line\<rparr>,
     stats := map_option (recordLine (length line)) (stats c)\<rparr>)"
  by (auto simp: agree_def counters_agree_def recordLine_def Let_def total_def split: option.splits)

lemma agree_error: "metricsEnabled cfg \<Longrightarrow> agree cfg 1 c \<Longrightarrow> agree cfg 0 (countError cfg c)"
  by (auto simp: agree_def counters_agree_def countError_def split: option.splits)

lemma agree_done:
  assumes "agree cfg 1 c"
  defines "c' \<equiv> c\<lparr>prom := (prom c)\<lparr>ProcessingDuration_count := ProcessingDuration_count (prom c) + 1\<rparr>\<rparr>"
  shows "\<not> auditMode cfg \<Longrightarrow> agree cfg 0 c'"
    and "auditMode cfg \<Longrightarrow> agree cfg 0 (c'\<lparr>prom := RecordAuditLine w (prom c'), stats := map_option (recordAuditLine w) (stats c')\<rparr>)"
  using assms(1)
  by (auto simp: c'_def agree_def counters_agree_def RecordAuditLine_def recordAuditLine_def Let_def total_def split: option.splits)

lemma agree_processLine:
  assumes "metricsEnabled cfg" and "agree cfg 0 c"
  shows "agree cfg 0 (processLine put push cfg st lost line c)"
proof -
  define c2 where "c2 = c\<lparr>prom := (prom c)\<lparr>ProcessedBytesTotal := ProcessedBytesTotal (prom c) + length line\<rparr>,
     stats := map_option (recordLine (length line)) (stats c)\<rparr>"
  have c2: "agree cfg 1 (fold (onRedaction cfg) xs c2)" for xs
    unfolding c2_def by (intro agree_redactions agree_begin assms)
  show ?thesis
  proof (cases "ScanAndRedact st line \<lparr>sb = [], events = [], baseline = base c\<rparr>")
    case (Inl e)
    then show ?thesis
      using c2 assms(1)
      by (simp add: agree_error [unfolded One_nat_def] processLine_def Let_def c2_def [symmetric] recovered_def split: prod.split)
  next
    case (Inr r)
    obtain cleaned w where r: "r = (cleaned, w)" by (cases r)
    show ?thesis
      using agree_done [of cfg "(fold (onRedaction cfg) (events w) c2)\<lparr>base := baseline w\<rparr>"] c2 assms(1)
      by (simp add: processLine_def Let_def c2_def [symmetric] Inr r)
  qed
qed

text \<open>
  C28: The two sets of counters never drift apart: after any lines, panics included, the log summary
  and the metrics endpoint agree on the redactions (in audit mode the findings), the volume and the
  lines, no series outside the six fixed labels has been created, and every line is counted exactly once.
\<close>

theorem counters_stay_agreed:
  assumes "metricsEnabled cfg"
  shows "agree cfg 0 (fold (processLine Write Flush cfg st lost) ls (newCleaner interval))"
proof -
  have "agree cfg 0 (newCleaner interval)"
    by (simp add: agree_def newCleaner_def counters_agree_def no_metrics_def newStatsCollector_def total_def vec_def labels_def)
  then show ?thesis
    by (induction ls arbitrary: "interval" rule: rev_induct) (simp_all add: agree_processLine assms)
qed

theorem counters_stay_agreed_witness:
  "agree \<lparr>metricsEnabled = True, auditMode = True, failPolicy = []\<rparr> 0
     (fold (processLine Write Flush \<lparr>metricsEnabled = True, auditMode = True, failPolicy = []\<rparr> word_state (\<lambda>_ b. ([''key''], b)))
       [blank_query, ''b''] (newCleaner 1))"
  by (rule counters_stay_agreed) simp

end
