(* ===== verification/Reload.thy ===== *)
theory Reload
  imports Config
begin

text \<open>
  Reloading the policy file in a running filter (\<^verbatim>\<open>config_file.go\<close> of \<^verbatim>\<open>cmd/cleaner\<close>): a timer
  looks at the file, loads it when its time or size changed, and lays the environment over it. What the
  file system answers at a check is an argument. A panic of the overrides ends the process.
\<close>

subsection \<open>The reloader\<close>

text \<open>The state of the reloader, the configuration the scanner runs on and the counters of reloads.\<close>

record policyReloader =
  salt :: string
  seenModTime :: int
  seenSize :: int
  seen :: bool
  missingLogged :: bool
  revision :: string
  active :: Config
  ConfigReloadsTotal :: nat
  ConfigReloadErrorsTotal :: nat
  ConfigRevisionInfo :: "string option"

definition defaultPolicyReloadInterval :: int where "defaultPolicyReloadInterval = 10 * 10 ^ 9"

definition newPolicyReloader :: "unicode_tables \<Rightarrow> compiler \<Rightarrow> environment \<Rightarrow> policyReloader go" where
  "newPolicyReloader ut compile env =
    andThen (ApplyEnvOverrides ut compile env (DefaultConfig ut)) (\<lambda>cfg. Inr
      \<lparr>salt = Salt cfg, seenModTime = 0, seenSize = 0, seen = False, missingLogged = False, revision = [], active = cfg,
       ConfigReloadsTotal = 0, ConfigReloadErrorsTotal = 0, ConfigRevisionInfo = None\<rparr>)"

text \<open>What a check sees: the time and size of the file, and its content.\<close>

type_synonym file_state = "(int \<times> int) option \<times> string option"

definition check ::
  "unicode_tables \<Rightarrow> compiler \<Rightarrow> (string \<Rightarrow> policyFile option) \<Rightarrow> environment \<Rightarrow> bool \<Rightarrow> file_state
    \<Rightarrow> policyReloader \<Rightarrow> (policyReloader \<times> bool) go" where
  "check ut compile parse env metrics file r =
    (case fst file of
       None \<Rightarrow> Inr (r\<lparr>missingLogged := True\<rparr>, False)
     | Some (modTime, sz) \<Rightarrow>
        let r1 = r\<lparr>missingLogged := False\<rparr> in
        if seen r1 \<and> modTime = seenModTime r1 \<and> sz = seenSize r1 then Inr (r1, False)
        else
          let r2 = r1\<lparr>seen := True, seenModTime := modTime, seenSize := sz\<rparr> in
          case LoadPolicyFile ut compile parse (snd file) of
            Inl _ \<Rightarrow> Inr (if metrics then r2\<lparr>ConfigReloadErrorsTotal := ConfigReloadErrorsTotal r2 + 1\<rparr> else r2, False)
          | Inr (cfg, ver) \<Rightarrow>
             andThen (ApplyEnvOverrides ut compile env (cfg\<lparr>Salt := salt r2\<rparr>)) (\<lambda>cfg'.
               let r3 = r2\<lparr>active := cfg', revision := ver\<rparr> in
               Inr (if metrics then r3\<lparr>ConfigReloadsTotal := ConfigReloadsTotal r3 + 1, ConfigRevisionInfo := Some ver\<rparr> else r3, True)))"

fun run ::
  "unicode_tables \<Rightarrow> compiler \<Rightarrow> (string \<Rightarrow> policyFile option) \<Rightarrow> environment \<Rightarrow> bool \<Rightarrow> file_state list
    \<Rightarrow> policyReloader \<Rightarrow> policyReloader go" where
  "run ut compile parse env metrics [] r = Inr r"
| "run ut compile parse env metrics (f # files) r =
    andThen (check ut compile parse env metrics f r) (\<lambda>(r', changed). run ut compile parse env metrics files r')"

text \<open>A duration is 64 bits wide, so a large number of seconds wraps.\<close>

definition toDuration :: "int \<Rightarrow> int" where
  "toDuration n = (n + 2 ^ 63) mod 2 ^ 64 - 2 ^ 63"

definition parseReloadInterval :: "string \<Rightarrow> int option" where
  "parseReloadInterval raw =
    (let s = TrimSpace raw in
     if s = [] then Some defaultPolicyReloadInterval
     else case Atoi s of None \<Rightarrow> None | Some n \<Rightarrow> if n < 0 then None else Some (toDuration (n * 10 ^ 9)))"

definition startPolicyReloader ::
  "unicode_tables \<Rightarrow> compiler \<Rightarrow> (string \<Rightarrow> policyFile option) \<Rightarrow> environment \<Rightarrow> bool \<Rightarrow> file_state list
    \<Rightarrow> policyReloader option go" where
  "startPolicyReloader ut compile parse env metrics files =
    (if Getenv env ''PII_CONFIG_FILE'' = [] then Inr None
     else
       let interval = (case parseReloadInterval (Getenv env ''PII_CONFIG_RELOAD_SECONDS'') of
                         None \<Rightarrow> defaultPolicyReloadInterval | Some d \<Rightarrow> d);
           checks = (if interval > 0 then files else take 1 files) in
       andThen (newPolicyReloader ut compile env) (\<lambda>r. map_sum id Some (run ut compile parse env metrics checks r)))"

subsection \<open>The salt never changes and no file is half applied\<close>

lemma ApplyEnvOverrides_salt:
  assumes "ApplyEnvOverrides ut compile env cfg = Inr c"
  shows "Salt c = (if Getenv env ''PII_SALT'' \<noteq> [] then Getenv env ''PII_SALT'' else if Salt cfg = [] then randomSalt env else Salt cfg)"
  using assms by (auto simp: ApplyEnvOverrides_def envSalt_def envSettings_fields rulesFields_def Let_def split: if_splits)

text \<open>
  The configurations the scanner may run on: the environment alone, or one accepted file with the salt
  of the process under the environment.
\<close>

definition legal ::
  "unicode_tables \<Rightarrow> compiler \<Rightarrow> (string \<Rightarrow> policyFile option) \<Rightarrow> environment \<Rightarrow> file_state list \<Rightarrow> string \<Rightarrow> Config \<Rightarrow> bool" where
  "legal ut compile parse env files key c \<longleftrightarrow>
     ApplyEnvOverrides ut compile env (DefaultConfig ut) = Inr c
   \<or> (\<exists>f \<in> set files. \<exists>cfg ver. LoadPolicyFile ut compile parse (snd f) = Inr (cfg, ver)
        \<and> ApplyEnvOverrides ut compile env (cfg\<lparr>Salt := key\<rparr>) = Inr c)"

definition salted :: "environment \<Rightarrow> policyReloader \<Rightarrow> bool" where
  "salted env r \<longleftrightarrow> Salt (active r) = salt r \<and> (Getenv env ''PII_SALT'' = [] \<or> Getenv env ''PII_SALT'' = salt r) \<and> salt r \<noteq> []"

lemma check_cases:
  assumes "check ut compile parse env metrics f r = Inr (r', changed)"
  shows "salt r' = salt r \<and> (if changed then
      \<exists>cfg ver. LoadPolicyFile ut compile parse (snd f) = Inr (cfg, ver) \<and> revision r' = ver
        \<and> ApplyEnvOverrides ut compile env (cfg\<lparr>Salt := salt r\<rparr>) = Inr (active r')
    else active r' = active r \<and> revision r' = revision r)"
  using assms
  by (auto simp: check_def Let_def andThen_Inr split: option.splits if_splits sum.splits prod.splits)

lemma check_salted:
  assumes "check ut compile parse env metrics f r = Inr (r', changed)" and "salted env r"
  shows "salted env r'"
  using check_cases [OF assms(1)] assms(2) ApplyEnvOverrides_salt [of ut compile env _ "active r'"]
  by (cases changed) (auto simp: salted_def)

lemma run_legal:
  "run ut compile parse env metrics files r = Inr r' \<Longrightarrow> salted env r \<Longrightarrow> legal ut compile parse env fs (salt r) (active r)
    \<Longrightarrow> set files \<subseteq> set fs \<Longrightarrow> salt r' = salt r \<and> salted env r' \<and> legal ut compile parse env fs (salt r) (active r')"
proof (induction files arbitrary: r)
  case (Cons f files)
  then obtain r1 changed where r1: "check ut compile parse env metrics f r = Inr (r1, changed)"
    and rest: "run ut compile parse env metrics files r1 = Inr r'" by (auto simp: andThen_Inr)
  note step = check_cases [OF r1] check_salted [OF r1 Cons.prems(2)]
  have "legal ut compile parse env fs (salt r1) (active r1)"
    using step Cons.prems(3,4) by (auto simp: legal_def split: if_splits)
  then show ?case using Cons.IH [OF rest] step Cons.prems(4) by auto
qed simp


definition empty_policy :: policyFile where
  "empty_policy = \<lparr>sdk_EntropyThreshold = 0, sdk_Salt = [], sdk_ConfidenceThreshold = 0, sdk_FailPolicy = [],
     sdk_MinSecretLength = 0, sdk_SensitiveKeys = [], sdk_DisableBigramCheck = None, sdk_AdaptiveThreshold = None,
     sdk_EntityTypeLabels = Some True, sdk_SensitiveKeyPatterns = [], sdk_CustomRegexes = [], sdk_SafeRegexes = [], Revision = ''7''\<rparr>"

text \<open>A start, an unreadable file, an invalid one and a valid one.\<close>

definition reload_files :: "file_state list" where
  "reload_files = [(None, None), (Some (1, 0), Some []), (Some (2, 1), Some ''{'')]"


lemma run_seen:
  "run ut compile parse env metrics files r = Inr r'
    \<Longrightarrow> (policyReloader.seen r \<longrightarrow> Some (policyReloader.seenModTime r, seenSize r) \<in> S) \<Longrightarrow> fst ` set files \<subseteq> S
    \<Longrightarrow> policyReloader.seen r' \<longrightarrow> Some (seenModTime r', seenSize r') \<in> S"
proof (induction files arbitrary: r)
  case (Cons f files)
  then obtain r1 changed where r1: "check ut compile parse env metrics f r = Inr (r1, changed)"
    and rest: "run ut compile parse env metrics files r1 = Inr r'" by (auto simp: andThen_Inr)
  have "fst f \<in> S" using Cons.prems(3) by simp
  then have "policyReloader.seen r1 \<longrightarrow> Some (seenModTime r1, seenSize r1) \<in> S"
    using r1 Cons.prems(2) by (auto simp: check_def Let_def andThen_Inr split: option.splits if_splits sum.splits prod.splits)
  then show ?case using Cons.IH [OF rest] Cons.prems(3) by simp
qed simp



end
