(* ===== verification/PolicyFile.thy ===== *)
theory PolicyFile
  imports Decimals
begin

text \<open>
  The rules file the operator renders for a policy (\<^verbatim>\<open>policyfile.go\<close>, with the types of
  \<^verbatim>\<open>piipolicy_types.go\<close>), and how it relates to what the sidecar accepts. Reading and writing JSON is
  left to the standard library: \<open>Parse\<close> takes what the decoder made of the bytes, and \<open>fileOf\<close> is what the
  decoder of the sidecar makes of an encoded document, where a field that was left out is zero. A
  number of the policy is the number of its shortest decimal form.
\<close>

subsection \<open>The policy object\<close>

record RegexRule =
  rx_Name :: string
  rx_Pattern :: string

record SecretKeySelector =
  sel_Name :: string
  sel_Key :: string

record RemoteSignature =
  sig_PublicKeys :: "string list"
  sig_URL :: string
  sig_Set :: string

record RemoteConfig =
  rc_URL :: string
  rc_IntervalSeconds :: int
  rc_HeaderSecretRef :: "SecretKeySelector option"
  rc_CABundleSecretRef :: "SecretKeySelector option"
  rc_AllowInsecure :: bool
  rc_Signature :: "RemoteSignature option"

record StatsConfig =
  stc_URL :: string
  stc_IntervalSeconds :: int
  stc_ClusterName :: string
  stc_HeaderSecretRef :: "SecretKeySelector option"
  stc_CABundleSecretRef :: "SecretKeySelector option"
  stc_AllowInsecure :: bool

record PiiPolicySpec =
  sp_FailPolicy :: string
  sp_ConfidenceThreshold :: real
  sp_Salt :: string
  sp_SaltSecretKeyRef :: "SecretKeySelector option"
  sp_EntropyThreshold :: real
  sp_MinSecretLength :: int
  sp_SensitiveKeys :: "string list"
  sp_SensitiveKeyPatterns :: "string list"
  sp_CustomRegexList :: "RegexRule list"
  sp_SafeRegexList :: "RegexRule list"
  sp_InjectionMode :: string
  sp_LogPath :: string
  sp_OriginalCommand :: string
  sp_Resources :: string
  sp_RemoteConfig :: "RemoteConfig option"
  sp_AuditMode :: bool
  sp_Stats :: "StatsConfig option"

record RemoteStatus =
  rs_LastSyncTime :: int
  rs_ETag :: string
  rs_Revision :: string
  rs_Hash :: string
  rs_Publication :: int
  rs_SignedBy :: string

record PiiPolicy =
  pol_Name :: string
  pol_Namespace :: string
  pol_Generation :: int
  pol_Spec :: PiiPolicySpec
  pol_Remote :: "RemoteStatus option"

subsection \<open>The file\<close>

definition policyKey :: string where "policyKey = ''policy.json''"
definition RemoteKey :: string where "RemoteKey = ''remote.json''"
definition MountPath :: string where "MountPath = ''/etc/pii-shield''"
definition FilePath :: string where "FilePath = MountPath @ ''/'' @ policyKey"
definition VolumeName :: string where "VolumeName = ''pii-policy''"

definition ConfigMapName :: "string \<Rightarrow> string" where
  "ConfigMapName policyName = ''pii-shield-policy-'' @ policyName"

definition CheckName :: "string \<Rightarrow> bool" where
  "CheckName policyName \<longleftrightarrow> length (ConfigMapName policyName) \<le> 253"

record Rule =
  ru_Pattern :: string
  ru_Name :: string

record Document =
  doc_Revision :: string
  doc_EntropyThreshold :: real
  doc_ConfidenceThreshold :: real
  doc_MinSecretLength :: int
  doc_SensitiveKeys :: "string list"
  doc_SensitiveKeyPatterns :: "string list"
  doc_CustomRegexes :: "Rule list"
  doc_SafeRegexes :: "Rule list"
  doc_DisableBigramCheck :: "bool option"
  doc_AdaptiveThreshold :: "bool option"
  doc_EntityTypeLabels :: "bool option"

definition emptyDocument :: Document where
  "emptyDocument = \<lparr>doc_Revision = [], doc_EntropyThreshold = 0, doc_ConfidenceThreshold = 0, doc_MinSecretLength = 0,
     doc_SensitiveKeys = [], doc_SensitiveKeyPatterns = [], doc_CustomRegexes = [], doc_SafeRegexes = [],
     doc_DisableBigramCheck = None, doc_AdaptiveThreshold = None, doc_EntityTypeLabels = None\<rparr>"

record remoteFile =
  rf_Document :: Document
  rf_Salt :: string
  rf_FailPolicy :: string

datatype ValidationError = ReasonInvalidJSON | ReasonInvalidRegex | ReasonInvalidValue

definition checkRules :: "compiler \<Rightarrow> Rule list \<Rightarrow> bool" where
  "checkRules compile rules \<longleftrightarrow> list_all (\<lambda>r. ru_Pattern r \<noteq> [] \<and> compile (ru_Pattern r) \<noteq> None) rules"

text \<open>The document with its keys normalised, and the keys of the file that were ignored.\<close>

definition Parse ::
  "unicode_tables \<Rightarrow> compiler \<Rightarrow> remoteFile option \<Rightarrow> ValidationError + Document \<times> string list" where
  "Parse ut compile decoded =
    (case decoded of None \<Rightarrow> Inl ReasonInvalidJSON
     | Some f \<Rightarrow>
        let ignored = (if rf_Salt f \<noteq> [] then [''salt''] else []) @ (if rf_FailPolicy f \<noteq> [] then [''fail_policy''] else []);
            doc = rf_Document f;
            keys = map (\<lambda>k. ToLower ut (TrimSpace k)) (doc_SensitiveKeys doc);
            doc1 = (if doc_SensitiveKeys doc \<noteq> [] then doc\<lparr>doc_SensitiveKeys := keys\<rparr> else doc) in
        if doc_EntropyThreshold doc < 0 then Inl ReasonInvalidValue
        else if doc_ConfidenceThreshold doc < 0 then Inl ReasonInvalidValue
        else if doc_MinSecretLength doc < 0 \<or> doc_MinSecretLength doc > MaxMinSecretLength then Inl ReasonInvalidValue
        else if [] \<in> set keys then Inl ReasonInvalidValue
        else if \<not> list_all (\<lambda>p. compile p \<noteq> None) (doc_SensitiveKeyPatterns doc) then Inl ReasonInvalidRegex
        else if \<not> checkRules compile (doc_CustomRegexes doc) then Inl ReasonInvalidRegex
        else if \<not> checkRules compile (doc_SafeRegexes doc) then Inl ReasonInvalidRegex
        else Inr (doc1, ignored))"

definition rules :: "RegexRule list \<Rightarrow> Rule list" where
  "rules = map (\<lambda>r. \<lparr>ru_Pattern = rx_Pattern r, ru_Name = rx_Name r\<rparr>)"

definition Merge :: "Document \<Rightarrow> PiiPolicy \<Rightarrow> Document" where
  "Merge remote policy =
    (let spec = pol_Spec policy;
         d1 = (if sp_EntropyThreshold spec \<noteq> 0 then remote\<lparr>doc_EntropyThreshold := sp_EntropyThreshold spec\<rparr> else remote);
         d2 = (if sp_ConfidenceThreshold spec \<noteq> 0 then d1\<lparr>doc_ConfidenceThreshold := sp_ConfidenceThreshold spec\<rparr> else d1);
         d3 = (if sp_MinSecretLength spec > 0 then d2\<lparr>doc_MinSecretLength := sp_MinSecretLength spec\<rparr> else d2);
         d4 = (if sp_SensitiveKeys spec \<noteq> [] then d3\<lparr>doc_SensitiveKeys := sp_SensitiveKeys spec\<rparr> else d3);
         d5 = (if sp_SensitiveKeyPatterns spec \<noteq> [] then d4\<lparr>doc_SensitiveKeyPatterns := sp_SensitiveKeyPatterns spec\<rparr> else d4);
         d6 = (if sp_CustomRegexList spec \<noteq> [] then d5\<lparr>doc_CustomRegexes := rules (sp_CustomRegexList spec)\<rparr> else d5);
         d7 = (if sp_SafeRegexList spec \<noteq> [] then d6\<lparr>doc_SafeRegexes := rules (sp_SafeRegexList spec)\<rparr> else d6);
         gen = FormatInt (pol_Generation policy) in
     d7\<lparr>doc_Revision := (if doc_Revision remote \<noteq> [] then doc_Revision remote @ ''+'' @ gen else gen)\<rparr>)"

definition Local :: "PiiPolicy \<Rightarrow> Document" where
  "Local policy = Merge emptyDocument policy"

definition Render :: "(Document \<Rightarrow> string) \<Rightarrow> PiiPolicy \<Rightarrow> string option" where
  "Render Encode policy = (if CheckName (pol_Name policy) then Some (Encode (Local policy)) else None)"

subsection \<open>The file in the sidecar\<close>

definition fileRule :: "Rule \<Rightarrow> CustomRegexConfig" where
  "fileRule r = \<lparr>Pattern = ru_Pattern r, rc_Name = ru_Name r\<rparr>"

definition fileOf :: "Document \<Rightarrow> policyFile" where
  "fileOf d = \<lparr>sdk_EntropyThreshold = doc_EntropyThreshold d, sdk_Salt = [], sdk_ConfidenceThreshold = doc_ConfidenceThreshold d,
     sdk_FailPolicy = [], sdk_MinSecretLength = doc_MinSecretLength d, sdk_SensitiveKeys = doc_SensitiveKeys d,
     sdk_DisableBigramCheck = doc_DisableBigramCheck d, sdk_AdaptiveThreshold = doc_AdaptiveThreshold d,
     sdk_EntityTypeLabels = doc_EntityTypeLabels d, sdk_SensitiveKeyPatterns = doc_SensitiveKeyPatterns d,
     sdk_CustomRegexes = map fileRule (doc_CustomRegexes d), sdk_SafeRegexes = map fileRule (doc_SafeRegexes d),
     Revision = doc_Revision d\<rparr>"

text \<open>What both sides ask of a document, and what only the sidecar asks.\<close>

definition doc_ok :: "unicode_tables \<Rightarrow> compiler \<Rightarrow> Document \<Rightarrow> bool" where
  "doc_ok ut compile d \<longleftrightarrow> 0 \<le> doc_EntropyThreshold d \<and> 0 \<le> doc_ConfidenceThreshold d
     \<and> 0 \<le> doc_MinSecretLength d \<and> doc_MinSecretLength d \<le> MaxMinSecretLength
     \<and> [] \<notin> set (normalizeKeys ut (doc_SensitiveKeys d))
     \<and> list_all (\<lambda>p. compile p \<noteq> None) (doc_SensitiveKeyPatterns d)
     \<and> checkRules compile (doc_CustomRegexes d) \<and> checkRules compile (doc_SafeRegexes d)"

definition patterns_join :: "compiler \<Rightarrow> string list \<Rightarrow> bool" where
  "patterns_join compile ps \<longleftrightarrow> \<not> isl (compileSensitiveKeyPatterns compile (cleanPatterns ps))"

lemma Parse_ok: "(\<exists>r. Parse ut compile (Some f) = Inr r) \<longleftrightarrow> doc_ok ut compile (rf_Document f)"
  by (auto simp: Parse_def doc_ok_def Let_def normalizeKeys_def)

lemma thresholds_ok: "(\<exists>c'. policyThresholds (fileOf d) c = Inr c') \<longleftrightarrow>
  0 \<le> doc_EntropyThreshold d \<and> 0 \<le> doc_ConfidenceThreshold d \<and> 0 \<le> doc_MinSecretLength d \<and> doc_MinSecretLength d \<le> MaxMinSecretLength"
  by (auto simp: policyThresholds_def fileOf_def Let_def)

lemma keys_ok: "(\<exists>c'. policyKeys ut (fileOf d) c = Inr c') \<longleftrightarrow> [] \<notin> set (normalizeKeys ut (doc_SensitiveKeys d))"
  by (auto simp: policyKeys_def fileOf_def Let_def normalizeKeys_def)

lemma patterns_ok: "(\<exists>c'. policyPatterns compile (fileOf d) c = Inr c') \<longleftrightarrow>
  list_all (\<lambda>p. compile p \<noteq> None) (doc_SensitiveKeyPatterns d) \<and> patterns_join compile (doc_SensitiveKeyPatterns d)"
proof -
  have join: "patterns_join compile []" by (simp add: patterns_join_def compileSensitiveKeyPatterns_def cleanPatterns_def)
  show ?thesis
  proof (cases "list_all (\<lambda>p. compile p \<noteq> None) (doc_SensitiveKeyPatterns d)")
    case True
    then have "List.find (\<lambda>p. compile p = None) (doc_SensitiveKeyPatterns d) = None" by (auto simp: find_None_iff list_all_iff)
    then show ?thesis using True join by (auto simp: policyPatterns_def fileOf_def ApplySensitiveKeyPatterns_def patterns_join_def Let_def)
  next
    case False
    then obtain p where "List.find (\<lambda>p. compile p = None) (doc_SensitiveKeyPatterns d) = Some p"
      by (cases "List.find (\<lambda>p. compile p = None) (doc_SensitiveKeyPatterns d)") (auto simp: find_None_iff list_all_iff)
    then show ?thesis using False by (auto simp: policyPatterns_def fileOf_def)
  qed
qed

lemma rules_ok: "(\<exists>c'. policyRules compile (ApplyCustomRegexes compile) (map fileRule rs) c = Inr c') \<longleftrightarrow> checkRules compile rs"
  "(\<exists>c'. policyRules compile (ApplySafeRegexes compile) (map fileRule rs) c = Inr c') \<longleftrightarrow> checkRules compile rs"
proof -
  have check: "checkRegexRules compile 0 (map fileRule rs) = None \<longleftrightarrow> checkRules compile rs"
    by (auto simp: checkRegexRules_None checkRules_def fileRule_def list_all_iff)
  have "checkRules compile rs \<Longrightarrow> filter (\<lambda>r. compile (Pattern r) = None) (map fileRule rs) = []"
    by (auto simp: checkRules_def fileRule_def list_all_iff filter_empty_conv)
  then show "(\<exists>c'. policyRules compile (ApplyCustomRegexes compile) (map fileRule rs) c = Inr c') \<longleftrightarrow> checkRules compile rs"
    "(\<exists>c'. policyRules compile (ApplySafeRegexes compile) (map fileRule rs) c = Inr c') \<longleftrightarrow> checkRules compile rs"
    using check by (auto simp: policyRules_def ApplyCustomRegexes_def ApplySafeRegexes_def compileRegexRules_eq Let_def split: option.splits)
qed

lemma sidecar_ok:
  "(\<exists>r. ParsePolicyJSON ut compile (Some (fileOf d)) = Inr r)
    \<longleftrightarrow> doc_ok ut compile d \<and> patterns_join compile (doc_SensitiveKeyPatterns d)" (is "?lhs = ?rhs")
proof
  assume ?lhs
  then obtain c1 c2 c3 c4 c5 where "policyThresholds (fileOf d) (DefaultConfig ut) = Inr c1" "policyKeys ut (fileOf d) c1 = Inr c2"
    "policyPatterns compile (fileOf d) (sdkFlags (fileOf d) c2) = Inr c3"
    "policyRules compile (ApplyCustomRegexes compile) (map fileRule (doc_CustomRegexes d)) c3 = Inr c4"
    "policyRules compile (ApplySafeRegexes compile) (map fileRule (doc_SafeRegexes d)) c4 = Inr c5"
    by (auto simp: ParsePolicyJSON_def andThen_Inr fileOf_def)
  then show ?rhs unfolding doc_ok_def using thresholds_ok keys_ok patterns_ok rules_ok by metis
next
  assume rhs: ?rhs
  obtain c1 where c1: "policyThresholds (fileOf d) (DefaultConfig ut) = Inr c1" using rhs thresholds_ok unfolding doc_ok_def by metis
  obtain c2 where c2: "policyKeys ut (fileOf d) c1 = Inr c2" using rhs keys_ok unfolding doc_ok_def by metis
  obtain c3 where c3: "policyPatterns compile (fileOf d) (sdkFlags (fileOf d) c2) = Inr c3"
    using rhs patterns_ok unfolding doc_ok_def by metis
  obtain c4 where c4: "policyRules compile (ApplyCustomRegexes compile) (map fileRule (doc_CustomRegexes d)) c3 = Inr c4"
    using rhs rules_ok(1) unfolding doc_ok_def by metis
  obtain c5 where c5: "policyRules compile (ApplySafeRegexes compile) (map fileRule (doc_SafeRegexes d)) c4 = Inr c5"
    using rhs rules_ok(2) unfolding doc_ok_def by metis
  show ?lhs using c1 c2 c3 c4 c5 by (simp add: ParsePolicyJSON_def fileOf_def)
qed

text \<open>
  C33: The operator accepts a remote rules file exactly when the sidecar would, up to one test: the
  sidecar also compiles all key patterns joined into one expression. Every other rule, threshold
  and key is judged the same, so a file that the operator refuses no sidecar would have run.
\<close>

theorem operator_accepts_iff:
  "(\<exists>r. ParsePolicyJSON ut compile (Some (fileOf (rf_Document f))) = Inr r)
   \<longleftrightarrow> (\<exists>r. Parse ut compile (Some f) = Inr r) \<and> patterns_join compile (doc_SensitiveKeyPatterns (rf_Document f))"
  unfolding sidecar_ok Parse_ok ..

text \<open>The fields of a policy that the schema of the cluster does not check.\<close>

definition spec_ok :: "unicode_tables \<Rightarrow> compiler \<Rightarrow> PiiPolicySpec \<Rightarrow> bool" where
  "spec_ok ut compile s \<longleftrightarrow> 0 \<le> sp_EntropyThreshold s \<and> 0 \<le> sp_ConfidenceThreshold s \<and> sp_MinSecretLength s \<le> MaxMinSecretLength
     \<and> [] \<notin> set (normalizeKeys ut (sp_SensitiveKeys s))
     \<and> list_all (\<lambda>p. compile p \<noteq> None) (sp_SensitiveKeyPatterns s)
     \<and> checkRules compile (rules (sp_CustomRegexList s)) \<and> checkRules compile (rules (sp_SafeRegexList s))"

lemma Merge_fields:
  "doc_EntropyThreshold (Merge d p) = (if sp_EntropyThreshold (pol_Spec p) \<noteq> 0 then sp_EntropyThreshold (pol_Spec p) else doc_EntropyThreshold d)"
  "doc_ConfidenceThreshold (Merge d p)
    = (if sp_ConfidenceThreshold (pol_Spec p) \<noteq> 0 then sp_ConfidenceThreshold (pol_Spec p) else doc_ConfidenceThreshold d)"
  "doc_MinSecretLength (Merge d p) = (if sp_MinSecretLength (pol_Spec p) > 0 then sp_MinSecretLength (pol_Spec p) else doc_MinSecretLength d)"
  "doc_SensitiveKeys (Merge d p) = (if sp_SensitiveKeys (pol_Spec p) \<noteq> [] then sp_SensitiveKeys (pol_Spec p) else doc_SensitiveKeys d)"
  "doc_SensitiveKeyPatterns (Merge d p)
    = (if sp_SensitiveKeyPatterns (pol_Spec p) \<noteq> [] then sp_SensitiveKeyPatterns (pol_Spec p) else doc_SensitiveKeyPatterns d)"
  "doc_CustomRegexes (Merge d p) = (if sp_CustomRegexList (pol_Spec p) \<noteq> [] then rules (sp_CustomRegexList (pol_Spec p)) else doc_CustomRegexes d)"
  "doc_SafeRegexes (Merge d p) = (if sp_SafeRegexList (pol_Spec p) \<noteq> [] then rules (sp_SafeRegexList (pol_Spec p)) else doc_SafeRegexes d)"
  by (simp_all add: Merge_def Let_def)

lemma Merge_ok: "doc_ok ut compile d \<Longrightarrow> spec_ok ut compile (pol_Spec p) \<Longrightarrow> doc_ok ut compile (Merge d p)"
  by (simp add: doc_ok_def spec_ok_def Merge_fields)

lemma Parse_keeps: "Parse ut compile (Some f) = Inr (d, ign) \<Longrightarrow> doc_SensitiveKeyPatterns d = doc_SensitiveKeyPatterns (rf_Document f)"
  by (auto simp: Parse_def Let_def split: if_splits)


definition no_policy :: PiiPolicySpec where
  "no_policy = \<lparr>sp_FailPolicy = [], sp_ConfidenceThreshold = 0, sp_Salt = [], sp_SaltSecretKeyRef = None, sp_EntropyThreshold = 0,
     sp_MinSecretLength = 0, sp_SensitiveKeys = [], sp_SensitiveKeyPatterns = [], sp_CustomRegexList = [], sp_SafeRegexList = [],
     sp_InjectionMode = ''file'', sp_LogPath = [], sp_OriginalCommand = [], sp_Resources = [], sp_RemoteConfig = None,
     sp_AuditMode = False, sp_Stats = None\<rparr>"

definition policy_of :: "PiiPolicySpec \<Rightarrow> PiiPolicy" where
  "policy_of s = \<lparr>pol_Name = ''default'', pol_Namespace = ''shop'', pol_Generation = 3, pol_Spec = s, pol_Remote = None\<rparr>"

lemma emptyDocument_ok: "doc_ok ut compile emptyDocument"
  by (simp add: doc_ok_def emptyDocument_def MaxMinSecretLength_def normalizeKeys_def checkRules_def)


text \<open>
  C35: A policy can break the file it is rendered into: a minimum length above the limit of the scanner,
  which the schema of the cluster allows, makes the sidecar refuse the whole file, with every remote
  rule in it, although the operator renders it without an error.
\<close>

theorem rendered_file_refused:
  assumes "sp_MinSecretLength (pol_Spec p) > MaxMinSecretLength"
  shows "\<not> (\<exists>r. ParsePolicyJSON ut compile (Some (fileOf (Merge d p))) = Inr r)"
  using assms unfolding sidecar_ok by (simp add: doc_ok_def Merge_fields MaxMinSecretLength_def)

theorem rendered_file_refused_witness:
  "\<not> (\<exists>r. ParsePolicyJSON ascii_only (\<lambda>p. Some (literal_regexp p))
       (Some (fileOf (Merge emptyDocument (policy_of (no_policy\<lparr>sp_MinSecretLength := 2000\<rparr>))))) = Inr r)"
  by (rule rendered_file_refused) (simp add: policy_of_def MaxMinSecretLength_def)

end
