(* ===== verification/Signing.thy ===== *)
theory Signing
  imports PolicyFile Output
begin

text \<open>
  Signed publications: what a publisher signs (\<^verbatim>\<open>rules/internal/signing\<close>), what the rule server
  verifies, and what the operator checks on the file it pulled
  (\<^verbatim>\<open>operator/internal/remoterules/signature.go\<close>). SHA-256, base64 and Ed25519 are parameters.
\<close>

subsection \<open>The server side\<close>

record crypto =
  Sum256 :: "string \<Rightarrow> string"
  DecodeB64 :: "string \<Rightarrow> string option"
  EncodeB64 :: "string \<Rightarrow> string"
  EdVerify :: "string \<Rightarrow> string \<Rightarrow> string \<Rightarrow> bool"

definition hexString :: "string \<Rightarrow> string" where
  "hexString s = concat (map hexByte s)"

definition Header :: string where "Header = ''pii-shield-policy-signature-v1''"
definition KeyPrefix :: string where "KeyPrefix = ''ed25519:''"
definition PublicKeySize :: nat where "PublicKeySize = 32"
definition SignatureSize :: nat where "SignatureSize = 64"

record Statement =
  stm_Set :: string
  stm_Publication :: int
  stm_Revision :: int
  stm_SHA256 :: string

definition Text :: "Statement \<Rightarrow> string" where
  "Text s = Header @ [newline] @ ''set: '' @ stm_Set s @ [newline] @ ''publication: '' @ FormatInt (stm_Publication s) @ [newline]
     @ ''revision: '' @ FormatInt (stm_Revision s) @ [newline] @ ''sha256: '' @ stm_SHA256 s @ [newline]"

definition For :: "crypto \<Rightarrow> string \<Rightarrow> int \<Rightarrow> int \<Rightarrow> string \<Rightarrow> Statement" where
  "For cr set_name publication revision content =
    \<lparr>stm_Set = set_name, stm_Publication = publication, stm_Revision = revision, stm_SHA256 = hexString (Sum256 cr content)\<rparr>"

definition ParsePublicKey :: "crypto \<Rightarrow> string \<Rightarrow> string option" where
  "ParsePublicKey cr s0 = (let s = TrimSpace s0 in
     if \<not> HasPrefix s KeyPrefix then None
     else case DecodeB64 cr (TrimPrefix s KeyPrefix) of
       None \<Rightarrow> None | Some raw \<Rightarrow> if length raw \<noteq> PublicKeySize then None else Some raw)"

definition FormatPublicKey :: "crypto \<Rightarrow> string \<Rightarrow> string" where
  "FormatPublicKey cr k = KeyPrefix @ EncodeB64 cr k"

definition KeyID :: "crypto \<Rightarrow> string \<Rightarrow> string" where
  "KeyID cr k = hexString (take 8 (Sum256 cr k))"

text \<open>True when the signature verifies; the code returns \<^verbatim>\<open>ErrBadSignature\<close> otherwise.\<close>

definition Verify :: "crypto \<Rightarrow> string \<Rightarrow> Statement \<Rightarrow> string \<Rightarrow> bool" where
  "Verify cr k st sigB64 = (case DecodeB64 cr (TrimSpace sigB64) of
     None \<Rightarrow> False | Some sig \<Rightarrow> length sig = SignatureSize \<and> EdVerify cr k (Text st) sig)"

subsection \<open>The operator side\<close>

definition statementHeader :: string where "statementHeader = ''pii-shield-policy-signature-v1''"
definition keyPrefix :: string where "keyPrefix = ''ed25519:''"

record TrustedKey =
  tk_ID :: string
  tk_Key :: string

fun parseKeys :: "crypto \<Rightarrow> string list \<Rightarrow> TrustedKey list option" where
  "parseKeys cr [] = Some []"
| "parseKeys cr (s0 # ks) = (let s = TrimSpace s0 in
     if \<not> HasPrefix s keyPrefix then None
     else case DecodeB64 cr (TrimPrefix s keyPrefix) of
       None \<Rightarrow> None
     | Some raw \<Rightarrow> if length raw \<noteq> PublicKeySize then None
         else map_option (\<lambda>out. \<lparr>tk_ID = KeyID cr raw, tk_Key = raw\<rparr> # out) (parseKeys cr ks))"

definition ParseTrustedKeys :: "crypto \<Rightarrow> string list \<Rightarrow> TrustedKey list option" where
  "ParseTrustedKeys cr keys = (case parseKeys cr keys of None \<Rightarrow> None | Some out \<Rightarrow> if out = [] then None else Some out)"

text \<open>Of a URL only the path is used here; \<open>net_url\<close> is the parser and the printer of the standard library.\<close>

record URL =
  u_Path :: string
  u_RawPath :: string
  u_Rest :: string

record net_url =
  url_Parse :: "string \<Rightarrow> URL option"
  url_String :: "URL \<Rightarrow> string"

definition SignatureURL :: "net_url \<Rightarrow> string \<Rightarrow> string \<Rightarrow> string option" where
  "SignatureURL net fileURL explicit =
    (if explicit \<noteq> [] then Some explicit
     else case url_Parse net fileURL of
       None \<Rightarrow> None
     | Some u \<Rightarrow>
        let u1 = u\<lparr>u_Path := u_Path u @ ''.sig''\<rparr> in
        Some (url_String net (if u_RawPath u1 \<noteq> [] then u1\<lparr>u_RawPath := u_RawPath u1 @ ''.sig''\<rparr> else u1)))"

definition trimSlashes :: "string \<Rightarrow> string" where
  "trimSlashes s = rev (dropWhile (\<lambda>c. c = CHR ''/'') (rev (dropWhile (\<lambda>c. c = CHR ''/'') s)))"

definition ExpectedSet :: "net_url \<Rightarrow> string \<Rightarrow> string \<Rightarrow> string option" where
  "ExpectedSet net fileURL explicit =
    (if explicit \<noteq> [] then Some explicit
     else case url_Parse net fileURL of
       None \<Rightarrow> None
     | Some u \<Rightarrow>
        let parts = Split (trimSlashes (u_Path u)) CHR ''/''; n = length parts in
        if n \<ge> 4 \<and> parts ! (n - 4) = ''v1'' \<and> parts ! (n - 1) = ''policy.json''
        then Some (parts ! (n - 3) @ ''/'' @ parts ! (n - 2)) else None)"

record SignatureFile =
  sf_Set :: string
  sf_Publication :: int
  sf_Revision :: int
  sf_SHA256 :: string
  sf_KeyID :: string
  sf_Signature :: string

record Verified =
  vf_Publication :: int
  vf_KeyID :: string

datatype SignatureError = SignatureMissing | SignatureInvalid | SignatureUntrusted | SignatureReplayed

text \<open>The last of the keys with the id counts. \<open>decoded\<close> is what the JSON decoder makes of the signature file.\<close>

definition findKey :: "TrustedKey list \<Rightarrow> string \<Rightarrow> TrustedKey option" where
  "findKey keys i = fold (\<lambda>k found. if tk_ID k = i then Some k else found) keys None"

definition CheckSignature ::
  "crypto \<Rightarrow> SignatureFile option \<Rightarrow> string \<Rightarrow> string \<Rightarrow> TrustedKey list \<Rightarrow> int \<Rightarrow> SignatureError + Verified" where
  "CheckSignature cr decoded body set_name keys minPublication =
    (case decoded of None \<Rightarrow> Inl SignatureInvalid
     | Some sf \<Rightarrow>
        (case findKey keys (sf_KeyID sf) of None \<Rightarrow> Inl SignatureUntrusted
         | Some key \<Rightarrow>
            let text = statementHeader @ [newline] @ ''set: '' @ set_name @ [newline]
                  @ ''publication: '' @ FormatInt (sf_Publication sf) @ [newline]
                  @ ''revision: '' @ FormatInt (sf_Revision sf) @ [newline]
                  @ ''sha256: '' @ hexString (Sum256 cr body) @ [newline] in
            (case DecodeB64 cr (sf_Signature sf) of None \<Rightarrow> Inl SignatureInvalid
             | Some sig \<Rightarrow>
                if length sig \<noteq> SignatureSize \<or> \<not> EdVerify cr (tk_Key key) text sig then Inl SignatureInvalid
                else if sf_Publication sf < minPublication then Inl SignatureReplayed
                else Inr \<lparr>vf_Publication = sf_Publication sf, vf_KeyID = sf_KeyID sf\<rparr>)))"

subsection \<open>One signature, one statement\<close>

lemma hexString_no_newline [simp]: "newline \<notin> set (hexString s)"
  by (simp add: hexString_def)

lemma FormatInt_no_newline [simp]: "newline \<notin> set (FormatInt n)"
  by (rule FormatInt_plain) (simp_all add: isASCIIDigit_byte)

lemma Split_Text:
  assumes "newline \<notin> set (stm_Set s)" and "newline \<notin> set (stm_SHA256 s)"
  shows "Split (Text s) newline = [Header, ''set: '' @ stm_Set s, ''publication: '' @ FormatInt (stm_Publication s),
    ''revision: '' @ FormatInt (stm_Revision s), ''sha256: '' @ stm_SHA256 s, []]"
proof -
  have "Split (a @ newline # b @ newline # c @ newline # d @ newline # e @ [newline]) newline = [a, b, c, d, e, []]"
    if "newline \<notin> set a" "newline \<notin> set b" "newline \<notin> set c" "newline \<notin> set d" "newline \<notin> set e" for a b c d e
    using that by (simp add: Split_line)
  from this [of Header "''set: '' @ stm_Set s" "''publication: '' @ FormatInt (stm_Publication s)"
      "''revision: '' @ FormatInt (stm_Revision s)" "''sha256: '' @ stm_SHA256 s"] assms
  show ?thesis by (simp add: Text_def Header_def)
qed


lemma findKey_id: "findKey keys i = Some k \<Longrightarrow> k \<in> set keys \<and> tk_ID k = i"
  unfolding findKey_def by (induction keys rule: rev_induct) (auto split: if_splits)

lemma operator_text: "statementHeader @ [newline] @ ''set: '' @ set_name @ [newline]
    @ ''publication: '' @ FormatInt p @ [newline] @ ''revision: '' @ FormatInt r @ [newline]
    @ ''sha256: '' @ hexString (Sum256 cr body) @ [newline] = Text (For cr set_name p r body)"
  by (simp add: Text_def For_def Header_def statementHeader_def)

text \<open>
  C36: The operator accepts a file only with a good signature: what it accepts was signed, with a
  key it trusts, as a statement of the server for exactly the set it expects and the bytes it
  pulled, with a publication number at least the one it accepted last; everything the signature file
  itself claims about set and hash is ignored.
\<close>

theorem accepted_is_signed:
  assumes "CheckSignature cr (Some sf) body set_name keys minPublication = Inr v"
  shows "vf_Publication v \<ge> minPublication
    \<and> (\<exists>k \<in> set keys. tk_ID k = vf_KeyID v \<and> (\<exists>sig. DecodeB64 cr (sf_Signature sf) = Some sig \<and> length sig = SignatureSize
        \<and> EdVerify cr (tk_Key k) (Text (For cr set_name (vf_Publication v) (sf_Revision sf) body)) sig))"
proof -
  obtain k where k: "findKey keys (sf_KeyID sf) = Some k"
    using assms by (auto simp: CheckSignature_def split: option.splits)
  from findKey_id [OF k] show ?thesis
    using assms unfolding CheckSignature_def Let_def operator_text by (auto simp: k split: option.splits if_splits)
qed

text \<open>A toy signature: the key twice.\<close>

definition toy_crypto :: crypto where
  "toy_crypto = \<lparr>Sum256 = (\<lambda>s. take 32 (s @ replicate 32 CHR ''0'')), DecodeB64 = (\<lambda>s. if CHR '' '' \<in> set s then None else Some s),
     EncodeB64 = (\<lambda>s. s), EdVerify = (\<lambda>k m s. s = k @ k \<and> m \<noteq> [])\<rparr>"

definition toy_key :: string where
  "toy_key = replicate 32 CHR ''k''"

definition toy_file :: SignatureFile where
  "toy_file = \<lparr>sf_Set = ''other'', sf_Publication = 4, sf_Revision = 2, sf_SHA256 = [], sf_KeyID = KeyID toy_crypto toy_key,
     sf_Signature = toy_key @ toy_key\<rparr>"

lemma toy_accepted:
  "CheckSignature toy_crypto (Some toy_file) ''{}'' ''shop/web'' [\<lparr>tk_ID = KeyID toy_crypto toy_key, tk_Key = toy_key\<rparr>] 3
    = Inr \<lparr>vf_Publication = 4, vf_KeyID = KeyID toy_crypto toy_key\<rparr>"
  by (simp add: CheckSignature_def findKey_def toy_file_def toy_crypto_def toy_key_def SignatureSize_def)

theorem accepted_is_signed_witness:
  "(3 :: int) \<le> 4 \<and> EdVerify toy_crypto toy_key (Text (For toy_crypto ''shop/web'' 4 2 ''{}'')) (toy_key @ toy_key)"
proof -
  have "DecodeB64 toy_crypto (sf_Signature toy_file) = Some (toy_key @ toy_key)" by (simp add: toy_crypto_def toy_file_def toy_key_def)
  then show ?thesis using accepted_is_signed [OF toy_accepted] by (auto simp: toy_file_def)
qed


text \<open>
  The server trims a signature before it decodes it and the operator does not: a signature with a
  blank at its end is stored and served, and no cluster accepts it.
\<close>

lemma trimmed_signature_refused:
  assumes "DecodeB64 cr sig = None" and "sf_Signature sf = sig"
  shows "\<exists>e. CheckSignature cr (Some sf) body set_name keys minPublication = Inl e"
  using assms by (auto simp: CheckSignature_def Let_def split: option.splits)

end
