(* ===== verification/RuleStore.thy ===== *)
theory RuleStore
  imports Signing
begin

text \<open>
  The store of the rule server (\<^verbatim>\<open>rules/internal/store\<close>: organisations, rule sets, versions,
  publications, tokens and signing keys). A table is the list of its rows in the order of insertion,
  a statement is a function on the tables, and a transaction that fails changes nothing. Ids are given
  as SQLite gives them, one above the largest. Times are texts and the time of an operation is an
  argument.
\<close>

subsection \<open>Tables\<close>

record Org =
  org_ID :: int
  org_Slug :: string
  org_Name :: string
  org_CreatedAt :: string

record RuleSet =
  set_ID :: int
  set_OrgID :: int
  set_Slug :: string
  set_Name :: string
  set_Published :: "int option"
  set_CreatedAt :: string

record Version =
  ver_ID :: int
  ver_SetID :: int
  ver_Revision :: int
  ver_Content :: string
  ver_ETag :: string
  ver_Author :: string
  ver_Comment :: string
  ver_CreatedAt :: string

record Token =
  tok_ID :: int
  tok_SetID :: int
  tok_Name :: string
  tok_Kind :: string
  tok_Prefix :: string
  tok_Hash :: string
  tok_CreatedAt :: string
  tok_RevokedAt :: "string option"

record Publication =
  pub_ID :: int
  pub_SetID :: int
  pub_Seq :: int
  pub_VersionID :: int
  pub_Author :: string
  pub_KeyID :: string
  pub_Signature :: string
  pub_At :: string

record SigningKey =
  sk_ID :: int
  sk_OrgID :: int
  sk_KeyID :: string
  sk_Name :: string
  sk_PublicKey :: string
  sk_CreatedBy :: string
  sk_CreatedAt :: string
  sk_RevokedAt :: "string option"

record store =
  orgs :: "Org list"
  rule_sets :: "RuleSet list"
  versions :: "Version list"
  tokens :: "Token list"
  publications :: "Publication list"
  signing_keys :: "SigningKey list"

definition emptyStore :: store where
  "emptyStore = \<lparr>orgs = [], rule_sets = [], versions = [], tokens = [], publications = [], signing_keys = []\<rparr>"

datatype store_error =
    ErrNotFound | ErrExists | ErrInvalidSlug | ErrNotPublished | ErrTokenRevoked | ErrStale | ErrInvalidKind
  | ErrUnique | ErrForeignKey | ErrBadSignature | ErrValidation | ErrInvalidEmail | ErrExpired | ErrNoSlug | ErrPanic

text \<open>\<^verbatim>\<open>COALESCE(MAX(column), 0) + 1\<close>, also the next id.\<close>

definition nextOf :: "('a \<Rightarrow> int) \<Rightarrow> 'a list \<Rightarrow> int" where
  "nextOf f rows = foldr (\<lambda>r m. max (f r) m) rows 0 + 1"

definition lookup :: "('a \<Rightarrow> bool) \<Rightarrow> 'a list \<Rightarrow> store_error + 'a" where
  "lookup p rows = (case List.find p rows of None \<Rightarrow> Inl ErrNotFound | Some r \<Rightarrow> Inr r)"

subsection \<open>Organisations and sets\<close>

definition isSlugChar :: "char \<Rightarrow> bool" where
  "isSlugChar c \<longleftrightarrow> isLowerASCII c \<or> isASCIIDigit c"

definition CheckSlug :: "string \<Rightarrow> bool" where
  "CheckSlug s \<longleftrightarrow> s \<noteq> [] \<and> length s \<le> 63 \<and> isSlugChar (hd s) \<and> list_all (\<lambda>c. isSlugChar c \<or> c = CHR ''-'') (tl s)"

definition CreateOrg :: "string \<Rightarrow> string \<Rightarrow> string \<Rightarrow> store \<Rightarrow> store_error + store \<times> Org" where
  "CreateOrg slug name tm s =
    (if \<not> CheckSlug slug then Inl ErrInvalidSlug
     else if \<exists>o' \<in> set (orgs s). org_Slug o' = slug then Inl ErrExists
     else let org = \<lparr>org_ID = nextOf org_ID (orgs s), org_Slug = slug, org_Name = (if name = [] then slug else name), org_CreatedAt = tm\<rparr> in
       Inr (s\<lparr>orgs := orgs s @ [org]\<rparr>, org))"

definition GetOrg :: "string \<Rightarrow> store \<Rightarrow> store_error + Org" where
  "GetOrg slug s = lookup (\<lambda>o'. org_Slug o' = slug) (orgs s)"

definition GetOrgByID :: "int \<Rightarrow> store \<Rightarrow> store_error + Org" where
  "GetOrgByID i s = lookup (\<lambda>o'. org_ID o' = i) (orgs s)"

definition GetSet :: "int \<Rightarrow> string \<Rightarrow> store \<Rightarrow> store_error + RuleSet" where
  "GetSet orgID slug s = lookup (\<lambda>r. set_OrgID r = orgID \<and> set_Slug r = slug) (rule_sets s)"

definition GetSetByID :: "int \<Rightarrow> store \<Rightarrow> store_error + RuleSet" where
  "GetSetByID i s = lookup (\<lambda>r. set_ID r = i) (rule_sets s)"

definition CreateSet :: "int \<Rightarrow> string \<Rightarrow> string \<Rightarrow> string \<Rightarrow> store \<Rightarrow> store_error + store \<times> RuleSet" where
  "CreateSet orgID slug name tm s =
    (if \<not> CheckSlug slug then Inl ErrInvalidSlug
     else if \<exists>r \<in> set (rule_sets s). set_OrgID r = orgID \<and> set_Slug r = slug then Inl ErrExists
     else if \<not> (\<exists>o' \<in> set (orgs s). org_ID o' = orgID) then Inl ErrForeignKey
     else let rs = \<lparr>set_ID = nextOf set_ID (rule_sets s), set_OrgID = orgID, set_Slug = slug,
            set_Name = (if name = [] then slug else name), set_Published = None, set_CreatedAt = tm\<rparr> in
       Inr (s\<lparr>rule_sets := rule_sets s @ [rs]\<rparr>, rs))"

subsection \<open>Versions\<close>

definition versionsOf :: "int \<Rightarrow> store \<Rightarrow> Version list" where
  "versionsOf setID s = filter (\<lambda>v. ver_SetID v = setID) (versions s)"

definition createVersion ::
  "int \<Rightarrow> string \<Rightarrow> string \<Rightarrow> (int \<Rightarrow> store_error + string \<times> string) \<Rightarrow> string \<Rightarrow> store \<Rightarrow> store_error + store \<times> Version" where
  "createVersion setID author comment canonical tm s =
    (if \<not> (\<exists>r \<in> set (rule_sets s). set_ID r = setID) then Inl ErrNotFound
     else let revision = nextOf ver_Revision (versionsOf setID s) in
       andThen (canonical revision) (\<lambda>(content, etag).
         if \<exists>v \<in> set (versions s). ver_SetID v = setID \<and> ver_Revision v = revision then Inl ErrUnique
         else let v = \<lparr>ver_ID = nextOf ver_ID (versions s), ver_SetID = setID, ver_Revision = revision, ver_Content = content,
                ver_ETag = etag, ver_Author = author, ver_Comment = comment, ver_CreatedAt = tm\<rparr> in
           Inr (s\<lparr>versions := versions s @ [v]\<rparr>, v)))"

definition maxRaceRetries :: nat where "maxRaceRetries = 5"

fun createVersionLoop ::
  "nat \<Rightarrow> int \<Rightarrow> string \<Rightarrow> string \<Rightarrow> (int \<Rightarrow> store_error + string \<times> string) \<Rightarrow> string \<Rightarrow> store \<Rightarrow> store_error + store \<times> Version" where
  "createVersionLoop 0 setID author comment canonical tm s = createVersion setID author comment canonical tm s"
| "createVersionLoop (Suc n) setID author comment canonical tm s =
    (case createVersion setID author comment canonical tm s of
       Inl ErrUnique \<Rightarrow> createVersionLoop n setID author comment canonical tm s
     | r \<Rightarrow> r)"

definition CreateVersion ::
  "int \<Rightarrow> string \<Rightarrow> string \<Rightarrow> (int \<Rightarrow> store_error + string \<times> string) \<Rightarrow> string \<Rightarrow> store \<Rightarrow> store_error + store \<times> Version" where
  "CreateVersion = createVersionLoop maxRaceRetries"

definition GetVersion :: "int \<Rightarrow> int \<Rightarrow> store \<Rightarrow> store_error + Version" where
  "GetVersion setID revision s = lookup (\<lambda>v. ver_SetID v = setID \<and> ver_Revision v = revision) (versions s)"

definition ListVersions :: "int \<Rightarrow> store \<Rightarrow> Version list" where
  "ListVersions setID s = rev (sort_key ver_Revision (versionsOf setID s))"

subsection \<open>Publications\<close>

record PublishRequest =
  req_Revision :: int
  req_Author :: string
  req_Seq :: int
  req_KeyID :: string
  req_Signature :: string

definition publicationsOf :: "int \<Rightarrow> store \<Rightarrow> Publication list" where
  "publicationsOf setID s = filter (\<lambda>p. pub_SetID p = setID) (publications s)"

definition NextPublication :: "int \<Rightarrow> store \<Rightarrow> int" where
  "NextPublication setID s = nextOf pub_Seq (publicationsOf setID s)"

definition publish ::
  "int \<Rightarrow> PublishRequest \<Rightarrow> (int \<Rightarrow> Version \<Rightarrow> store_error option) \<Rightarrow> string \<Rightarrow> store \<Rightarrow> store_error + store \<times> Publication" where
  "publish setID req Check tm s =
    andThen (GetVersion setID (req_Revision req) s) (\<lambda>v.
      let seq = NextPublication setID s in
      if req_Seq req \<noteq> 0 \<and> req_Seq req \<noteq> seq then Inl ErrStale
      else case Check seq v of
        Some e \<Rightarrow> Inl e
      | None \<Rightarrow>
         let p = \<lparr>pub_ID = nextOf pub_ID (publications s), pub_SetID = setID, pub_Seq = seq, pub_VersionID = ver_ID v,
               pub_Author = req_Author req, pub_KeyID = req_KeyID req, pub_Signature = req_Signature req, pub_At = tm\<rparr> in
         if \<exists>q \<in> set (publications s). pub_SetID q = setID \<and> pub_Seq q = seq then Inl ErrStale
         else Inr (s\<lparr>rule_sets := map (\<lambda>r. if set_ID r = setID then r\<lparr>set_Published := Some (ver_ID v)\<rparr> else r) (rule_sets s),
                     publications := publications s @ [p]\<rparr>, p))"

fun publishLoop ::
  "nat \<Rightarrow> int \<Rightarrow> PublishRequest \<Rightarrow> (int \<Rightarrow> Version \<Rightarrow> store_error option) \<Rightarrow> string \<Rightarrow> store \<Rightarrow> store_error + store \<times> Publication" where
  "publishLoop 0 setID req Check tm s = publish setID req Check tm s"
| "publishLoop (Suc n) setID req Check tm s =
    (case publish setID req Check tm s of
       Inl e \<Rightarrow> if e = ErrStale \<and> req_Seq req = 0 then publishLoop n setID req Check tm s else Inl e
     | Inr r \<Rightarrow> Inr r)"

definition Publish ::
  "int \<Rightarrow> PublishRequest \<Rightarrow> (int \<Rightarrow> Version \<Rightarrow> store_error option) \<Rightarrow> string \<Rightarrow> store \<Rightarrow> store_error + store \<times> Publication" where
  "Publish = publishLoop maxRaceRetries"

definition versionByID :: "int \<Rightarrow> store \<Rightarrow> store_error + Version" where
  "versionByID i s = lookup (\<lambda>v. ver_ID v = i) (versions s)"

text \<open>The newest publication of a set, joined with its version.\<close>

definition Publications :: "int \<Rightarrow> store \<Rightarrow> (Publication \<times> Version) list" where
  "Publications setID s = concat (map (\<lambda>p. map (\<lambda>v. (p, v)) (filter (\<lambda>v. ver_ID v = pub_VersionID p) (versions s)))
     (rev (sort_key pub_Seq (publicationsOf setID s))))"

definition LatestPublication :: "int \<Rightarrow> store \<Rightarrow> store_error + Publication \<times> Version" where
  "LatestPublication setID s = (case Publications setID s of [] \<Rightarrow> Inl ErrNotPublished | pv # _ \<Rightarrow> Inr pv)"

definition Published :: "int \<Rightarrow> store \<Rightarrow> store_error + Version" where
  "Published setID s =
    (case List.find (\<lambda>r. set_ID r = setID) (rule_sets s) of
       None \<Rightarrow> Inl ErrNotPublished
     | Some r \<Rightarrow> (case set_Published r of None \<Rightarrow> Inl ErrNotPublished
         | Some i \<Rightarrow> (case versionByID i s of Inl _ \<Rightarrow> Inl ErrNotPublished | Inr v \<Rightarrow> Inr v)))"

subsection \<open>Tokens and keys\<close>

definition KindPull :: string where "KindPull = ''pull''"
definition KindReport :: string where "KindReport = ''report''"
definition TokenPrefix :: string where "TokenPrefix = ''psr_''"
definition ReportTokenPrefix :: string where "ReportTokenPrefix = ''pss_''"

definition HashToken :: "crypto \<Rightarrow> string \<Rightarrow> string" where
  "HashToken cr v = hexString (Sum256 cr v)"

text \<open>\<open>raw\<close> is the 24 random bytes of the value.\<close>

definition CreateToken ::
  "crypto \<Rightarrow> int \<Rightarrow> string \<Rightarrow> string \<Rightarrow> string \<Rightarrow> string \<Rightarrow> store \<Rightarrow> store_error + store \<times> Token \<times> string" where
  "CreateToken cr setID name kind0 raw tm s =
    (let kind = (if kind0 = [] then KindPull else kind0) in
     if kind \<noteq> KindPull \<and> kind \<noteq> KindReport then Inl ErrInvalidKind
     else andThen (GetSetByID setID s) (\<lambda>_.
       let tp = (if kind = KindPull then TokenPrefix else ReportTokenPrefix); val = tp @ hexString raw in
       if \<exists>t \<in> set (tokens s). tok_Hash t = HashToken cr val then Inl ErrUnique
       else let t = \<lparr>tok_ID = nextOf tok_ID (tokens s), tok_SetID = setID, tok_Name = name, tok_Kind = kind,
              tok_Prefix = take (length tp + 8) val, tok_Hash = HashToken cr val, tok_CreatedAt = tm, tok_RevokedAt = None\<rparr> in
         Inr (s\<lparr>tokens := tokens s @ [t]\<rparr>, t, val)))"

definition RevokeToken :: "int \<Rightarrow> int \<Rightarrow> string \<Rightarrow> store \<Rightarrow> store_error + store" where
  "RevokeToken setID tokenID tm s =
    (if \<exists>t \<in> set (tokens s). tok_ID t = tokenID \<and> tok_SetID t = setID
     then Inr (s\<lparr>tokens := map (\<lambda>t. if tok_ID t = tokenID \<and> tok_SetID t = setID
            then t\<lparr>tok_RevokedAt := Some (case tok_RevokedAt t of None \<Rightarrow> tm | Some a \<Rightarrow> a)\<rparr> else t) (tokens s)\<rparr>)
     else Inl ErrNotFound)"

definition Authenticate :: "crypto \<Rightarrow> string \<Rightarrow> store \<Rightarrow> store_error + Token \<times> RuleSet \<times> Org" where
  "Authenticate cr val s =
    andThen (lookup (\<lambda>t. tok_Hash t = HashToken cr val) (tokens s)) (\<lambda>t.
      if tok_RevokedAt t \<noteq> None then Inl ErrTokenRevoked
      else andThen (GetSetByID (tok_SetID t) s) (\<lambda>rs. andThen (GetOrgByID (set_OrgID rs) s) (\<lambda>org. Inr (t, rs, org))))"

definition AddSigningKey ::
  "int \<Rightarrow> string \<Rightarrow> string \<Rightarrow> string \<Rightarrow> string \<Rightarrow> string \<Rightarrow> store \<Rightarrow> store_error + store \<times> SigningKey" where
  "AddSigningKey orgID keyID name publicKey createdBy tm s =
    (if \<exists>k \<in> set (signing_keys s). sk_OrgID k = orgID \<and> sk_KeyID k = keyID then Inl ErrExists
     else if \<not> (\<exists>o' \<in> set (orgs s). org_ID o' = orgID) then Inl ErrForeignKey
     else let k = \<lparr>sk_ID = nextOf sk_ID (signing_keys s), sk_OrgID = orgID, sk_KeyID = keyID, sk_Name = name, sk_PublicKey = publicKey,
            sk_CreatedBy = createdBy, sk_CreatedAt = tm, sk_RevokedAt = None\<rparr> in
       Inr (s\<lparr>signing_keys := signing_keys s @ [k]\<rparr>, k))"

definition ActiveSigningKey :: "int \<Rightarrow> string \<Rightarrow> store \<Rightarrow> store_error + SigningKey" where
  "ActiveSigningKey orgID keyID s =
    lookup (\<lambda>k. sk_OrgID k = orgID \<and> sk_KeyID k = keyID \<and> sk_RevokedAt k = None) (signing_keys s)"

definition HasSigningKeys :: "int \<Rightarrow> store \<Rightarrow> bool" where
  "HasSigningKeys orgID s \<longleftrightarrow> (\<exists>k \<in> set (signing_keys s). sk_OrgID k = orgID \<and> sk_RevokedAt k = None)"

definition RevokeSigningKey :: "int \<Rightarrow> int \<Rightarrow> string \<Rightarrow> store \<Rightarrow> store_error + store" where
  "RevokeSigningKey orgID i tm s =
    (if \<exists>k \<in> set (signing_keys s). sk_ID k = i \<and> sk_OrgID k = orgID
     then Inr (s\<lparr>signing_keys := map (\<lambda>k. if sk_ID k = i \<and> sk_OrgID k = orgID
            then k\<lparr>sk_RevokedAt := Some (case sk_RevokedAt k of None \<Rightarrow> tm | Some a \<Rightarrow> a)\<rparr> else k) (signing_keys s)\<rparr>)
     else Inl ErrNotFound)"

subsection \<open>Runs of the store\<close>

text \<open>One successful statement; a failed one leaves the tables as they are.\<close>

inductive store_step :: "crypto \<Rightarrow> store \<Rightarrow> store \<Rightarrow> bool" for cr where
  create_org: "CreateOrg slug name tm s = Inr (s', org) \<Longrightarrow> store_step cr s s'"
| create_set: "CreateSet orgID slug name tm s = Inr (s', rs) \<Longrightarrow> store_step cr s s'"
| create_version: "CreateVersion setID author comment canonical tm s = Inr (s', v) \<Longrightarrow> store_step cr s s'"
| publish_version: "Publish setID req Check tm s = Inr (s', p) \<Longrightarrow> store_step cr s s'"
| create_token: "CreateToken cr setID name kind raw tm s = Inr (s', t, val) \<Longrightarrow> store_step cr s s'"
| revoke_token: "RevokeToken setID tokenID tm s = Inr s' \<Longrightarrow> store_step cr s s'"
| add_key: "AddSigningKey orgID keyID name publicKey createdBy tm s = Inr (s', k) \<Longrightarrow> store_step cr s s'"
| revoke_key: "RevokeSigningKey orgID kid tm s = Inr s' \<Longrightarrow> store_step cr s s'"

definition reach :: "crypto \<Rightarrow> store \<Rightarrow> store \<Rightarrow> bool" where
  "reach cr = (store_step cr)\<^sup>*\<^sup>*"

text \<open>What every run keeps.\<close>

definition numbered :: "('a \<Rightarrow> int) \<Rightarrow> 'a list \<Rightarrow> bool" where
  "numbered f rows \<longleftrightarrow> map f rows = map int [1 ..< Suc (length rows)]"

definition store_ok :: "store \<Rightarrow> bool" where
  "store_ok s \<longleftrightarrow> distinct (map set_ID (rule_sets s)) \<and> distinct (map ver_ID (versions s)) \<and> distinct (map tok_Hash (tokens s))
     \<and> (\<forall>i. numbered ver_Revision (versionsOf i s)) \<and> (\<forall>i. numbered pub_Seq (publicationsOf i s))
     \<and> (\<forall>v \<in> set (versions s). ver_SetID v \<in> set_ID ` set (rule_sets s))
     \<and> (\<forall>p \<in> set (publications s). \<exists>v \<in> set (versions s). ver_ID v = pub_VersionID p \<and> ver_SetID v = pub_SetID p)
     \<and> (\<forall>r \<in> set (rule_sets s). set_Published r
          = (if publicationsOf (set_ID r) s = [] then None else Some (pub_VersionID (last (publicationsOf (set_ID r) s)))))"

lemma nextOf_greater: "r \<in> set rows \<Longrightarrow> f r < nextOf f rows"
  unfolding nextOf_def by (induction rows) auto

lemma nextOf_fresh: "nextOf f rows \<notin> f ` set rows"
  using nextOf_greater [of _ rows f] by (metis imageE less_irrefl)

lemma foldr_max: "foldr (\<lambda>r m. max (f r) m) rows 0 = Max (insert (0 :: int) (f ` set rows))"
proof (induction rows)
  case (Cons r rows)
  have "Max (insert 0 (f ` set (r # rows))) = max (f r) (Max (insert 0 (f ` set rows)))"
    using Max_insert [of "insert 0 (f ` set rows)" "f r"] by (simp add: insert_commute)
  then show ?case using Cons by simp
qed simp

lemma nextOf_numbered: "numbered f rows \<Longrightarrow> nextOf f rows = int (length rows) + 1"
proof -
  assume "numbered f rows"
  then have "f ` set rows = int ` {1 ..< Suc (length rows)}" by (metis numbered_def list.set_map set_upt)
  moreover have "Max (insert 0 (int ` {1 ..< Suc n})) = int n" for n by (rule Max_eqI) auto
  ultimately show ?thesis by (simp add: nextOf_def foldr_max)
qed

lemma numbered_sorted: "numbered f rows \<Longrightarrow> sorted (map f rows)"
  unfolding numbered_def by (simp only: sorted_map) (auto simp del: upt_Suc intro: sorted_wrt_mono_rel [OF _ sorted_upt])

lemma numbered_snoc: "numbered f rows \<Longrightarrow> f r = nextOf f rows \<Longrightarrow> numbered f (rows @ [r])"
  using nextOf_numbered [of f rows] by (simp add: numbered_def)

lemma lookup_Inr: "lookup p rows = Inr r \<Longrightarrow> r \<in> set rows \<and> p r"
  by (auto simp: lookup_def find_Some_iff split: option.splits)

lemma find_filter: "List.find p xs = (case filter p xs of [] \<Rightarrow> None | x # _ \<Rightarrow> Some x)"
  by (induction xs) auto

lemma filter_distinct: "distinct (map f xs) \<Longrightarrow> v \<in> set xs \<Longrightarrow> f v = y \<Longrightarrow> filter (\<lambda>x. f x = y) xs = [v]"
  by (induction xs) (auto simp: filter_empty_conv image_iff)

lemma find_Some_of:
  assumes "y \<in> f ` set xs"
  shows "\<exists>r. List.find (\<lambda>x. f x = y) xs = Some r \<and> r \<in> set xs \<and> f r = y"
  using assms by (induction xs) auto

lemma createVersionLoop_cases: "createVersionLoop n setID author comment canonical tm s = createVersion setID author comment canonical tm s"
  by (induction n) (auto split: sum.splits store_error.splits)

lemma publishLoop_cases: "publishLoop n setID req Check tm s = publish setID req Check tm s"
  by (induction n) (auto split: sum.splits)

lemma store_ok_empty: "store_ok emptyStore"
  by (simp add: store_ok_def emptyStore_def numbered_def versionsOf_def publicationsOf_def)

lemma store_ok_frame:
  "store_ok s \<Longrightarrow> rule_sets s' = rule_sets s \<Longrightarrow> versions s' = versions s \<Longrightarrow> publications s' = publications s
    \<Longrightarrow> distinct (map tok_Hash (tokens s')) \<Longrightarrow> store_ok s'"
  by (simp add: store_ok_def versionsOf_def publicationsOf_def)

lemma publicationsOf_known:
  assumes "store_ok s" and "publicationsOf i s \<noteq> []"
  shows "i \<in> set_ID ` set (rule_sets s)"
proof -
  obtain p where "p \<in> set (publications s)" "pub_SetID p = i"
    using assms(2) by (auto simp: publicationsOf_def filter_empty_conv)
  then obtain v where "v \<in> set (versions s)" "ver_SetID v = i" using assms(1) by (auto simp: store_ok_def)
  then show ?thesis using assms(1) by (auto simp: store_ok_def)
qed

lemma store_ok_CreateSet: "CreateSet orgID slug name tm s = Inr (s', rs) \<Longrightarrow> store_ok s \<Longrightarrow> store_ok s'"
proof -
  assume run: "CreateSet orgID slug name tm s = Inr (s', rs)" and ok: "store_ok s"
  have s': "s' = s\<lparr>rule_sets := rule_sets s @ [rs]\<rparr>" and rs: "set_ID rs = nextOf set_ID (rule_sets s)" "set_Published rs = None"
    using run by (auto simp: CreateSet_def Let_def split: if_splits)
  have fresh: "set_ID rs \<notin> set_ID ` set (rule_sets s)" unfolding rs(1) by (rule nextOf_fresh)
  then have "publicationsOf (set_ID rs) s = []" using publicationsOf_known [OF ok] by blast
  then show ?thesis using ok fresh rs(2) by (auto simp: store_ok_def s' versionsOf_def publicationsOf_def)
qed

lemma store_ok_createVersion: "createVersion setID author comment canonical tm s = Inr (s', v) \<Longrightarrow> store_ok s \<Longrightarrow> store_ok s'"
proof -
  assume run: "createVersion setID author comment canonical tm s = Inr (s', v)" and ok: "store_ok s"
  have s': "s' = s\<lparr>versions := versions s @ [v]\<rparr>" and v: "ver_ID v = nextOf ver_ID (versions s)" "ver_SetID v = setID"
    "ver_Revision v = nextOf ver_Revision (versionsOf setID s)" and r: "setID \<in> set_ID ` set (rule_sets s)"
    using run by (auto simp: createVersion_def Let_def andThen_Inr split: if_splits)
  have "ver_ID v \<notin> ver_ID ` set (versions s)" unfolding v(1) by (rule nextOf_fresh)
  moreover have "numbered ver_Revision (versionsOf i s')" for i
    using ok numbered_snoc [of ver_Revision "versionsOf setID s" v] v by (auto simp: store_ok_def s' versionsOf_def)
  ultimately show ?thesis using ok v r by (auto simp: store_ok_def s' publicationsOf_def)
qed

lemma publish_Inr:
  assumes "publish setID req Check tm s = Inr (s', p)"
  obtains v where "GetVersion setID (req_Revision req) s = Inr v" "Check (NextPublication setID s) v = None"
    "req_Seq req = 0 \<or> req_Seq req = NextPublication setID s"
    "pub_SetID p = setID" "pub_Seq p = NextPublication setID s" "pub_VersionID p = ver_ID v"
    "pub_KeyID p = req_KeyID req" "pub_Signature p = req_Signature req"
    "s' = s\<lparr>rule_sets := map (\<lambda>r. if set_ID r = setID then r\<lparr>set_Published := Some (ver_ID v)\<rparr> else r) (rule_sets s),
            publications := publications s @ [p]\<rparr>"
  using assms by (auto simp: publish_def Let_def andThen_Inr split: if_splits option.splits)

lemma store_ok_publish: "publish setID req Check tm s = Inr (s', p) \<Longrightarrow> store_ok s \<Longrightarrow> store_ok s'"
proof (erule publish_Inr)
  fix v
  assume ok: "store_ok s" and v: "GetVersion setID (req_Revision req) s = Inr v" and p: "pub_SetID p = setID"
    "pub_Seq p = NextPublication setID s" "pub_VersionID p = ver_ID v"
    and s': "s' = s\<lparr>rule_sets := map (\<lambda>r. if set_ID r = setID then r\<lparr>set_Published := Some (ver_ID v)\<rparr> else r) (rule_sets s),
            publications := publications s @ [p]\<rparr>"
  have ids: "map set_ID (rule_sets s') = map set_ID (rule_sets s)" by (simp add: s')
  have pubs: "publicationsOf i s' = publicationsOf i s @ (if i = setID then [p] else [])" for i
    by (simp add: s' publicationsOf_def p)
  have "numbered pub_Seq (publicationsOf i s')" for i
    using ok numbered_snoc [of pub_Seq "publicationsOf setID s" p] p(2) by (auto simp: pubs store_ok_def NextPublication_def)
  moreover have "v \<in> set (versions s)" "ver_SetID v = setID" using lookup_Inr [OF v [unfolded GetVersion_def]] by auto
  moreover have "set_ID ` set (rule_sets s') = set_ID ` set (rule_sets s)" by (metis ids list.set_map)
  moreover have "set_Published r = (if publicationsOf (set_ID r) s' = [] then None else Some (pub_VersionID (last (publicationsOf (set_ID r) s'))))"
    if "r \<in> set (rule_sets s')" for r
    using that ok p(3) unfolding pubs by (auto simp: s' store_ok_def)
  moreover have "versions s' = versions s" "tokens s' = tokens s" "publications s' = publications s @ [p]" by (simp_all add: s')
  ultimately show ?thesis using ok p unfolding store_ok_def ids by (auto simp: versionsOf_def)
qed

lemma CreateToken_Inr:
  assumes "CreateToken cr setID name kind raw tm s = Inr (s', t, val)"
  shows "s' = s\<lparr>tokens := tokens s @ [t]\<rparr> \<and> tok_Hash t \<notin> tok_Hash ` set (tokens s) \<and> tok_Hash t = HashToken cr val
    \<and> tok_SetID t = setID \<and> tok_RevokedAt t = None"
  using assms unfolding CreateToken_def Let_def by (auto simp: andThen_Inr image_iff split: if_splits)

lemma store_ok_step: "store_step cr s s' \<Longrightarrow> store_ok s \<Longrightarrow> store_ok s'"
proof (induction rule: store_step.induct)
  case (create_org slug name tm s s' org)
  then show ?case by (intro store_ok_frame [of s s']) (auto simp: CreateOrg_def Let_def store_ok_def split: if_splits)
next
  case (create_set orgID slug name tm s s' rs)
  then show ?case by (rule store_ok_CreateSet)
next
  case (create_version setID author comment canonical tm s s' v)
  then show ?case using store_ok_createVersion by (simp add: CreateVersion_def createVersionLoop_cases)
next
  case (publish_version setID req Check tm s s' p)
  then show ?case using store_ok_publish by (simp add: Publish_def publishLoop_cases)
next
  case (create_token setID name kind raw tm s s' t val)
  from CreateToken_Inr [OF create_token.hyps] show ?case
    using create_token.prems by (intro store_ok_frame [of s s']) (auto simp: store_ok_def)
next
  case (revoke_token setID tokenID tm s s')
  then have "map tok_Hash (tokens s') = map tok_Hash (tokens s)" by (auto simp: RevokeToken_def split: if_splits)
  then show ?case using revoke_token
    by (intro store_ok_frame [of s s']) (auto simp: RevokeToken_def store_ok_def split: if_splits)
next
  case (add_key orgID keyID name publicKey createdBy tm s s' k)
  then show ?case by (intro store_ok_frame [of s s']) (auto simp: AddSigningKey_def Let_def store_ok_def split: if_splits)
next
  case (revoke_key orgID kid tm s s')
  then show ?case by (intro store_ok_frame [of s s']) (auto simp: RevokeSigningKey_def store_ok_def split: if_splits)
qed

lemma store_ok_reach: "reach cr s s' \<Longrightarrow> store_ok s \<Longrightarrow> store_ok s'"
  unfolding reach_def by (induction rule: rtranclp_induct) (auto intro: store_ok_step)

text \<open>
  C38: The history of a rule set is sound in every state the store can reach: its revisions and its
  publications are numbered from 1 without gaps, and the version the set points at, which a cluster
  is served, is the version of its newest publication, whose signature is served with it.
\<close>

theorem served_is_latest:
  assumes "reach cr emptyStore s" and "i \<in> set_ID ` set (rule_sets s)"
  shows "numbered ver_Revision (versionsOf i s) \<and> numbered pub_Seq (publicationsOf i s)
    \<and> Published i s = map_sum id snd (LatestPublication i s)"
proof -
  have ok: "store_ok s" by (rule store_ok_reach [OF assms(1) store_ok_empty])
  then have num: "numbered ver_Revision (versionsOf i s)" "numbered pub_Seq (publicationsOf i s)" by (simp_all add: store_ok_def)
  then have sorted: "sort_key pub_Seq (publicationsOf i s) = publicationsOf i s"
    by (intro sort_key_id_if_sorted numbered_sorted)
  obtain r where r: "List.find (\<lambda>r. set_ID r = i) (rule_sets s) = Some r" "r \<in> set (rule_sets s)" "set_ID r = i"
    using find_Some_of [OF assms(2)] by blast
  show ?thesis
  proof (cases "publicationsOf i s = []")
    case True
    then have "set_Published r = None" using ok r by (auto simp: store_ok_def)
    then show ?thesis using num True r by (simp add: Published_def LatestPublication_def Publications_def)
  next
    case False
    let ?p = "last (publicationsOf i s)"
    have "?p \<in> set (publications s)" using last_in_set [OF False] by (simp add: publicationsOf_def)
    then obtain v where v: "v \<in> set (versions s)" "ver_ID v = pub_VersionID ?p" using ok by (auto simp: store_ok_def)
    have one: "filter (\<lambda>v. ver_ID v = pub_VersionID ?p) (versions s) = [v]"
      by (rule filter_distinct [where f = ver_ID, OF _ v]) (use ok in \<open>simp add: store_ok_def\<close>)
    have flipped: "rev (publicationsOf i s) = ?p # rev (butlast (publicationsOf i s))"
      using append_butlast_last_id [OF False] by (metis rev.simps(2) rev_rev_ident rev_append rev_singleton_conv append_Cons append_Nil)
    have "Publications i s = (?p, v) # tl (Publications i s)" unfolding Publications_def sorted flipped by (simp add: one)
    then have "LatestPublication i s = Inr (?p, v)" unfolding LatestPublication_def by (metis list.simps(5))
    moreover have "set_Published r = Some (pub_VersionID ?p)" using ok r False by (auto simp: store_ok_def)
    moreover have "versionByID (pub_VersionID ?p) s = Inr v"
      using one by (simp add: versionByID_def lookup_def find_filter)
    ultimately show ?thesis using num r by (simp add: Published_def)
  qed
qed

text \<open>A first organisation with a set, a version and a publication.\<close>

definition first_store :: store where
  "first_store = \<lparr>orgs = [\<lparr>org_ID = 1, org_Slug = ''shop'', org_Name = ''shop'', org_CreatedAt = ''t''\<rparr>],
     rule_sets = [\<lparr>set_ID = 1, set_OrgID = 1, set_Slug = ''web'', set_Name = ''web'', set_Published = Some 1, set_CreatedAt = ''t''\<rparr>],
     versions = [\<lparr>ver_ID = 1, ver_SetID = 1, ver_Revision = 1, ver_Content = ''{}'', ver_ETag = ''e'', ver_Author = [], ver_Comment = [], ver_CreatedAt = ''t''\<rparr>],
     tokens = [], publications = [\<lparr>pub_ID = 1, pub_SetID = 1, pub_Seq = 1, pub_VersionID = 1, pub_Author = [], pub_KeyID = [], pub_Signature = [], pub_At = ''t''\<rparr>],
     signing_keys = []\<rparr>"

definition first_request :: PublishRequest where
  "first_request = \<lparr>req_Revision = 1, req_Author = [], req_Seq = 0, req_KeyID = [], req_Signature = []\<rparr>"

definition bare_set :: RuleSet where
  "bare_set = \<lparr>set_ID = 1, set_OrgID = 1, set_Slug = ''web'', set_Name = ''web'', set_Published = None, set_CreatedAt = ''t''\<rparr>"

lemma first_store_reach: "reach cr emptyStore first_store"
proof -
  let ?s1 = "emptyStore\<lparr>orgs := orgs first_store\<rparr>"
  let ?s2 = "?s1\<lparr>rule_sets := [bare_set]\<rparr>"
  let ?s3 = "?s2\<lparr>versions := versions first_store\<rparr>"
  have slugs: "CheckSlug ''shop''" "CheckSlug ''web''" by code_simp+
  have "\<exists>r. CreateOrg ''shop'' [] ''t'' emptyStore = Inr (?s1, r)"
    by (simp add: CreateOrg_def slugs emptyStore_def nextOf_def first_store_def Let_def)
  moreover have "\<exists>r. CreateSet 1 ''web'' [] ''t'' ?s1 = Inr (?s2, r)"
    by (simp add: CreateSet_def slugs emptyStore_def nextOf_def first_store_def bare_set_def Let_def)
  moreover have "\<exists>r. CreateVersion 1 [] [] (\<lambda>_. Inr (''{}'', ''e'')) ''t'' ?s2 = Inr (?s3, r)"
    by (simp add: CreateVersion_def createVersionLoop_cases createVersion_def versionsOf_def emptyStore_def nextOf_def first_store_def bare_set_def Let_def)
  moreover have "\<exists>r. Publish 1 first_request (\<lambda>_ _. None) ''t'' ?s3 = Inr (first_store, r)"
    by (simp add: Publish_def publishLoop_cases publish_def GetVersion_def lookup_def NextPublication_def publicationsOf_def emptyStore_def
        nextOf_def first_store_def first_request_def bare_set_def Let_def)
  ultimately have "store_step cr emptyStore ?s1" "store_step cr ?s1 ?s2" "store_step cr ?s2 ?s3" "store_step cr ?s3 first_store"
    by (blast intro: store_step.intros)+
  then show ?thesis
    unfolding reach_def by (intro converse_rtranclp_into_rtranclp [OF _ converse_rtranclp_into_rtranclp
        [OF _ converse_rtranclp_into_rtranclp [OF _ r_into_rtranclp]]])
qed

theorem served_is_latest_witness:
  "Published 1 first_store = map_sum id snd (LatestPublication 1 first_store) \<and> (\<exists>v. Published 1 first_store = Inr v)"
proof -
  have "1 \<in> set_ID ` set (rule_sets first_store)" by (simp add: first_store_def)
  moreover have "\<exists>v. Published 1 first_store = Inr v" by (simp add: Published_def first_store_def versionByID_def lookup_def)
  ultimately show ?thesis using served_is_latest [OF first_store_reach [of toy_crypto]] by blast
qed

text \<open>Rows are only ever added to the versions and the publications.\<close>

lemma step_prefix: "store_step cr s s' \<Longrightarrow> prefix (versions s) (versions s') \<and> prefix (publications s) (publications s')"
  by (induction rule: store_step.induct)
    (auto simp: CreateOrg_def CreateSet_def CreateVersion_def createVersionLoop_cases createVersion_def Publish_def publishLoop_cases publish_def
      CreateToken_def RevokeToken_def AddSigningKey_def RevokeSigningKey_def Let_def andThen_Inr split: if_splits option.splits)

lemma reach_prefix: "reach cr s s' \<Longrightarrow> prefix (versions s) (versions s') \<and> prefix (publications s) (publications s')"
  unfolding reach_def by (induction rule: rtranclp_induct) (auto dest: step_prefix intro: prefix_order.trans)

text \<open>
  C39: A version is immutable: once a revision of a set can be read, the same content, ETag and
  author are read for it after every further run of operations; publishing, also of an older
  revision, and revoking never touch it.
\<close>

theorem version_immutable:
  assumes "GetVersion setID revision s = Inr v" and "reach cr s s'"
  shows "GetVersion setID revision s' = Inr v"
proof -
  obtain more where "versions s' = versions s @ more" using reach_prefix [OF assms(2)] by (auto simp: prefix_def)
  then show ?thesis using assms(1) by (auto simp: GetVersion_def lookup_def find_filter split: list.splits option.splits)
qed

theorem version_immutable_witness:
  "\<exists>v s'. reach toy_crypto first_store s' \<and> length (publications s') = 2 \<and> GetVersion 1 1 s' = Inr v \<and> ver_Content v = ''{}''"
proof -
  obtain v where v: "GetVersion 1 1 first_store = Inr v" "ver_Content v = ''{}''" by (simp add: GetVersion_def first_store_def lookup_def)
  obtain s' p where s': "Publish 1 first_request (\<lambda>_ _. None) ''u'' first_store = Inr (s', p)" "length (publications s') = 2"
    by (simp add: Publish_def publishLoop_cases publish_def GetVersion_def lookup_def NextPublication_def publicationsOf_def
        nextOf_def first_store_def first_request_def Let_def)
  have "reach toy_crypto first_store s'" unfolding reach_def using publish_version [OF s'(1)] by blast
  then show ?thesis using version_immutable [OF v(1)] v(2) s'(2) by blast
qed

text \<open>The row of a value stays in place, and stays revoked.\<close>

definition dead :: "crypto \<Rightarrow> string \<Rightarrow> store \<Rightarrow> bool" where
  "dead cr val s \<longleftrightarrow> (\<exists>t. List.find (\<lambda>t. tok_Hash t = HashToken cr val) (tokens s) = Some t \<and> tok_RevokedAt t \<noteq> None)"

lemma find_append: "List.find p (xs @ ys) = (case List.find p xs of None \<Rightarrow> List.find p ys | Some x \<Rightarrow> Some x)"
  by (induction xs) auto

lemma find_map: "(\<And>x. p (f x) = p x) \<Longrightarrow> List.find p (map f xs) = map_option f (List.find p xs)"
  by (induction xs) auto

lemma RevokeToken_find:
  "RevokeToken setID tokenID tm s = Inr s' \<Longrightarrow> List.find (\<lambda>t. tok_Hash t = h) (tokens s')
    = map_option (\<lambda>t. if tok_ID t = tokenID \<and> tok_SetID t = setID
            then t\<lparr>tok_RevokedAt := Some (case tok_RevokedAt t of None \<Rightarrow> tm | Some a \<Rightarrow> a)\<rparr> else t)
        (List.find (\<lambda>t. tok_Hash t = h) (tokens s))"
  by (auto simp: RevokeToken_def find_map split: if_splits)

lemma dead_frame: "tokens s' = tokens s \<Longrightarrow> dead cr val s \<Longrightarrow> dead cr val s'"
  by (simp add: dead_def)

lemma dead_step: "store_step cr s s' \<Longrightarrow> dead cr val s \<Longrightarrow> dead cr val s'"
proof (induction rule: store_step.induct)
  case (create_token setID name kind raw tm s s' t v)
  then show ?case using CreateToken_Inr [OF create_token.hyps] by (auto simp: dead_def find_append)
next
  case (revoke_token setID tokenID tm s s')
  then obtain t where "List.find (\<lambda>t. tok_Hash t = HashToken cr val) (tokens s) = Some t" "tok_RevokedAt t \<noteq> None"
    by (auto simp: dead_def)
  then show ?case by (simp add: dead_def RevokeToken_find [OF revoke_token.hyps])
qed (auto elim!: dead_frame [rotated] simp: CreateOrg_def CreateSet_def CreateVersion_def createVersionLoop_cases createVersion_def Publish_def
      publishLoop_cases publish_def AddSigningKey_def RevokeSigningKey_def Let_def andThen_Inr split: if_splits option.splits)

lemma dead_reach: "reach cr s s' \<Longrightarrow> dead cr val s \<Longrightarrow> dead cr val s'"
  unfolding reach_def by (induction rule: rtranclp_induct) (auto intro: dead_step)

text \<open>
  C40: Revocation is final: a token value that was accepted and whose row is then revoked is refused
  as revoked after every further run of operations, whatever tokens are issued afterwards.
\<close>

theorem revoked_stays_revoked:
  assumes "Authenticate cr val s = Inr (t, rs, org)" and "RevokeToken (set_ID rs) (tok_ID t) tm s = Inr s1" and "reach cr s1 s2"
  shows "Authenticate cr val s2 = Inl ErrTokenRevoked"
proof -
  have t: "List.find (\<lambda>t. tok_Hash t = HashToken cr val) (tokens s) = Some t" and rs: "GetSetByID (tok_SetID t) s = Inr rs"
    using assms(1) by (auto simp: Authenticate_def andThen_Inr lookup_def split: if_splits option.splits)
  have "set_ID rs = tok_SetID t" using lookup_Inr [OF rs [unfolded GetSetByID_def]] by simp
  then have "dead cr val s1" using RevokeToken_find [OF assms(2)] t by (simp add: dead_def)
  then have "dead cr val s2" by (rule dead_reach [OF assms(3)])
  then show ?thesis by (auto simp: dead_def Authenticate_def lookup_def)
qed

theorem revoked_stays_revoked_witness:
  "\<exists>s t val s1. CreateToken toy_crypto 1 ''ci'' [] ''r'' ''t'' first_store = Inr (s, t, val)
    \<and> RevokeToken 1 1 ''u'' s = Inr s1 \<and> Authenticate toy_crypto val s1 = Inl ErrTokenRevoked"
proof -
  have "\<exists>s t val. CreateToken toy_crypto 1 ''ci'' [] ''r'' ''t'' first_store = Inr (s, t, val) \<and> tok_ID t = 1"
    by (simp add: CreateToken_def Let_def GetSetByID_def lookup_def first_store_def nextOf_def KindPull_def KindReport_def)
  then obtain s t val where c: "CreateToken toy_crypto 1 ''ci'' [] ''r'' ''t'' first_store = Inr (s, t, val)" "tok_ID t = 1" by blast
  then have t: "tokens s = [t]" "tok_Hash t = HashToken toy_crypto val" "tok_SetID t = 1" "tok_RevokedAt t = None"
    and s: "rule_sets s = rule_sets first_store" "orgs s = orgs first_store"
    using CreateToken_Inr [OF c(1)] by (simp_all add: first_store_def)
  have "\<exists>rs org. Authenticate toy_crypto val s = Inr (t, rs, org) \<and> set_ID rs = 1"
    unfolding Authenticate_def lookup_def t GetSetByID_def GetOrgByID_def s by (simp add: t first_store_def)
  then obtain rs org where a: "Authenticate toy_crypto val s = Inr (t, rs, org)" "set_ID rs = 1" by blast
  obtain s1 where r: "RevokeToken 1 1 ''u'' s = Inr s1" by (simp add: RevokeToken_def t c(2))
  have "Authenticate toy_crypto val s1 = Inl ErrTokenRevoked"
    by (rule revoked_stays_revoked [OF a(1), of "''u''" s1]) (simp_all add: a(2) c(2) r reach_def)
  then show ?thesis using c(1) r by blast
qed

end
