(* ===== verification/Spec2Isabelle.thy ===== *)
theory Spec2Isabelle
  imports Auditor Cleaner Reload RuleStore
begin

text \<open>
  A verification library for PII-Shield, a log redaction engine written in Go. The engine reads a log
  line, cuts it into tokens, decides for each token whether it is a secret, and writes the line back
  with a marker \<^verbatim>\<open>[HIDDEN:name:hash]\<close> in the place of every secret. The library models
  the package \<^verbatim>\<open>src/pkg/scanner\<close> from the entry points down to single bytes.

  \<^bold>\<open>Conventions.\<close> A Go string is a list of bytes (HOL \<open>string\<close>), a byte index a
  natural number, a result of -1 the value \<open>None\<close>. Slices and index expressions that can be out of
  range are written as the error \<open>Panic\<close>. The tables of the package \<^verbatim>\<open>unicode\<close> are a record that
  every definition takes; above 127 nothing is assumed of them. float64 values are real numbers.
  The fixed regular expressions of the code are predicates on bytes; the expressions an operator
  configures are records with a match function, made by a parameter \<open>compile\<close>. The keyed hash is a
  field of the configuration state.

  \<^bold>\<open>Theories.\<close>
  \<^item> \<open>Prelude\<close>, \<open>GoStrings\<close>: error values, byte classes, ordered ranges; the parts of the Go
    packages \<^verbatim>\<open>strings\<close>, \<^verbatim>\<open>utf8\<close> and \<^verbatim>\<open>unicode\<close> the scanner calls.
  \<^item> \<open>CardNumbers\<close> (\<^verbatim>\<open>bin.go\<close>, the Luhn part of \<^verbatim>\<open>scanner.go\<close>): the optimised window scan
    reports exactly the bytes of the valid windows, separated and on boundaries.
  \<^item> \<open>ShapedNumbers\<close> (\<^verbatim>\<open>phone.go\<close>, \<^verbatim>\<open>idnumber.go\<close>, \<^verbatim>\<open>otp.go\<close>, \<^verbatim>\<open>session.go\<close>, \<^verbatim>\<open>dob.go\<close>): the scan
    finds exactly the candidates of its specification, in order, with the digits their labels ask for.
  \<^item> \<open>Carves\<close> (\<^verbatim>\<open>mergeCarves\<close>): the cuts of a line are disjoint and in order.
  \<^item> \<open>KeyWords\<close> (\<^verbatim>\<open>keymatcher.go\<close>): the Aho-Corasick automaton finds a key exactly when its
    lower-cased form contains a configured entry. \<open>Keys\<close>: the sensitivity of keys and the rule names.
  \<^item> \<open>TokenShapes\<close> (\<^verbatim>\<open>signatures.go\<close> and the shape tests of \<^verbatim>\<open>scanner.go\<close>), \<open>Quoting\<close>
    (\<^verbatim>\<open>sqlident.go\<close>, \<^verbatim>\<open>sqlliteral.go\<close>, quotes, pairs and word lists).
  \<^item> \<open>Bigrams\<close>, \<open>Complexity\<close>, \<open>Adaptive\<close> (\<^verbatim>\<open>bigrams.go\<close>, the score, \<^verbatim>\<open>adaptive.go\<close>).
  \<^item> \<open>Config\<close> (configuration, environment, \<^verbatim>\<open>config_file.go\<close>, \<^verbatim>\<open>sdk_config.go\<close>).
  \<^item> \<open>JsonStrings\<close>: JSON string literals, with the round trip of writing and reading.
  \<^item> \<open>Output\<close>: the effects. An operation takes the builder, the reported redactions and the
    baseline and returns them changed, or an error. The law \<open>writes E b m\<close> says that \<open>m\<close> fails only
    with errors in \<open>E\<close>, only appends to the builder, and appends a newline only if \<open>b\<close>.
  \<^item> \<open>Values\<close> (\<^verbatim>\<open>processSingleToken\<close>, \<^verbatim>\<open>maskURLParameters\<close> and what they call),
    \<open>Tokenizer\<close> (\<^verbatim>\<open>scanLine\<close>, \<^verbatim>\<open>scanSegmentFrom\<close>, \<^verbatim>\<open>scanUserAgent\<close>), \<open>Engine\<close>
    (\<^verbatim>\<open>processAndAppend\<close>, the pairs, \<^verbatim>\<open>processTokenLogic\<close> and the entry points).
  \<^item> \<open>EngineLaws\<close>, \<open>EngineRuns\<close>: every part of the engine keeps the law. \<open>Scan\<close>: what follows for
    the entry points.

  \<^bold>\<open>How the parts interact.\<close> \<^verbatim>\<open>ScanAndRedactText\<close> splits a text into lines and calls
  \<^verbatim>\<open>ScanAndRedact\<close> for each; \<^verbatim>\<open>scanLine\<close> carves out card and shaped numbers and tokenises
  the rest; the tokenizer hands every token, with the state of its segment, to \<^verbatim>\<open>processAndAppend\<close>,
  which decides what the tokens before it say about this one and calls \<^verbatim>\<open>processTokenLogic\<close>; that
  splits pairs, URLs, quoted and encoded text and calls itself, the tokenizer or \<^verbatim>\<open>scanLine\<close> on
  the parts, and ends at \<^verbatim>\<open>processSingleToken\<close>, which scores a value.

  \<^bold>\<open>The recursion and its bound.\<close> Every function of the engine takes the function it calls for the
  next token as an argument \<open>next\<close>; \<open>engine st n\<close> closes the recursion with \<open>n\<close> turns and fails with
  \<open>OutOfFuel\<close> without turns. The code bounds the depth of most calls by 32 but calls the tokenizer at
  the same depth from \<^verbatim>\<open>maskURLParameters\<close>. Each such call is on a part that starts at a blank after
  the first byte of the token, so it uses up a blank. Decoding a JSON string can make blanks, each
  from one backslash. With \<open>marks\<close> counting blanks and backslashes, \<open>turns line = 34 * (marks line + 1)\<close>
  turns are enough for every line (\<open>engine_writes\<close>, \<open>lineAt_writes\<close>), so \<open>OutOfFuel\<close> never occurs in the
  entry points.

  \<^bold>\<open>Locales.\<close> \<open>range_detector\<close> is the contract of the number detectors, interpreted on the card
  scan and on the scan of shaped numbers; \<open>token_writer\<close> is what the tokenizer relies on in the
  function it hands tokens to, interpreted on \<^verbatim>\<open>processAndAppend\<close> with the engine.

  \<^bold>\<open>Not modelled.\<close> Pools of buffers and mutexes (no effect on results), the published
  configuration pointer (operations take the snapshot as an argument), rounding of float64, the JSON
  parser of configuration files and the regular expression compiler (parameters). Outside the scanner:
  the command line filter, the eBPF agent, the Kubernetes operator, the rule server and its store, the
  SDKs and generated code.
\<close>

end
